(* ===== verification/Prelude.thy ===== *)
theory Prelude
  imports Complex_Main "HOL-Library.Word" "HOL-Library.Multiset"
begin

text \<open>
  Vocabulary shared by every component: the machine-integer types, the outcome type
  of code that can panic, the checked slice operations of Rust, the fallible fold that
  models a loop with early exit, the total-order laws of a comparator, and the multiset
  facts about list updates that the in-place algorithms need.
\<close>

section \<open>Machine integers\<close>

type_synonym u8 = "8 word"
type_synonym i8 = "8 word"
type_synonym u32 = "32 word"
type_synonym i32 = "32 word"
type_synonym u64 = "64 word"
type_synonym usize = "64 word"

text \<open>The collections the component proofs draw on.\<close>

named_theorems outcome_simps \<open>rewriting of the outcome combinators\<close>
named_theorems float_eval \<open>unfolding of the floating-point operations for evaluation\<close>
named_theorems bytes_simps \<open>lengths and slices of the binary encodings\<close>

section \<open>Outcomes of fallible code\<close>

text \<open>
  A computation either yields a value (\<open>Inr\<close>) or stops with a fault (\<open>Inl\<close>).
  \<open>RawOutOfBounds\<close> is not a panic: it stands for an \<open>unsafe\<close> read beyond the mapped
  file, whose behaviour the language leaves undefined.
\<close>

datatype fault =
    IndexPanic \<comment> \<open>slice or array index out of range\<close>
  | AssertPanic \<comment> \<open>a failed \<open>assert!\<close>\<close>
  | SortPanic \<comment> \<open>a comparator that is not a total order, detected by the sort\<close>
  | UnwrapPanic \<comment> \<open>\<open>panic!\<close>, or \<open>unwrap\<close> or \<open>expect\<close> on a missing value\<close>
  | ProcessExit \<comment> \<open>\<open>std::process::exit\<close>\<close>
  | RawOutOfBounds \<comment> \<open>\<open>slice::from_raw_parts\<close> past the end of the buffer\<close>

type_synonym 'a outcome = "fault + 'a"

definition and_then :: "'e + 'a \<Rightarrow> ('a \<Rightarrow> 'e + 'b) \<Rightarrow> 'e + 'b" where
  "and_then m f = (case m of Inl e \<Rightarrow> Inl e | Inr x \<Rightarrow> f x)"

lemma and_then_simps [simp, outcome_simps]:
  "and_then (Inl e) f = Inl e"
  "and_then (Inr x) f = f x"
  by (simp_all add: and_then_def)

lemma and_then_eq_Inr: "and_then m f = Inr y \<longleftrightarrow> (\<exists>x. m = Inr x \<and> f x = Inr y)"
  by (cases m) simp_all

lemma and_then_assoc: "and_then (and_then m f) g = and_then m (\<lambda>x. and_then (f x) g)"
  by (cases m) simp_all

text \<open>\<open>xs[i]\<close> and \<open>&xs[a..b]\<close>, with their bounds checks.\<close>

definition at_index :: "'a list \<Rightarrow> nat \<Rightarrow> 'a outcome" where
  "at_index xs i = (if i < length xs then Inr (xs ! i) else Inl IndexPanic)"

definition sub_slice :: "'a list \<Rightarrow> nat \<Rightarrow> nat \<Rightarrow> 'a list outcome" where
  "sub_slice xs a b =
     (if a \<le> b \<and> b \<le> length xs then Inr (take (b - a) (drop a xs)) else Inl IndexPanic)"

lemma at_index_ok [simp, outcome_simps]: "i < length xs \<Longrightarrow> at_index xs i = Inr (xs ! i)"
  by (simp add: at_index_def)

lemma sub_slice_ok [simp, outcome_simps]:
  "a \<le> b \<Longrightarrow> b \<le> length xs \<Longrightarrow> sub_slice xs a b = Inr (take (b - a) (drop a xs))"
  by (simp add: sub_slice_def)

text \<open>A \<open>for\<close> loop whose body may stop the function: Rust's \<open>try_fold\<close>.\<close>

fun try_fold :: "('s \<Rightarrow> 'x \<Rightarrow> 'e + 's) \<Rightarrow> 's \<Rightarrow> 'x list \<Rightarrow> 'e + 's" where
  "try_fold f s [] = Inr s"
| "try_fold f s (x # xs) = and_then (f s x) (\<lambda>s'. try_fold f s' xs)"

lemma try_fold_append:
  "try_fold f s (xs @ ys) = and_then (try_fold f s xs) (\<lambda>s'. try_fold f s' ys)"
  by (induction xs arbitrary: s) (simp_all add: and_then_assoc)

lemma try_fold_cong:
  "(\<And>s x. x \<in> set xs \<Longrightarrow> f s x = g s x) \<Longrightarrow> try_fold f s xs = try_fold g s xs"
  by (induction xs arbitrary: s) (auto simp: and_then_def split: sum.split)

lemma try_fold_Inr:
  "(\<And>s x. x \<in> set xs \<Longrightarrow> f s x = Inr (g s x)) \<Longrightarrow> try_fold f s xs = Inr (foldl g s xs)"
  by (induction xs arbitrary: s) auto

lemma try_fold_concat:
  "try_fold (\<lambda>s xs. try_fold f s xs) s xss = try_fold f s (concat xss)"
  by (induction xss arbitrary: s) (simp_all add: try_fold_append)

lemma try_fold_map: "try_fold f s (map h xs) = try_fold (\<lambda>s x. f s (h x)) s xs"
  by (induction xs arbitrary: s) (simp_all)

text \<open>An invariant of the loop body holds of the loop.\<close>

lemma try_fold_invariant:
  assumes "P s" and "\<And>s x. x \<in> set xs \<Longrightarrow> P s \<Longrightarrow> \<exists>s'. f s x = Inr s' \<and> P s'"
  shows "\<exists>s'. try_fold f s xs = Inr s' \<and> P s'"
  using assms
proof (induction xs arbitrary: s)
  case Nil
  then show ?case by simp
next
  case (Cons x xs)
  from Cons.prems obtain s' where "f s x = Inr s'" and "P s'"
    by (meson list.set_intros(1))
  with Cons.IH [of s'] Cons.prems(2) show ?case by simp
qed

lemma try_fold_partial:
  assumes "try_fold f s xs = Inr t" and "P s"
    and "\<And>s x s'. x \<in> set xs \<Longrightarrow> P s \<Longrightarrow> f s x = Inr s' \<Longrightarrow> P s'"
  shows "P t"
  using assms
proof (induction xs arbitrary: s)
  case (Cons x xs)
  from Cons.prems(1) obtain s' where s': "f s x = Inr s'" "try_fold f s' xs = Inr t"
    by (auto simp: and_then_eq_Inr)
  moreover have "P s'" using Cons.prems(2,3) s'(1) by auto
  ultimately show ?case using Cons.IH Cons.prems(3) by auto
qed simp

text \<open>Collecting the results of a fallible function over a list, stopping at the first fault.\<close>

fun try_map :: "('x \<Rightarrow> 'e + 'y) \<Rightarrow> 'x list \<Rightarrow> 'e + 'y list" where
  "try_map f [] = Inr []"
| "try_map f (x # xs) = and_then (f x) (\<lambda>y. and_then (try_map f xs) (\<lambda>ys. Inr (y # ys)))"

lemma try_map_Inr: "(\<And>x. x \<in> set xs \<Longrightarrow> f x = Inr (g x)) \<Longrightarrow> try_map f xs = Inr (map g xs)"
  by (induction xs) auto

lemma try_map_length: "try_map f xs = Inr ys \<Longrightarrow> length ys = length xs"
  by (induction xs arbitrary: ys) (auto simp: and_then_eq_Inr)

lemma try_map_nth:
  "try_map f xs = Inr ys \<Longrightarrow> length ys = length xs \<and> (\<forall>i<length xs. f (xs ! i) = Inr (ys ! i))"
  by (induction xs arbitrary: ys) (auto simp: and_then_eq_Inr less_Suc_eq_0_disj)

lemma try_map_exists: "(\<And>x. x \<in> set xs \<Longrightarrow> \<exists>y. f x = Inr y) \<Longrightarrow> \<exists>ys. try_map f xs = Inr ys"
  by (induction xs) force+

text \<open>\<open>Vec::clear\<close>, and a loop that pushes one element per round.\<close>

definition vec_clear :: "'a list \<Rightarrow> 'a list" where
  "vec_clear xs = []"

lemma try_fold_push:
  "try_fold (\<lambda>ys x. and_then (f x) (\<lambda>y. Inr (ys @ [y]))) ys xs
     = and_then (try_map f xs) (\<lambda>zs. Inr (ys @ zs))"
proof (induction xs arbitrary: ys)
  case (Cons x xs)
  then show ?case by (cases "f x") (simp_all add: and_then_assoc)
qed simp

section \<open>Comparators\<close>

text \<open>
  \<open>std::cmp::Ordering\<close>, and the law \<open>sort_by\<close> and \<open>select_nth_unstable_by\<close> ask of
  their comparator: a total order up to ties, on the elements at hand.
\<close>

datatype ordering = Less | Equal | Greater

fun reverse_ordering :: "ordering \<Rightarrow> ordering" where
  "reverse_ordering Less = Greater"
| "reverse_ordering Equal = Equal"
| "reverse_ordering Greater = Less"

definition total_cmp_on :: "'a set \<Rightarrow> ('a \<Rightarrow> 'a \<Rightarrow> ordering) \<Rightarrow> bool" where
  "total_cmp_on X cmp \<longleftrightarrow>
     (\<forall>a\<in>X. \<forall>b\<in>X. cmp b a = reverse_ordering (cmp a b)) \<and>
     (\<forall>a\<in>X. \<forall>b\<in>X. \<forall>c\<in>X. cmp a b \<noteq> Greater \<longrightarrow> cmp b c \<noteq> Greater \<longrightarrow> cmp a c \<noteq> Greater)"

text \<open>Comparing by a key of a linear order is a lawful comparator.\<close>

definition cmp_key :: "('a \<Rightarrow> 'k::linorder) \<Rightarrow> 'a \<Rightarrow> 'a \<Rightarrow> ordering" where
  "cmp_key k a b = (if k a < k b then Less else if k a = k b then Equal else Greater)"

lemma cmp_key_not_Greater [simp]: "cmp_key k a b \<noteq> Greater \<longleftrightarrow> k a \<le> k b"
  by (auto simp: cmp_key_def)

lemma total_cmp_on_key: "total_cmp_on X (cmp_key k)"
  by (auto simp: total_cmp_on_def cmp_key_def)

lemma total_cmp_on_subset: "total_cmp_on Y cmp \<Longrightarrow> X \<subseteq> Y \<Longrightarrow> total_cmp_on X cmp"
  unfolding total_cmp_on_def by blast

lemma total_cmp_on_trans:
  assumes "total_cmp_on X cmp" and "a \<in> X" "b \<in> X" "c \<in> X"
    and "cmp a b \<noteq> Greater" "cmp b c \<noteq> Greater"
  shows "cmp a c \<noteq> Greater"
  using assms unfolding total_cmp_on_def by metis

lemma total_cmp_on_cong:
  "(\<And>a b. a \<in> X \<Longrightarrow> b \<in> X \<Longrightarrow> cmp a b = cmp' a b) \<Longrightarrow> total_cmp_on X cmp = total_cmp_on X cmp'"
  unfolding total_cmp_on_def by (simp cong: ball_cong)

section \<open>Lists and multisets\<close>

text \<open>Swapping two cells permutes a list.\<close>

lemma mset_swap_cells:
  assumes "i < length xs" and "j < length xs"
  shows "mset (xs[i := xs ! j, j := xs ! i]) = mset xs"
  using assms mset_swap [of j xs i] by simp

lemma length_concat_const: "(\<And>x. x \<in> set xs \<Longrightarrow> length (f x) = n) \<Longrightarrow>
   length (concat (map f xs)) = length xs * n"
  by (induction xs) auto

text \<open>The \<open>i\<close>-th block of a concatenation of blocks of equal length.\<close>

lemma take_drop_concat_const:
  assumes "\<And>x. x \<in> set xs \<Longrightarrow> length (f x) = n" and "i < length xs"
  shows "take n (drop (i * n) (concat (map f xs) @ ys)) = f (xs ! i)"
  using assms
proof (induction xs arbitrary: i)
  case Nil
  then show ?case by simp
next
  case (Cons x xs)
  show ?case
  proof (cases i)
    case 0
    with Cons.prems show ?thesis by simp
  next
    case (Suc j)
    have "length (f x) = n" using Cons.prems by simp
    with Suc Cons show ?thesis by simp
  qed
qed

lemma nth_concat_const:
  assumes "\<And>x. x \<in> set xs \<Longrightarrow> length x = n" and "i < length xs" and "j < n"
  shows "concat xs ! (i * n + j) = xs ! i ! j"
proof -
  have len: "i * n + j < length (concat xs)"
  proof -
    have "i * n + j < Suc i * n" using assms(3) by simp
    also have "\<dots> \<le> length xs * n" using assms(2) by (meson Suc_leI mult_le_mono1)
    also have "\<dots> = length (concat xs)"
      using length_concat_const [of xs "\<lambda>x. x" n] assms(1) by simp
    finally show ?thesis .
  qed
  have "concat xs ! (i * n + j) = take n (drop (i * n) (concat xs)) ! j"
    using len assms(3) by simp
  also have "take n (drop (i * n) (concat xs)) = xs ! i"
    using take_drop_concat_const [of xs "\<lambda>x. x" n i "[]"] assms(1,2) by simp
  finally show ?thesis .
qed

end
