(* ===== verification/Ieee.thy ===== *)
theory Ieee
  imports Prelude "HOL-Library.Log_Nat"
begin

text \<open>
  IEEE 754 binary floating point, as the language gives it to the program: the formats
  \<open>f32\<close> and \<open>f64\<close>, their arithmetic rounded to nearest with ties to even, their
  comparisons, \<open>round\<close>, \<open>clamp\<close> and the \<open>as\<close> conversions. Everything is integer
  arithmetic on bit patterns, so every operation evaluates.

  A float is a sign and a magnitude, the bit pattern without the sign bit. Every finite
  value of a format is a multiple of its smallest positive number; \<open>mag_units\<close> is that
  multiple. Magnitudes are ordered as the values they stand for, which is what makes
  the comparisons, and the proofs about rounding, short.
\<close>

section \<open>Formats, magnitudes and rounding\<close>

record ieee =
  prec :: nat \<comment> \<open>significand bits, the hidden one included\<close>
  unit_exp :: nat \<comment> \<open>the smallest positive number is \<open>2 powr - unit_exp\<close>\<close>
  inf_mag :: nat \<comment> \<open>the bit pattern of infinity; above it are the NaNs\<close>

definition binary32 :: ieee where
  "binary32 = \<lparr>prec = 24, unit_exp = 149, inf_mag = 255 * 2 ^ 23\<rparr>"

definition binary64 :: ieee where
  "binary64 = \<lparr>prec = 53, unit_exp = 1074, inf_mag = 2047 * 2 ^ 52\<rparr>"

datatype fl = Fl (neg: bool) (mag: nat)

definition mag_units :: "ieee \<Rightarrow> nat \<Rightarrow> nat" where
  "mag_units F m =
     (let h = 2 ^ (prec F - 1)
      in if m < h then m else (h + m mod h) * 2 ^ (m div h - 1))"

text \<open>The integer nearest to \<open>a / b\<close>, the even one of two equally near.\<close>

definition nearest_even :: "nat \<Rightarrow> nat \<Rightarrow> nat" where
  "nearest_even a b =
     (let q = a div b; r = a mod b
      in if 2 * r < b then q else if b < 2 * r then q + 1 else if even q then q else q + 1)"

text \<open>
  The magnitude nearest to \<open>a / b\<close> units: drop as many low bits of the quotient as make
  it fit the significand, round what is left, and put exponent and significand together
  by an addition, which carries into the exponent when rounding reaches the next power of
  two. A result past the largest finite number is infinity.
\<close>

definition round_mag :: "ieee \<Rightarrow> nat \<Rightarrow> nat \<Rightarrow> nat" where
  "round_mag F a b =
     (let k = floorlog 2 (a div b) - prec F
      in min (inf_mag F) (nearest_even a (b * 2 ^ k) + k * 2 ^ (prec F - 1)))"

section \<open>Operations on sign and magnitude\<close>

definition fl_is_nan :: "ieee \<Rightarrow> fl \<Rightarrow> bool" where
  "fl_is_nan F x \<longleftrightarrow> inf_mag F < mag x"

definition fl_is_inf :: "ieee \<Rightarrow> fl \<Rightarrow> bool" where
  "fl_is_inf F x \<longleftrightarrow> mag x = inf_mag F"

text \<open>The quiet NaN that arithmetic returns; the program never looks at its payload.\<close>

definition fl_nan :: "ieee \<Rightarrow> fl" where
  "fl_nan F = Fl False (inf_mag F + 2 ^ (prec F - 2))"

definition fl_units :: "ieee \<Rightarrow> fl \<Rightarrow> int" where
  "fl_units F x = (if neg x then - int (mag_units F (mag x)) else int (mag_units F (mag x)))"

text \<open>The order of the numbers, read off the bit patterns. Both zeros have key 0.\<close>

definition fl_key :: "fl \<Rightarrow> int" where
  "fl_key x = (if neg x then - int (mag x) else int (mag x))"

definition fl_round :: "ieee \<Rightarrow> bool \<Rightarrow> nat \<Rightarrow> nat \<Rightarrow> fl" where
  "fl_round F s a b = Fl s (round_mag F a b)"

definition fl_add :: "ieee \<Rightarrow> fl \<Rightarrow> fl \<Rightarrow> fl" where
  "fl_add F x y =
     (if fl_is_nan F x \<or> fl_is_nan F y then fl_nan F
      else if fl_is_inf F x then (if fl_is_inf F y \<and> neg x \<noteq> neg y then fl_nan F else x)
      else if fl_is_inf F y then y
      else let z = fl_units F x + fl_units F y
           in if z = 0 then Fl (neg x \<and> neg y) 0 else fl_round F (z < 0) (nat \<bar>z\<bar>) 1)"

definition fl_neg :: "fl \<Rightarrow> fl" where
  "fl_neg x = Fl (\<not> neg x) (mag x)"

definition fl_mul :: "ieee \<Rightarrow> fl \<Rightarrow> fl \<Rightarrow> fl" where
  "fl_mul F x y =
     (let s = (neg x \<noteq> neg y)
      in if fl_is_nan F x \<or> fl_is_nan F y then fl_nan F
         else if fl_is_inf F x then (if mag y = 0 then fl_nan F else Fl s (inf_mag F))
         else if fl_is_inf F y then (if mag x = 0 then fl_nan F else Fl s (inf_mag F))
         else fl_round F s (mag_units F (mag x) * mag_units F (mag y)) (2 ^ unit_exp F))"

definition fl_div :: "ieee \<Rightarrow> fl \<Rightarrow> fl \<Rightarrow> fl" where
  "fl_div F x y =
     (let s = (neg x \<noteq> neg y)
      in if fl_is_nan F x \<or> fl_is_nan F y then fl_nan F
         else if fl_is_inf F x then (if fl_is_inf F y then fl_nan F else Fl s (inf_mag F))
         else if fl_is_inf F y then Fl s 0
         else if mag y = 0 then (if mag x = 0 then fl_nan F else Fl s (inf_mag F))
         else fl_round F s (mag_units F (mag x) * 2 ^ unit_exp F) (mag_units F (mag y)))"

definition fl_less :: "ieee \<Rightarrow> fl \<Rightarrow> fl \<Rightarrow> bool" where
  "fl_less F x y \<longleftrightarrow> \<not> fl_is_nan F x \<and> \<not> fl_is_nan F y \<and> fl_key x < fl_key y"

definition fl_less_eq :: "ieee \<Rightarrow> fl \<Rightarrow> fl \<Rightarrow> bool" where
  "fl_less_eq F x y \<longleftrightarrow> \<not> fl_is_nan F x \<and> \<not> fl_is_nan F y \<and> fl_key x \<le> fl_key y"

definition fl_partial_cmp :: "ieee \<Rightarrow> fl \<Rightarrow> fl \<Rightarrow> ordering option" where
  "fl_partial_cmp F x y =
     (if fl_is_nan F x \<or> fl_is_nan F y then None else Some (cmp_key fl_key x y))"

text \<open>\<open>round\<close>: the nearest integer, halves away from zero; infinities and NaNs unchanged.\<close>

definition fl_round_int :: "ieee \<Rightarrow> fl \<Rightarrow> fl" where
  "fl_round_int F x =
     (if inf_mag F \<le> mag x then x
      else let n = (2 * mag_units F (mag x) + 2 ^ unit_exp F) div (2 * 2 ^ unit_exp F)
           in fl_round F (neg x) (n * 2 ^ unit_exp F) 1)"

text \<open>\<open>as\<close> to an integer type: truncation, saturation at its bounds, NaN to 0.\<close>

definition fl_to_int :: "ieee \<Rightarrow> int \<Rightarrow> int \<Rightarrow> fl \<Rightarrow> int" where
  "fl_to_int F lo hi x =
     (if fl_is_nan F x then 0
      else if fl_is_inf F x then (if neg x then lo else hi)
      else let n = int (mag_units F (mag x) div 2 ^ unit_exp F)
           in max lo (min hi (if neg x then - n else n)))"

definition fl_of_int :: "ieee \<Rightarrow> int \<Rightarrow> fl" where
  "fl_of_int F i = fl_round F (i < 0) (nat \<bar>i\<bar> * 2 ^ unit_exp F) 1"

text \<open>A decimal literal \<open>a / b\<close>.\<close>

definition fl_of_ratio :: "ieee \<Rightarrow> nat \<Rightarrow> nat \<Rightarrow> fl" where
  "fl_of_ratio F a b = fl_round F False (a * 2 ^ unit_exp F) b"

text \<open>Conversion between formats: exact to a wider one, rounded to a narrower one.\<close>

definition fl_convert :: "ieee \<Rightarrow> ieee \<Rightarrow> fl \<Rightarrow> fl" where
  "fl_convert F G x =
     (if fl_is_nan F x then fl_nan G
      else if fl_is_inf F x then Fl (neg x) (inf_mag G)
      else fl_round G (neg x) (mag_units F (mag x) * 2 ^ unit_exp G) (2 ^ unit_exp F))"

section \<open>The types \<open>f32\<close> and \<open>f64\<close>\<close>

text \<open>A value is its bit pattern, as \<open>to_bits\<close> and \<open>from_bits\<close> have it.\<close>

datatype f32 = F32 (bits32: u32)
datatype f64 = F64 (bits64: u64)

definition unpack32 :: "f32 \<Rightarrow> fl" where
  "unpack32 x = Fl (2 ^ 31 \<le> unat (bits32 x)) (unat (bits32 x) mod 2 ^ 31)"

definition pack32 :: "fl \<Rightarrow> f32" where
  "pack32 x = F32 (word_of_nat ((if neg x then 2 ^ 31 else 0) + mag x))"

definition unpack64 :: "f64 \<Rightarrow> fl" where
  "unpack64 x = Fl (2 ^ 63 \<le> unat (bits64 x)) (unat (bits64 x) mod 2 ^ 63)"

definition pack64 :: "fl \<Rightarrow> f64" where
  "pack64 x = F64 (word_of_nat ((if neg x then 2 ^ 63 else 0) + mag x))"

instantiation f32 :: "{ord, zero, one, plus, minus, times, inverse, uminus}"
begin
definition zero_f32 :: f32 where "0 = F32 0"
definition one_f32 :: f32 where "1 = F32 0x3f800000"
definition plus_f32 :: "f32 \<Rightarrow> f32 \<Rightarrow> f32" where
  "x + y = pack32 (fl_add binary32 (unpack32 x) (unpack32 y))"
definition uminus_f32 :: "f32 \<Rightarrow> f32" where "- x = pack32 (fl_neg (unpack32 x))"
definition minus_f32 :: "f32 \<Rightarrow> f32 \<Rightarrow> f32" where
  "x - y = pack32 (fl_add binary32 (unpack32 x) (fl_neg (unpack32 y)))"
definition times_f32 :: "f32 \<Rightarrow> f32 \<Rightarrow> f32" where
  "x * y = pack32 (fl_mul binary32 (unpack32 x) (unpack32 y))"
definition inverse_f32 :: "f32 \<Rightarrow> f32" where
  "inverse x = pack32 (fl_div binary32 (unpack32 1) (unpack32 x))"
definition divide_f32 :: "f32 \<Rightarrow> f32 \<Rightarrow> f32" where
  "x div y = pack32 (fl_div binary32 (unpack32 x) (unpack32 y))"
definition less_f32 :: "f32 \<Rightarrow> f32 \<Rightarrow> bool" where
  "x < y \<longleftrightarrow> fl_less binary32 (unpack32 x) (unpack32 y)"
definition less_eq_f32 :: "f32 \<Rightarrow> f32 \<Rightarrow> bool" where
  "x \<le> y \<longleftrightarrow> fl_less_eq binary32 (unpack32 x) (unpack32 y)"
instance ..
end

instantiation f64 :: "{ord, zero, one, plus, minus, times, inverse}"
begin
definition zero_f64 :: f64 where "0 = F64 0"
definition one_f64 :: f64 where "1 = F64 0x3ff0000000000000"
definition plus_f64 :: "f64 \<Rightarrow> f64 \<Rightarrow> f64" where
  "x + y = pack64 (fl_add binary64 (unpack64 x) (unpack64 y))"
definition minus_f64 :: "f64 \<Rightarrow> f64 \<Rightarrow> f64" where
  "x - y = pack64 (fl_add binary64 (unpack64 x) (fl_neg (unpack64 y)))"
definition times_f64 :: "f64 \<Rightarrow> f64 \<Rightarrow> f64" where
  "x * y = pack64 (fl_mul binary64 (unpack64 x) (unpack64 y))"
definition inverse_f64 :: "f64 \<Rightarrow> f64" where
  "inverse x = pack64 (fl_div binary64 (unpack64 1) (unpack64 x))"
definition divide_f64 :: "f64 \<Rightarrow> f64 \<Rightarrow> f64" where
  "x div y = pack64 (fl_div binary64 (unpack64 x) (unpack64 y))"
definition less_f64 :: "f64 \<Rightarrow> f64 \<Rightarrow> bool" where
  "x < y \<longleftrightarrow> fl_less binary64 (unpack64 x) (unpack64 y)"
definition less_eq_f64 :: "f64 \<Rightarrow> f64 \<Rightarrow> bool" where
  "x \<le> y \<longleftrightarrow> fl_less_eq binary64 (unpack64 x) (unpack64 y)"
instance ..
end

definition is_nan32 :: "f32 \<Rightarrow> bool" where "is_nan32 x = fl_is_nan binary32 (unpack32 x)"
definition f32_key :: "f32 \<Rightarrow> int" where "f32_key x = fl_key (unpack32 x)"
definition f32_finite :: "f32 \<Rightarrow> bool" where
  "f32_finite x \<longleftrightarrow> mag (unpack32 x) < inf_mag binary32"
definition f32_units :: "f32 \<Rightarrow> int" where "f32_units x = fl_units binary32 (unpack32 x)"

definition f32_partial_cmp :: "f32 \<Rightarrow> f32 \<Rightarrow> ordering option" where
  "f32_partial_cmp x y = fl_partial_cmp binary32 (unpack32 x) (unpack32 y)"
definition f32_round :: "f32 \<Rightarrow> f32" where
  "f32_round x = pack32 (fl_round_int binary32 (unpack32 x))"
definition f32_of_int :: "int \<Rightarrow> f32" where "f32_of_int i = pack32 (fl_of_int binary32 i)"
definition f64_of_int :: "int \<Rightarrow> f64" where "f64_of_int i = pack64 (fl_of_int binary64 i)"
definition f32_lit :: "nat \<Rightarrow> nat \<Rightarrow> f32" where
  "f32_lit a b = pack32 (fl_of_ratio binary32 a b)"
definition f64_lit :: "nat \<Rightarrow> nat \<Rightarrow> f64" where
  "f64_lit a b = pack64 (fl_of_ratio binary64 a b)"

definition f32_to_i8 :: "f32 \<Rightarrow> i8" where
  "f32_to_i8 x = word_of_int (fl_to_int binary32 (- 128) 127 (unpack32 x))"
definition f64_to_u64 :: "f64 \<Rightarrow> u64" where
  "f64_to_u64 x = word_of_int (fl_to_int binary64 0 (2 ^ 64 - 1) (unpack64 x))"
definition f32_to_f64 :: "f32 \<Rightarrow> f64" where
  "f32_to_f64 x = pack64 (fl_convert binary32 binary64 (unpack32 x))"
definition f64_to_f32 :: "f64 \<Rightarrow> f32" where
  "f64_to_f32 x = pack32 (fl_convert binary64 binary32 (unpack64 x))"

definition f32_max :: f32 where "f32_max = F32 0x7f7fffff"

text \<open>\<open>f32::clamp(lo, hi)\<close>, for bounds with \<open>lo <= hi\<close>: a NaN passes through.\<close>

definition f32_clamp :: "f32 \<Rightarrow> f32 \<Rightarrow> f32 \<Rightarrow> f32" where
  "f32_clamp lo hi x = (let y = (if x < lo then lo else x) in if y > hi then hi else y)"

lemmas float_defs [float_eval] =
  binary32_def binary64_def mag_units_def nearest_even_def round_mag_def fl_is_nan_def
  fl_is_inf_def fl_nan_def fl_units_def fl_key_def fl_round_def fl_add_def fl_neg_def
  fl_mul_def fl_div_def fl_less_def fl_less_eq_def fl_partial_cmp_def fl_round_int_def
  fl_to_int_def fl_of_int_def fl_of_ratio_def fl_convert_def unpack32_def pack32_def
  unpack64_def pack64_def zero_f32_def one_f32_def plus_f32_def uminus_f32_def minus_f32_def
  times_f32_def divide_f32_def less_f32_def less_eq_f32_def zero_f64_def one_f64_def
  plus_f64_def minus_f64_def times_f64_def divide_f64_def less_f64_def less_eq_f64_def
  is_nan32_def f32_key_def f32_finite_def f32_units_def f32_partial_cmp_def f32_round_def
  f32_of_int_def f64_of_int_def f32_lit_def f64_lit_def f32_to_i8_def f64_to_u64_def
  f32_to_f64_def f64_to_f32_def f32_max_def f32_clamp_def

section \<open>Rounding is monotone and exact on representable numbers\<close>

lemma nearest_even_eq:
  assumes "0 < b"
  obtains q r where "a = b * q + r" "r < b"
    "nearest_even a b = (if 2 * r < b then q else if b < 2 * r then q + 1 else if even q then q else q + 1)"
proof
  show "a = b * (a div b) + a mod b" by simp
  show "a mod b < b" using assms by simp
qed (simp add: nearest_even_def Let_def)

lemma nearest_even_upper: "0 < b \<Longrightarrow> 2 * (b * nearest_even a b) \<le> 2 * a + b"
  by (rule nearest_even_eq [of b a]) (auto simp: algebra_simps)

lemma nearest_even_lower: "0 < b \<Longrightarrow> 2 * a \<le> 2 * (b * nearest_even a b) + b"
  by (rule nearest_even_eq [of b a]) (auto simp: algebra_simps)

lemma nearest_even_tie:
  assumes "0 < b" and "2 * (b * nearest_even a b) = 2 * a + b \<or> 2 * a = 2 * (b * nearest_even a b) + b"
  shows "even (nearest_even a b)"
  using assms by (elim nearest_even_eq [of b a]) (auto simp: algebra_simps split: if_splits)

lemma nearest_even_exact [simp]: "0 < b \<Longrightarrow> nearest_even (n * b) b = n"
  by (simp add: nearest_even_def Let_def)

lemma nearest_even_scale: "0 < c \<Longrightarrow> nearest_even (a * c) (b * c) = nearest_even a b"
  by (simp add: nearest_even_def Let_def mult_mod_left [symmetric])

lemma nearest_even_mono:
  assumes "a * d \<le> c * b" and "0 < b" and "0 < d"
  shows "nearest_even a b \<le> nearest_even c d"
proof (rule ccontr)
  let ?m = "nearest_even a b" and ?n = "nearest_even c d"
  assume "\<not> ?m \<le> ?n"
  then have lt: "Suc ?n \<le> ?m" by simp
  have up: "d * (2 * (b * ?m)) \<le> d * (2 * a + b)"
    using nearest_even_upper [OF assms(2), of a] by (rule mult_le_mono2)
  have low: "b * (2 * c) \<le> b * (2 * (d * ?n) + d)"
    using nearest_even_lower [OF assms(3), of c] by (rule mult_le_mono2)
  have step: "b * d * 2 * Suc ?n \<le> b * d * 2 * ?m" using lt by (rule mult_le_mono2)
  have eqs: "b * d * 2 * Suc ?n = b * d * 2 * ?m"
    "d * (2 * (b * ?m)) = d * (2 * a + b)" "b * (2 * c) = b * (2 * (d * ?n) + d)"
    using up low step assms(1) by (simp_all add: algebra_simps)
  have "?m = Suc ?n" using eqs(1) assms(2,3) by (simp del: mult_Suc_right)
  moreover have "2 * (b * ?m) = 2 * a + b" "2 * c = 2 * (d * ?n) + d"
    using eqs(2,3) assms(2,3) by simp_all
  ultimately show False
    using nearest_even_tie [OF assms(2), of a] nearest_even_tie [OF assms(3), of c] by simp
qed

lemma div_mono_ratio: "a * d \<le> c * b \<Longrightarrow> 0 < b \<Longrightarrow> 0 < d \<Longrightarrow> a div b \<le> c div (d :: nat)"
proof -
  assume a: "a * d \<le> c * b" and b: "0 < b" and d: "0 < d"
  have "a div b * b * d \<le> a * d" by (intro mult_le_mono1) simp
  also note a
  finally have "a div b * d * b \<le> c * b" by (simp add: ac_simps)
  then have "a div b * d \<le> c" using b by simp
  then show ?thesis using d by (simp add: less_eq_div_iff_mult_less_eq)
qed

definition fmt_ok :: "ieee \<Rightarrow> bool" where
  "fmt_ok F \<longleftrightarrow> 2 \<le> prec F \<and> (\<exists>c\<ge>2. inf_mag F = c * 2 ^ (prec F - 1))"

lemma fmt_ok_binary [simp]: "fmt_ok binary32" "fmt_ok binary64"
  unfolding fmt_ok_def binary32_def binary64_def by (auto intro: exI [of _ 255] exI [of _ 2047])

text \<open>The exponent that rounding drops, and the bounds it gives on the significand.\<close>

abbreviation round_shift :: "ieee \<Rightarrow> nat \<Rightarrow> nat \<Rightarrow> nat" where
  "round_shift F a b \<equiv> floorlog 2 (a div b) - prec F"

lemma round_shift_upper: "0 < b \<Longrightarrow> a < 2 ^ prec F * (b * 2 ^ round_shift F a b)"
proof -
  assume b: "0 < b"
  have "a div b < 2 ^ floorlog 2 (a div b)"
    using floorlog_bounds [of "a div b" 2] by (cases "a div b = 0") auto
  also have "\<dots> \<le> 2 ^ (prec F + round_shift F a b)" by (rule power_increasing) auto
  finally show ?thesis using b by (simp add: div_less_iff_less_mult power_add ac_simps)
qed

lemma round_shift_lower:
  assumes "0 < round_shift F a b" and "0 < b" and "2 \<le> prec F"
  shows "2 ^ (prec F - 1) * (b * 2 ^ round_shift F a b) \<le> a"
proof -
  have q: "0 < a div b" using assms(1) by (cases "a div b = 0") (auto simp: floorlog_def)
  have "2 ^ (prec F - 1 + round_shift F a b) \<le> (2::nat) ^ (floorlog 2 (a div b) - 1)"
    by (rule power_increasing) (use assms(1,3) in auto)
  also have "\<dots> \<le> a div b" using floorlog_bounds [of "a div b" 2] q by simp
  finally show ?thesis using assms(2)
    by (simp add: less_eq_div_iff_mult_less_eq power_add ac_simps)
qed

definition round_sig :: "ieee \<Rightarrow> nat \<Rightarrow> nat \<Rightarrow> nat" where
  "round_sig F a b = nearest_even a (b * 2 ^ round_shift F a b)"

lemma round_mag_eq:
  "round_mag F a b = min (inf_mag F) (round_sig F a b + round_shift F a b * 2 ^ (prec F - 1))"
  by (simp add: round_mag_def round_sig_def Let_def)

lemma round_sig_le: "0 < b \<Longrightarrow> round_sig F a b \<le> 2 ^ prec F"
  using round_shift_upper [where F = F and a = a and b = b] nearest_even_exact [of "b * 2 ^ round_shift F a b" "2 ^ prec F"]
    nearest_even_mono [of a "b * 2 ^ round_shift F a b" "2 ^ prec F * (b * 2 ^ round_shift F a b)" "b * 2 ^ round_shift F a b"]
  by (simp add: round_sig_def)

lemma round_sig_ge: "0 < b \<Longrightarrow> 2 \<le> prec F \<Longrightarrow> 0 < round_shift F a b \<Longrightarrow> 2 ^ (prec F - 1) \<le> round_sig F a b"
  using round_shift_lower [where F = F and a = a and b = b] nearest_even_exact [of "b * 2 ^ round_shift F a b" "2 ^ (prec F - 1)"]
    nearest_even_mono [of "2 ^ (prec F - 1) * (b * 2 ^ round_shift F a b)" "b * 2 ^ round_shift F a b" a "b * 2 ^ round_shift F a b"]
  by (simp add: round_sig_def)

lemma round_mag_mono:
  assumes "a * d \<le> c * b" and "0 < b" and "0 < d" and "2 \<le> prec F"
  shows "round_mag F a b \<le> round_mag F c d"
proof -
  let ?k = "round_shift F a b" and ?l = "round_shift F c d" and ?h = "2 ^ (prec F - 1) :: nat"
  have kl: "?k \<le> ?l"
    using floorlog_mono [OF div_mono_ratio [OF assms(1-3)], of 2] by (simp add: diff_le_mono)
  have "round_sig F a b + ?k * ?h \<le> round_sig F c d + ?l * ?h"
  proof (cases "?k = ?l")
    case True
    have "a * (d * 2 ^ ?l) \<le> c * (b * 2 ^ ?l)" using assms(1) by (simp add: mult.assoc [symmetric])
    then show ?thesis using True nearest_even_mono [of a "d * 2 ^ ?l" c "b * 2 ^ ?l"] assms
      by (simp add: round_sig_def)
  next
    case False
    with kl have lt: "Suc ?k \<le> ?l" by simp
    have pw: "2 ^ prec F = 2 * ?h" using assms(4) by (cases "prec F") auto
    have "round_sig F a b + ?k * ?h \<le> ?h + Suc ?k * ?h"
      using round_sig_le [OF assms(2), where F = F and a = a] pw by simp
    also have "\<dots> \<le> round_sig F c d + ?l * ?h"
      using round_sig_ge [OF assms(3,4), where a = c] lt mult_le_mono1 [OF lt, of ?h] by linarith
    finally show ?thesis .
  qed
  then show ?thesis by (simp add: round_mag_eq)
qed

lemma mag_units_cases:
  assumes "2 \<le> prec F"
  shows "m < 2 ^ (prec F - 1) \<and> mag_units F m = m \<or>
    (\<exists>s e. 2 ^ (prec F - 1) \<le> s \<and> s < 2 ^ prec F \<and> mag_units F m = s * 2 ^ e \<and>
       m = s + e * 2 ^ (prec F - 1))"
proof (cases "m < 2 ^ (prec F - 1)")
  case False
  let ?h = "2 ^ (prec F - 1) :: nat"
  have pw: "2 ^ prec F = 2 * ?h" using assms by (cases "prec F") auto
  have "1 \<le> m div ?h" using False by (simp add: less_eq_div_iff_mult_less_eq)
  then have "m = (?h + m mod ?h) + (m div ?h - 1) * ?h"
    using div_mult_mod_eq [of m ?h] by (cases "m div ?h") auto
  with False pw show ?thesis
    by (intro disjI2 exI [of _ "?h + m mod ?h"] exI [of _ "m div ?h - 1"])
      (simp add: mag_units_def Let_def)
qed (simp add: mag_units_def)

lemma round_mag_exact:
  assumes "m \<le> inf_mag F" and "0 < d" and "2 \<le> prec F"
  shows "round_mag F (mag_units F m * d) d = m"
  using mag_units_cases [OF assms(3), of m]
proof (elim disjE conjE exE)
  assume m: "m < 2 ^ (prec F - 1)" "mag_units F m = m"
  have "floorlog 2 m \<le> prec F" 
    using m(1) by (intro floorlog_leI) (auto elim: less_le_trans intro: power_increasing)
  then show ?thesis using m assms by (simp add: round_mag_def)
next
  fix s e assume s: "2 ^ (prec F - 1) \<le> s" "s < 2 ^ prec F" "mag_units F m = s * 2 ^ e"
    and m: "m = s + e * 2 ^ (prec F - 1)"
  have "floorlog 2 s = prec F"
    using s assms(3) by (intro antisym floorlog_leI floorlog_geI) auto
  moreover have "0 < s" using s(1) by (rule less_le_trans [rotated]) simp
  ultimately have "floorlog 2 (mag_units F m * d div d) - prec F = e"
    using s(3) assms(2) by simp
  moreover have "nearest_even (mag_units F m * d) (d * 2 ^ e) = s"
    using nearest_even_exact [of "d * 2 ^ e" s] assms(2) s(3) by (simp add: ac_simps)
  ultimately show ?thesis using m assms(1) by (simp add: round_mag_def)
qed

lemma round_mag_le:
  "a \<le> mag_units F m * b \<Longrightarrow> 0 < b \<Longrightarrow> m \<le> inf_mag F \<Longrightarrow> 2 \<le> prec F \<Longrightarrow> round_mag F a b \<le> m"
  using round_mag_mono [of a b "mag_units F m * b" b F] round_mag_exact [of m F b] by simp

lemma round_mag_ge:
  "mag_units F m * b \<le> a \<Longrightarrow> 0 < b \<Longrightarrow> m \<le> inf_mag F \<Longrightarrow> 2 \<le> prec F \<Longrightarrow> m \<le> round_mag F a b"
  using round_mag_mono [of "mag_units F m * b" b a b F] round_mag_exact [of m F b] by simp

lemma mag_units_less_iff:
  assumes "m \<le> inf_mag F" and "n \<le> inf_mag F" and "2 \<le> prec F"
  shows "mag_units F m < mag_units F n \<longleftrightarrow> m < n"
proof -
  have mono: "mag_units F i \<le> mag_units F j \<Longrightarrow> i \<le> j" if "i \<le> inf_mag F" "j \<le> inf_mag F" for i j
    using round_mag_mono [of "mag_units F i" 1 "mag_units F j" 1 F] round_mag_exact [of i F 1]
      round_mag_exact [of j F 1] that assms(3) by simp
  show ?thesis
    using mono [OF assms(1,2)] mono [OF assms(2,1)] 
    by (cases "m = n") (auto simp: not_less [symmetric] intro: ccontr)
qed

lemma mag_units_scale:
  assumes "2 \<le> prec F" and "n \<le> 2 ^ prec F" and "k = 0 \<or> 2 ^ (prec F - 1) \<le> n"
  shows "mag_units F (n + k * 2 ^ (prec F - 1)) = n * 2 ^ k"
proof -
  let ?h = "2 ^ (prec F - 1) :: nat"
  have pw: "2 ^ prec F = 2 * ?h" using assms(1) by (cases "prec F") auto
  consider "n < ?h" "k = 0" | "?h \<le> n" "n < 2 * ?h" | "n = 2 * ?h"
    using assms(2,3) pw by linarith
  then show ?thesis
  proof cases
    case 2
    then have "n div ?h = 1" and "n mod ?h = n - ?h"
      by (simp_all add: div_nat_eqI mod_if le_mod_geq)
    with 2 show ?thesis by (simp add: mag_units_def Let_def)
  qed (simp_all add: mag_units_def Let_def)
qed

lemma mag_units_round:
  assumes "2 \<le> prec F" and "0 < b" and "round_mag F a b < inf_mag F"
  shows "mag_units F (round_mag F a b) = round_sig F a b * 2 ^ round_shift F a b"
proof -
  let ?X = "round_sig F a b + round_shift F a b * 2 ^ (prec F - 1)"
  have "round_mag F a b = ?X" using assms(3) by (auto simp: round_mag_eq min_def)
  moreover have "round_shift F a b = 0 \<or> 2 ^ (prec F - 1) \<le> round_sig F a b"
    using round_sig_ge [OF assms(2,1), of a] by blast
  ultimately show ?thesis
    using mag_units_scale [OF assms(1) round_sig_le [OF assms(2)]] by simp
qed

lemma round_mag_error:
  assumes "2 \<le> prec F" and "0 < b" and "round_mag F a b < inf_mag F"
  shows "2 * (mag_units F (round_mag F a b) * b) \<le> 2 * a + b * 2 ^ round_shift F a b"
    and "2 * a \<le> 2 * (mag_units F (round_mag F a b) * b) + b * 2 ^ round_shift F a b"
  using nearest_even_upper [of "b * 2 ^ round_shift F a b" a]
    nearest_even_lower [of "b * 2 ^ round_shift F a b" a] mag_units_round [OF assms] assms(2)
  by (simp_all add: round_sig_def ac_simps)

section \<open>Packing\<close>

lemma binary32_sel [simp]:
  "prec binary32 = 24" "unit_exp binary32 = 149" "inf_mag binary32 = 2139095040"
  by (simp_all add: binary32_def)

lemma binary64_sel [simp]:
  "prec binary64 = 53" "unit_exp binary64 = 1074" "inf_mag binary64 = 9218868437227405312"
  by (simp_all add: binary64_def)

lemma mag_unpack32 [simp]: "mag (unpack32 x) < 2147483648"
  by (simp add: unpack32_def)

lemma mag_unpack64 [simp]: "mag (unpack64 x) < 9223372036854775808"
  by (simp add: unpack64_def)

lemma unpack_pack32: "mag x < 2147483648 \<Longrightarrow> unpack32 (pack32 x) = x"
proof -
  assume m: "mag x < 2147483648"
  have "unat (word_of_nat ((if neg x then 2 ^ 31 else 0) + mag x) :: u32)
      = (if neg x then 2 ^ 31 else 0) + mag x"
    using m by (simp only: unat_of_nat) (auto)
  then show ?thesis using m by (cases x) (auto simp: unpack32_def pack32_def simp del: of_nat_add)
qed

lemma unpack_pack64: "mag x < 9223372036854775808 \<Longrightarrow> unpack64 (pack64 x) = x"
proof -
  assume m: "mag x < 9223372036854775808"
  have "unat (word_of_nat ((if neg x then 2 ^ 63 else 0) + mag x) :: u64)
      = (if neg x then 2 ^ 63 else 0) + mag x"
    using m by (simp only: unat_of_nat) (auto)
  then show ?thesis using m by (cases x) (auto simp: unpack64_def pack64_def simp del: of_nat_add)
qed

lemma pack_unpack32 [simp]: "pack32 (unpack32 x) = x"
proof (cases x)
  case (F32 w)
  have "unat w < 2 ^ 32" using unsigned_less [of w] by simp
  then have "(if 2 ^ 31 \<le> unat w then 2 ^ 31 else 0) + unat w mod 2 ^ 31 = unat w"
    by (auto simp: le_mod_geq)
  with F32 show ?thesis by (simp add: pack32_def unpack32_def)
qed

lemma unpack32_inj: "unpack32 x = unpack32 y \<Longrightarrow> x = y"
  by (metis pack_unpack32)

lemma mag_fl_round [simp]: "mag (fl_round F s a b) \<le> inf_mag F"
  by (simp add: fl_round_def round_mag_eq)

lemma neg_fl_round [simp]: "neg (fl_round F s a b) = s"
  by (simp add: fl_round_def)

lemma mag_fl_round64 [simp]: "mag (fl_round binary64 sg a b) < 9223372036854775808"
  using mag_fl_round [of binary64 sg a b] by simp

lemma mag_fl_ops:
  "mag (fl_nan binary32) < 2147483648"
  "mag (fl_round binary32 s a b) < 2147483648"
  "mag x < 2147483648 \<Longrightarrow> mag y < 2147483648 \<Longrightarrow> mag (fl_add binary32 x y) < 2147483648"
  "mag (fl_mul binary32 x y) < 2147483648"
  "mag (fl_div binary32 x y) < 2147483648"
  "mag x < 2147483648 \<Longrightarrow> mag (fl_round_int binary32 x) < 2147483648"
  "mag (fl_convert F binary32 x) < 2147483648"
proof -
  show r: "mag (fl_round binary32 s a b) < 2147483648" for s a b
    using mag_fl_round [of binary32 s a b] by simp
  show n: "mag (fl_nan binary32) < 2147483648" by (simp add: fl_nan_def)
  show "mag x < 2147483648 \<Longrightarrow> mag y < 2147483648 \<Longrightarrow> mag (fl_add binary32 x y) < 2147483648"
    using r n by (auto simp: fl_add_def Let_def)
  show "mag (fl_mul binary32 x y) < 2147483648" using r n by (auto simp: fl_mul_def Let_def)
  show "mag (fl_div binary32 x y) < 2147483648" using r n by (auto simp: fl_div_def Let_def)
  show "mag x < 2147483648 \<Longrightarrow> mag (fl_round_int binary32 x) < 2147483648"
    using r by (auto simp: fl_round_int_def Let_def)
  show "mag (fl_convert F binary32 x) < 2147483648"
    using r n by (auto simp: fl_convert_def)
qed

text \<open>What the packed operations compute.\<close>

lemma unpack32_ops:
  "unpack32 (x + y) = fl_add binary32 (unpack32 x) (unpack32 y)"
  "unpack32 (x - y) = fl_add binary32 (unpack32 x) (fl_neg (unpack32 y))"
  "unpack32 (x * y) = fl_mul binary32 (unpack32 x) (unpack32 y)"
  "unpack32 (x / y) = fl_div binary32 (unpack32 x) (unpack32 y)"
  "unpack32 (f32_round x) = fl_round_int binary32 (unpack32 x)"
  "unpack32 (f32_of_int i) = fl_of_int binary32 i"
  "unpack32 (f64_to_f32 z) = fl_convert binary64 binary32 (unpack64 z)"
  unfolding plus_f32_def minus_f32_def times_f32_def divide_f32_def f32_round_def f32_of_int_def
    f64_to_f32_def fl_of_int_def
  by (rule unpack_pack32, auto intro: mag_fl_ops simp: fl_neg_def)+

lemma unpack32_const [simp]: "unpack32 0 = Fl False 0" "unpack32 1 = Fl False 1065353216"
  by (simp_all add: zero_f32_def one_f32_def unpack32_def)

lemma is_nan32_iff: "is_nan32 x \<longleftrightarrow> 2139095040 < mag (unpack32 x)"
  by (simp add: is_nan32_def fl_is_nan_def)

lemma f32_finite_iff: "f32_finite x \<longleftrightarrow> mag (unpack32 x) < 2139095040"
  by (simp add: f32_finite_def)

lemma f32_finite_not_nan: "f32_finite x \<Longrightarrow> \<not> is_nan32 x"
  by (simp add: is_nan32_iff f32_finite_iff)

section \<open>Order\<close>

lemma f32_less_iff: "x < y \<longleftrightarrow> \<not> is_nan32 x \<and> \<not> is_nan32 y \<and> f32_key x < f32_key y"
  by (simp add: less_f32_def fl_less_def is_nan32_def f32_key_def)

lemma f32_less_eq_iff: "x \<le> y \<longleftrightarrow> \<not> is_nan32 x \<and> \<not> is_nan32 y \<and> f32_key x \<le> f32_key y"
  by (simp add: less_eq_f32_def fl_less_eq_def is_nan32_def f32_key_def)

lemma f32_partial_cmp_iff:
  "f32_partial_cmp x y = (if is_nan32 x \<or> is_nan32 y then None else Some (cmp_key f32_key x y))"
  by (simp add: f32_partial_cmp_def fl_partial_cmp_def is_nan32_def f32_key_def cmp_key_def)

text \<open>The order of the keys is the order of the values.\<close>

lemma mag_units_0 [simp]: "mag_units F 0 = 0"
  by (simp add: mag_units_def Let_def)

lemma f32_key_less_units:
  assumes "\<not> is_nan32 x" and "\<not> is_nan32 y"
  shows "f32_units x < f32_units y \<longleftrightarrow> f32_key x < f32_key y"
proof -
  let ?m = "mag (unpack32 x)" and ?n = "mag (unpack32 y)"
  have le: "?m \<le> inf_mag binary32" "?n \<le> inf_mag binary32" using assms by (simp_all add: is_nan32_iff)
  have "mag_units binary32 ?m < mag_units binary32 ?n \<longleftrightarrow> ?m < ?n"
    "mag_units binary32 ?n < mag_units binary32 ?m \<longleftrightarrow> ?n < ?m"
    "0 < mag_units binary32 ?m \<longleftrightarrow> 0 < ?m" "0 < mag_units binary32 ?n \<longleftrightarrow> 0 < ?n"
    using le mag_units_less_iff [of _ binary32] mag_units_less_iff [of 0 binary32] by simp_all
  then show ?thesis
    by (auto simp: f32_units_def fl_units_def f32_key_def fl_key_def)
qed

section \<open>NaN and sign\<close>

definition f32_nonneg :: "f32 \<Rightarrow> bool" where "f32_nonneg x \<longleftrightarrow> \<not> neg (unpack32 x)"

lemma fl_nan_sel [simp]: "neg (fl_nan F) = False" "mag (fl_nan binary32) = 2143289344"
  by (simp_all add: fl_nan_def)

lemma is_nan32_diff: "f32_finite y \<Longrightarrow> is_nan32 (x - y) \<longleftrightarrow> is_nan32 x"
  using mag_fl_round [of binary32] 
  by (auto simp: is_nan32_iff unpack32_ops fl_add_def fl_is_nan_def fl_is_inf_def fl_neg_def Let_def
      f32_finite_iff fl_nan_def not_less)

lemma is_nan32_square: "is_nan32 (x * x) \<longleftrightarrow> is_nan32 x"
  using mag_fl_round [of binary32]
  by (auto simp: is_nan32_iff unpack32_ops fl_mul_def fl_is_nan_def fl_is_inf_def Let_def
      fl_nan_def not_less)

lemma f32_nonneg_square: "f32_nonneg (x * x)"
  by (simp add: f32_nonneg_def unpack32_ops fl_mul_def Let_def fl_nan_def)

lemma f32_nonneg_add: "f32_nonneg x \<Longrightarrow> f32_nonneg y \<Longrightarrow> f32_nonneg (x + y)"
  by (auto simp: f32_nonneg_def unpack32_ops fl_add_def Let_def fl_nan_def fl_units_def)

lemma is_nan32_add:
  "f32_nonneg x \<Longrightarrow> f32_nonneg y \<Longrightarrow> is_nan32 (x + y) \<longleftrightarrow> is_nan32 x \<or> is_nan32 y"
  using mag_fl_round [of binary32]
  by (auto simp: f32_nonneg_def is_nan32_iff unpack32_ops fl_add_def fl_is_nan_def fl_is_inf_def
      Let_def fl_nan_def not_less)

lemma f32_zero_simps [simp]: "f32_nonneg 0" "\<not> is_nan32 0" "f32_key 0 = 0"
  by (simp_all add: f32_nonneg_def is_nan32_iff f32_key_def fl_key_def)

lemma round_mag_scale: "0 < c \<Longrightarrow> round_mag F (a * c) (b * c) = round_mag F a b"
  using nearest_even_scale [of c a "b * 2 ^ round_shift F a b"]
  by (simp add: round_mag_def Let_def ac_simps)

text \<open>A number with few enough significant bits is rounded to itself.\<close>

lemma mag_units_round_exact:
  assumes "2 \<le> prec F" and "s < 2 ^ prec F" and "round_mag F (s * 2 ^ e) 1 < inf_mag F"
  shows "mag_units F (round_mag F (s * 2 ^ e) 1) = s * 2 ^ e"
proof (cases "s = 0")
  case True
  then show ?thesis using round_mag_exact [of 0 F 1] assms(1) by simp
next
  case False
  let ?k = "round_shift F (s * 2 ^ e) 1"
  have "floorlog 2 s \<le> prec F" using assms(2) by (intro floorlog_leI) auto
  with False have "?k \<le> e" by simp
  then have eq: "s * 2 ^ e = s * 2 ^ (e - ?k) * 2 ^ ?k" by (simp add: power_add [symmetric])
  have "nearest_even (s * 2 ^ e) (2 ^ ?k) = s * 2 ^ (e - ?k)"
    by (subst eq) (rule nearest_even_exact, simp)
  then have sig: "round_sig F (s * 2 ^ e) 1 = s * 2 ^ (e - ?k)" by (simp add: round_sig_def)
  have "mag_units F (round_mag F (s * 2 ^ e) 1) = round_sig F (s * 2 ^ e) 1 * 2 ^ ?k"
    by (rule mag_units_round [OF assms(1) _ assms(3)]) simp
  also have "\<dots> = s * 2 ^ e" unfolding sig by (rule eq [symmetric])
  finally show ?thesis .
qed

text \<open>Evaluation of the bit length on numerals.\<close>

lemma floorlog_numeral [float_eval]:
  "floorlog 2 0 = 0" "floorlog 2 (Suc 0) = 1" "floorlog 2 1 = 1"
  "floorlog 2 (numeral (num.Bit0 n)) = floorlog 2 (numeral n) + 1"
  "floorlog 2 (numeral (num.Bit1 n)) = floorlog 2 (numeral n) + 1"
  by (subst compute_floorlog; simp add: compute_floorlog [of 2 0])+

end
