(* ===== verification/Quantize.thy ===== *)
theory Quantize
  imports Ieee
begin

text \<open>
  Scalar quantization and the integer distance: \<open>quantize\<close> and \<open>dist_int8\<close> of
  search.rs, \<open>quantize_scalar\<close> and \<open>quantize_vec\<close> of buildindex.rs, and the copies in
  classify_mismatches.rs. The facts: the quantized value is the product with 127 rounded to
  the nearest integer and clamped, it is monotone and within half a step of the exact
  product, and the distance never overflows its 32-bit accumulator.
\<close>

section \<open>The code\<close>

definition DIMS :: nat where "DIMS = 14"

definition QUANT_SCALE :: f32 where "QUANT_SCALE = f32_of_int 127"

text \<open>\<open>quantize\<close> of search.rs.\<close>

definition quantize :: "f32 \<Rightarrow> i8" where
  "quantize f =
     (let v = f32_round (f * QUANT_SCALE)
      in if v > f32_of_int 127 then 127
         else if v < f32_of_int (- 127) then - 127
         else f32_to_i8 v)"

text \<open>\<open>quantize_scalar\<close> and \<open>quantize_vec\<close> of buildindex.rs.\<close>

definition quantize_scalar :: "f32 \<Rightarrow> i8" where
  "quantize_scalar f =
     (let v = f32_round (f * QUANT_SCALE)
      in if v > f32_of_int 127 then 127
         else if v < f32_of_int (- 127) then - 127
         else f32_to_i8 v)"

definition quantize_vec :: "f32 list \<Rightarrow> i8 list" where
  "quantize_vec v = map (\<lambda>i. quantize_scalar (v ! i)) [0..<DIMS]"

text \<open>\<open>quantize\<close> of classify_mismatches.rs: the same without the call to \<open>round\<close>.\<close>

definition quantize_diag :: "f32 \<Rightarrow> i8" where
  "quantize_diag f =
     (let v = f * QUANT_SCALE
      in if v > f32_of_int 127 then 127
         else if v < f32_of_int (- 127) then - 127
         else f32_to_i8 v)"

text \<open>
  \<open>dist_int8\<close>, the same in both files: widening to \<open>i32\<close>, differences, squares and the
  running sum, all at 32 bits.
\<close>

definition dist_int8 :: "i8 list \<Rightarrow> i8 list \<Rightarrow> i32" where
  "dist_int8 stored query =
     foldl (\<lambda>sum i. let diff = (scast (stored ! i) :: i32) - scast (query ! i)
                     in sum + diff * diff) 0 [0..<DIMS]"

definition dist_int8_diag :: "i8 list \<Rightarrow> i8 list \<Rightarrow> i32" where
  "dist_int8_diag stored query =
     foldl (\<lambda>sum i. let d = (scast (stored ! i) :: i32) - scast (query ! i)
                     in sum + d * d) 0 [0..<DIMS]"

section \<open>What \<open>quantize\<close> computes\<close>

lemma unpack32_127 [simp]:
  "unpack32 (f32_of_int 127) = Fl False 1123942400"
  "unpack32 (f32_of_int (- 127)) = Fl True 1123942400"
  "unpack32 (f32_of_int 128) = Fl False 1124073472"
  by (simp_all add: unpack32_ops float_eval)

lemma mag_units_127 [simp]:
  "mag_units binary32 1123942400 = 127 * 2 ^ 149"
  "mag_units binary32 1124073472 = 128 * 2 ^ 149"
  "mag_units binary32 2139095040 = 2 ^ 277"
  by (simp_all add: mag_units_def)

text \<open>The rounded magnitude of \<open>127 * x\<close>, before the clamp, as a number.\<close>

definition quant_level :: "nat \<Rightarrow> nat" where
  "quant_level m =
     (2 * mag_units binary32 (round_mag binary32 (127 * mag_units binary32 m) 1) + 2 ^ 149) div 2 ^ 150"

lemma unpack32_scaled:
  assumes "\<not> is_nan32 x"
  shows "unpack32 (x * QUANT_SCALE)
     = Fl (neg (unpack32 x)) (round_mag binary32 (127 * mag_units binary32 (mag (unpack32 x))) 1)"
proof (cases "f32_finite x")
  case True
  then show ?thesis
    using round_mag_scale [of "2 ^ 149" binary32 "127 * mag_units binary32 (mag (unpack32 x))" 1]
    by (simp add: QUANT_SCALE_def unpack32_ops(3) fl_mul_def fl_is_nan_def fl_is_inf_def fl_round_def
        f32_finite_iff ac_simps)
next
  case False
  with assms have inf: "mag (unpack32 x) = inf_mag binary32"
    by (simp add: f32_finite_iff is_nan32_iff)
  have "inf_mag binary32 \<le> round_mag binary32 (127 * mag_units binary32 (inf_mag binary32)) 1"
    by (rule round_mag_ge) simp_all
  moreover have "round_mag binary32 (127 * mag_units binary32 (inf_mag binary32)) 1 \<le> inf_mag binary32"
    by (simp add: round_mag_eq)
  ultimately have "round_mag binary32 (127 * mag_units binary32 (inf_mag binary32)) 1 = inf_mag binary32"
    by simp
  with inf show ?thesis
    by (simp add: QUANT_SCALE_def unpack32_ops(3) fl_mul_def fl_is_nan_def fl_is_inf_def)
qed

text \<open>Rounding to an integer, for a value below infinity.\<close>

lemma round_int_level:
  assumes "M = round_mag binary32 (n * 2 ^ 149) 1"
  shows "1123942400 < M \<longleftrightarrow> 127 < n"
    and "n \<le> 127 \<Longrightarrow> mag_units binary32 M div 2 ^ 149 = n"
proof -
  have lo: "M \<le> 1123942400" if "n \<le> 127"
    unfolding assms by (rule round_mag_le) (use that in simp_all)
  moreover have "1124073472 \<le> M" if "127 < n"
    unfolding assms by (rule round_mag_ge) (use that in simp_all)
  ultimately show "1123942400 < M \<longleftrightarrow> 127 < n" by fastforce
  show "mag_units binary32 M div 2 ^ 149 = n" if "n \<le> 127"
    using mag_units_round_exact [of binary32 n 149] lo [OF that] that unfolding assms by simp
qed

lemma sint_i8: "- 128 \<le> k \<Longrightarrow> k < 128 \<Longrightarrow> sint (word_of_int k :: i8) = k"
  by (simp add: signed_of_int signed_take_bit_int_eq_self)

lemma sint_f32_to_i8: "sint (f32_to_i8 x) = fl_to_int binary32 (- 128) 127 (unpack32 x)"
  unfolding f32_to_i8_def by (rule sint_i8) (auto simp: fl_to_int_def Let_def)

lemma sint_quantize:
  "sint (quantize x) =
     (if is_nan32 x then 0
      else (if neg (unpack32 x) then -1 else 1) * int (min 127 (quant_level (mag (unpack32 x)))))"
proof -
  let ?s = "neg (unpack32 x)"
  let ?P = "round_mag binary32 (127 * mag_units binary32 (mag (unpack32 x))) 1"
  let ?n = "quant_level (mag (unpack32 x))"
  let ?M = "round_mag binary32 (?n * 2 ^ 149) 1"
  show ?thesis
  proof (cases "is_nan32 x")
    case True
    then have "unpack32 (x * QUANT_SCALE) = fl_nan binary32"
      by (simp add: unpack32_ops(3) fl_mul_def is_nan32_def)
    then have v: "unpack32 (f32_round (x * QUANT_SCALE)) = fl_nan binary32"
      by (simp add: unpack32_ops(5) fl_round_int_def)
    then show ?thesis using True
      by (simp add: quantize_def Let_def f32_less_iff is_nan32_iff sint_f32_to_i8 fl_to_int_def fl_is_nan_def)
  next
    case False
    consider "?P = inf_mag binary32" | "?P < inf_mag binary32"
      using round_mag_eq [of binary32] by fastforce
    then show ?thesis
    proof cases
      case 1
      then have "unpack32 (f32_round (x * QUANT_SCALE)) = Fl ?s 2139095040"
        by (simp add: unpack32_ops(5) fl_round_int_def unpack32_scaled [OF False])
      moreover have "127 \<le> ?n" using 1 by (simp add: quant_level_def)
      ultimately show ?thesis using False
        by (simp add: quantize_def Let_def f32_less_iff is_nan32_iff f32_key_def fl_key_def min_def)
    next
      case 2
      have v: "unpack32 (f32_round (x * QUANT_SCALE)) = Fl ?s ?M"
        using 2 by (simp add: unpack32_ops(5) fl_round_int_def unpack32_scaled [OF False]
            quant_level_def Let_def fl_round_def)
      have M: "?M \<le> 2139095040" by (simp add: round_mag_eq)
      show ?thesis
      proof (cases "127 < ?n")
        case True
        then show ?thesis using False v M round_int_level(1) [OF refl, of ?n]
          by (auto simp: quantize_def Let_def f32_less_iff is_nan32_iff f32_key_def fl_key_def min_def)
      next
        case False
        then have n: "?n \<le> 127" "\<not> 1123942400 < ?M" "mag_units binary32 ?M div 2 ^ 149 = ?n"
          using round_int_level [OF refl, of ?n] by auto
        then show ?thesis using \<open>\<not> is_nan32 x\<close> v M
          by (auto simp: quantize_def Let_def f32_less_iff is_nan32_iff f32_key_def fl_key_def
              sint_f32_to_i8 fl_to_int_def fl_is_nan_def fl_is_inf_def min_def max_def)
      qed
    qed
  qed
qed

lemma quantize_range: "- 127 \<le> sint (quantize x)" "sint (quantize x) \<le> 127"
  by (auto simp: sint_quantize)

lemma quant_level_mono:
  assumes "m \<le> n" and "n \<le> inf_mag binary32"
  shows "quant_level m \<le> quant_level n"
proof -
  have le: "mag_units binary32 i \<le> mag_units binary32 j"
    if "i \<le> j" "j \<le> inf_mag binary32" for i j
    using mag_units_less_iff [of j binary32 i] that by (simp add: not_less [symmetric])
  have "round_mag binary32 (127 * mag_units binary32 m) 1
      \<le> round_mag binary32 (127 * mag_units binary32 n) 1"
    using le [OF assms] by (intro round_mag_mono) simp_all
  then have "mag_units binary32 (round_mag binary32 (127 * mag_units binary32 m) 1)
      \<le> mag_units binary32 (round_mag binary32 (127 * mag_units binary32 n) 1)"
    by (rule le) (simp add: round_mag_eq)
  then show ?thesis unfolding quant_level_def by (intro div_le_mono) simp
qed

lemma quant_level_0 [simp]: "quant_level 0 = 0"
  using round_mag_exact [of 0 binary32 1] by (simp add: quant_level_def)

lemma quantize_mono_aux: "x \<le> y \<Longrightarrow> sint (quantize x) \<le> sint (quantize y)"
proof -
  assume xy: "x \<le> y"
  then have nan: "\<not> is_nan32 x" "\<not> is_nan32 y" and key: "f32_key x \<le> f32_key y"
    by (simp_all add: f32_less_eq_iff)
  let ?m = "mag (unpack32 x)" and ?n = "mag (unpack32 y)"
  have inf: "?m \<le> inf_mag binary32" "?n \<le> inf_mag binary32" using nan by (simp_all add: is_nan32_iff)
  have "?m \<le> ?n \<Longrightarrow> quant_level ?m \<le> quant_level ?n" "?n \<le> ?m \<Longrightarrow> quant_level ?n \<le> quant_level ?m"
    using inf by (simp_all add: quant_level_mono)
  note mono = this
  show ?thesis
  proof (cases "\<not> neg (unpack32 x) \<and> neg (unpack32 y)")
    case True
    with key have "?m = 0" "?n = 0" by (simp_all add: f32_key_def fl_key_def)
    with nan show ?thesis by (simp add: sint_quantize)
  next
    case False
    with nan key mono show ?thesis
      by (auto simp: sint_quantize f32_key_def fl_key_def min_def)
  qed
qed

section \<open>The quantization error\<close>

definition f32_val :: "f32 \<Rightarrow> real" where
  "f32_val x = real_of_int (f32_units x) / 2 ^ 149"

lemma quant_level_error:
  assumes "mag_units binary32 m \<le> 2 ^ 149"
  shows "quant_level m \<le> 127"
    and "2 * (127 * mag_units binary32 m) \<le> 2 * (quant_level m * 2 ^ 149) + (2 ^ 149 + 2 ^ 132)"
    and "2 * (quant_level m * 2 ^ 149) \<le> 2 * (127 * mag_units binary32 m) + (2 ^ 149 + 2 ^ 132)"
proof -
  let ?a = "127 * mag_units binary32 m" and ?k = "round_shift binary32 (127 * mag_units binary32 m) 1"
  define R where "R = round_mag binary32 ?a 1"
  define U where "U = mag_units binary32 R"
  define n where "n = quant_level m"
  have R: "R \<le> 1123942400"
    unfolding R_def using assms by (intro round_mag_le) simp_all
  then have "\<not> 127 * 2 ^ 149 < U"
    using mag_units_less_iff [of 1123942400 binary32 R] by (simp add: U_def)
  then have U: "U \<le> 127 * 2 ^ 149" by simp
  have "floorlog 2 ?a \<le> 156" using assms by (intro floorlog_leI) simp_all
  then have "(2::nat) ^ ?k \<le> 2 ^ 132" by (intro power_increasing) simp_all
  moreover have "R < inf_mag binary32" using R by simp
  ultimately have e: "2 * U \<le> 2 * ?a + 2 ^ 132" "2 * ?a \<le> 2 * U + 2 ^ 132"
    using round_mag_error [of binary32 1 ?a] unfolding R_def U_def by simp_all
  have n: "n = (2 * U + 2 ^ 149) div 2 ^ 150"
    by (simp add: n_def quant_level_def U_def R_def)
  then have d: "n * 2 ^ 150 \<le> 2 * U + 2 ^ 149" "2 * U + 2 ^ 149 < Suc n * 2 ^ 150"
    using div_times_less_eq_dividend [of "2 * U + 2 ^ 149" "2 ^ 150"]
      dividend_less_div_times [of "2 ^ 150" "2 * U + 2 ^ 149"] by (simp_all add: n)
  have "n * 2 ^ 150 < 128 * 2 ^ 150" using d(1) U by simp
  then show "quant_level m \<le> 127" by (simp add: n_def)
  show "2 * ?a \<le> 2 * (quant_level m * 2 ^ 149) + (2 ^ 149 + 2 ^ 132)"
    using d e by (simp add: n_def [symmetric])
  show "2 * (quant_level m * 2 ^ 149) \<le> 2 * ?a + (2 ^ 149 + 2 ^ 132)"
    using d e by (simp add: n_def [symmetric])
qed

lemma quantize_error_aux:
  assumes "\<not> is_nan32 x" and "\<bar>f32_val x\<bar> \<le> 1"
  shows "\<bar>127 * f32_val x - real_of_int (sint (quantize x))\<bar> \<le> 1 / 2 + 1 / 2 ^ 18"
proof -
  let ?u = "mag_units binary32 (mag (unpack32 x))" and ?n = "quant_level (mag (unpack32 x))"
  have abs: "\<bar>f32_val x\<bar> = real ?u / 2 ^ 149"
    by (simp add: f32_val_def f32_units_def fl_units_def)
  then have "real ?u \<le> real (2 ^ 149)" using assms(2) by (simp add: divide_le_eq)
  then have "?u \<le> 2 ^ 149" by (simp only: of_nat_le_iff)
  note err = quant_level_error [OF this]
  let ?z = "2 * (127 * real ?u) - 2 * (real ?n * 2 ^ 149)"
  have "real (2 * (127 * ?u)) \<le> real (2 * (?n * 2 ^ 149) + (2 ^ 149 + 2 ^ 132))"
    "real (2 * (?n * 2 ^ 149)) \<le> real (2 * (127 * ?u) + (2 ^ 149 + 2 ^ 132))"
    using err(2,3) by (simp_all only: of_nat_le_iff)
  then have z: "\<bar>?z\<bar> \<le> 2 ^ 149 + 2 ^ 132" by simp
  have "\<bar>127 * f32_val x - real_of_int (sint (quantize x))\<bar> = \<bar>127 * (real ?u / 2 ^ 149) - real ?n\<bar>"
    using err(1) assms(1)
    by (cases "neg (unpack32 x)") (auto simp: sint_quantize f32_val_def f32_units_def fl_units_def)
  also have "127 * (real ?u / 2 ^ 149) - real ?n = ?z / 2 ^ 150" by (simp add: field_simps)
  also have "\<bar>?z / 2 ^ 150\<bar> = \<bar>?z\<bar> / 2 ^ 150" by simp
  also have "\<dots> \<le> (2 ^ 149 + 2 ^ 132) / 2 ^ 150" using z by (rule divide_right_mono) simp
  also have "\<dots> = 1 / 2 + 1 / 2 ^ 18" by simp
  finally show ?thesis .
qed

section \<open>The reader, the writer and the classifier\<close>

lemma quantize_scalar_eq: "quantize_scalar = quantize"
  by (rule ext) (simp add: quantize_scalar_def quantize_def)

lemma length_quantize_vec [simp]: "length (quantize_vec v) = DIMS"
  by (simp add: quantize_vec_def)

lemma quantize_vec_map: "length v = DIMS \<Longrightarrow> quantize_vec v = map quantize v"
  by (simp add: quantize_vec_def quantize_scalar_eq list_eq_iff_nth_eq)

section \<open>The integer distance\<close>

definition sq_diff_sum :: "i8 list \<Rightarrow> i8 list \<Rightarrow> int" where
  "sq_diff_sum xs ys = (\<Sum>i<DIMS. (sint (xs ! i) - sint (ys ! i))\<^sup>2)"

lemma sint_i8_bounds: "- 128 \<le> sint (x :: i8)" "sint (x :: i8) \<le> 127"
  using sint_greater_eq [of x] sint_less [of x] by simp_all

lemma dist_int8_word: "dist_int8 xs ys = word_of_int (sq_diff_sum xs ys)"
proof -
  have "foldl (\<lambda>sum i. let diff = (scast (xs ! i) :: i32) - scast (ys ! i) in sum + diff * diff) 0 [0..<n]
      = word_of_int (\<Sum>i<n. (sint (xs ! i) - sint (ys ! i))\<^sup>2)" for n
    by (induction n) (simp_all add: Let_def power2_eq_square)
  then show ?thesis by (simp add: dist_int8_def sq_diff_sum_def)
qed

lemma sq_diff_le:
  fixes a b :: int
  assumes "\<bar>a - b\<bar> \<le> c"
  shows "(a - b)\<^sup>2 \<le> c\<^sup>2"
  using assms by (rule abs_le_square_iff [THEN iffD1, OF order_trans]) simp

lemma sq_diff_sum_bounds: "0 \<le> sq_diff_sum xs ys" "sq_diff_sum xs ys \<le> 910350"
proof -
  have "(sint (xs ! i) - sint (ys ! i))\<^sup>2 \<le> 255\<^sup>2" for i
    using sint_i8_bounds [of "xs ! i"] sint_i8_bounds [of "ys ! i"] by (intro sq_diff_le) linarith
  then have "sq_diff_sum xs ys \<le> (\<Sum>i<DIMS. 255\<^sup>2)"
    unfolding sq_diff_sum_def by (intro sum_mono)
  then show "sq_diff_sum xs ys \<le> 910350" by (simp add: DIMS_def)
  show "0 \<le> sq_diff_sum xs ys" by (simp add: sq_diff_sum_def sum_nonneg)
qed

lemma sint_dist_int8: "sint (dist_int8 xs ys) = sq_diff_sum xs ys"
  using sq_diff_sum_bounds [of xs ys]
  by (simp add: dist_int8_word signed_of_int signed_take_bit_int_eq_self)

lemma dist_int8_diag_eq: "dist_int8_diag = dist_int8"
  by (intro ext) (simp add: dist_int8_diag_def dist_int8_def)

section \<open>Properties\<close>

text \<open>Quantization is total: every bit pattern, the infinities and the NaNs included, gives
  a level between -127 and 127; a NaN gives 0; and the sign of the input is the sign of the level.\<close>

theorem quantize_total:
  "- 127 \<le> sint (quantize x) \<and> sint (quantize x) \<le> 127 \<and>
   (is_nan32 x \<longrightarrow> quantize x = 0) \<and> (\<not> is_nan32 x \<longrightarrow> sint (quantize (- x)) = - sint (quantize x))"
proof (intro conjI impI)
  show "quantize x = 0" if "is_nan32 x"
  proof -
    have "sint (quantize x) = sint (0 :: i8)" using that by (simp add: sint_quantize)
    then show ?thesis by (simp only: signed_word_eqI)
  qed
  show "sint (quantize (- x)) = - sint (quantize x)" if "\<not> is_nan32 x"
  proof -
    have "unpack32 (- x) = Fl (\<not> neg (unpack32 x)) (mag (unpack32 x))"
      by (simp add: uminus_f32_def unpack_pack32 fl_neg_def)
    then show ?thesis using that by (simp add: sint_quantize is_nan32_iff)
  qed
qed (rule quantize_range)+

theorem quantize_total_witness:
  "quantize (F32 0x7fc00000) = 0 \<and> sint (quantize (- 1)) = - sint (quantize 1)"
proof -
  have "is_nan32 (F32 0x7fc00000)" by (simp add: is_nan32_iff unpack32_def)
  moreover have "\<not> is_nan32 1" by (simp add: is_nan32_iff)
  ultimately show ?thesis
    using quantize_total [of "F32 0x7fc00000"] quantize_total [of 1] by blast
qed

text \<open>Quantization is monotone on the floats that compare.\<close>

theorem quantize_mono:
  assumes "x \<le> y" shows "sint (quantize x) \<le> sint (quantize y)"
  using assms by (rule quantize_mono_aux)

theorem quantize_mono_witness: "sint (quantize 0) \<le> sint (quantize 1)"
  by (rule quantize_mono) (simp add: f32_less_eq_iff is_nan32_iff f32_key_def fl_key_def)

text \<open>On \<open>[-1, 1]\<close>, the range of the features, the level is within half a step of the exact
  product with 127, up to the \<open>2^-18\<close> that the \<open>f32\<close> multiplication may lose.\<close>

theorem quantize_half_step:
  assumes "\<not> is_nan32 x" and "\<bar>f32_val x\<bar> \<le> 1"
  shows "\<bar>127 * f32_val x - real_of_int (sint (quantize x))\<bar> \<le> 1 / 2 + 1 / 2 ^ 18"
  using assms by (rule quantize_error_aux)

theorem quantize_half_step_witness:
  "\<bar>127 * f32_val 1 - real_of_int (sint (quantize 1))\<bar> \<le> 1 / 2 + 1 / 2 ^ 18"
  by (rule quantize_half_step)
    (simp_all add: is_nan32_iff f32_val_def f32_units_def fl_units_def mag_units_def)

text \<open>The writer quantizes as the reader does: \<open>quantize_vec\<close> of buildindex.rs on a stored
  vector is \<open>quantize\<close> of search.rs on each of its entries, so a query is at distance 0 from its
  own stored copy.\<close>

theorem writer_quantizes_like_reader:
  "quantize_vec v = map (\<lambda>i. quantize (v ! i)) [0..<DIMS] \<and>
   dist_int8 (quantize_vec v) (map (\<lambda>i. quantize (v ! i)) [0..<DIMS]) = 0"
proof -
  have eq: "quantize_vec v = map (\<lambda>i. quantize (v ! i)) [0..<DIMS]"
    by (simp add: quantize_vec_def quantize_scalar_eq)
  moreover have "dist_int8 (quantize_vec v) (quantize_vec v) = 0"
    by (simp add: dist_int8_word sq_diff_sum_def)
  ultimately show ?thesis by simp
qed

text \<open>The 32-bit accumulator of \<open>dist_int8\<close> never overflows: read as a signed number it is the
  exact sum of squared differences, at most 910350 for any bytes; it is symmetric, and 0 exactly
  for equal vectors.\<close>

theorem dist_int8_exact:
  "sint (dist_int8 xs ys) = (\<Sum>i<DIMS. (sint (xs ! i) - sint (ys ! i))\<^sup>2) \<and>
   0 \<le> sint (dist_int8 xs ys) \<and> sint (dist_int8 xs ys) \<le> 910350 \<and>
   dist_int8 xs ys = dist_int8 ys xs \<and>
   (dist_int8 xs ys = 0 \<longleftrightarrow> (\<forall>i<DIMS. xs ! i = ys ! i))"
proof (intro conjI)
  have "dist_int8 xs ys = 0 \<longleftrightarrow> sint (dist_int8 xs ys) = 0"
    by (metis signed_0 signed_word_eqI)
  also have "\<dots> \<longleftrightarrow> (\<forall>i<DIMS. (sint (xs ! i) - sint (ys ! i))\<^sup>2 = 0)"
    unfolding sint_dist_int8 sq_diff_sum_def by (subst sum_nonneg_eq_0_iff) auto
  also have "\<dots> \<longleftrightarrow> (\<forall>i<DIMS. xs ! i = ys ! i)" by (auto simp: signed_word_eqI)
  finally have zero: "dist_int8 xs ys = 0 \<longleftrightarrow> (\<forall>i<DIMS. xs ! i = ys ! i)" .
  show "dist_int8 xs ys = dist_int8 ys xs"
    by (simp add: dist_int8_word sq_diff_sum_def power2_commute)
  show "dist_int8 xs ys = 0 \<longleftrightarrow> (\<forall>i<DIMS. xs ! i = ys ! i)" by (rule zero)
qed (use sint_dist_int8 sq_diff_sum_bounds in \<open>simp_all add: sq_diff_sum_def\<close>)

theorem dist_int8_exact_witness:
  "sint (dist_int8 (replicate DIMS 127) (replicate DIMS (- 127))) \<le> 910350 \<and>
   dist_int8 (replicate DIMS 1) (replicate DIMS 1) = 0"
  using dist_int8_exact [of "replicate DIMS 127" "replicate DIMS (- 127)"]
    dist_int8_exact [of "replicate DIMS 1" "replicate DIMS 1"] by blast

text \<open>The classifier's copy of \<open>quantize\<close>, said to replicate search.rs exactly, truncates
  where the searcher rounds: one half is level 63 there and level 64 in the index and the search.\<close>

theorem classifier_quantize_diverges:
  "quantize_diag (F32 0x3f000000) = 63 \<and> quantize (F32 0x3f000000) = 64 \<and>
   quantize_scalar (F32 0x3f000000) = 64"
  by (simp add: quantize_diag_def quantize_def quantize_scalar_def QUANT_SCALE_def Let_def float_eval)

end
