(* ===== verification/Top_K.thy ===== *)
theory Top_K
  imports Quantize
begin

text \<open>
  The bounded max-heap of search.rs: \<open>sift_down_max\<close>, \<open>heapify_max\<close> and the step that
  offers one candidate to the \<open>k\<close> best so far.

  Two interfaces. \<open>max_heap\<close> is what a sift-down loop promises for any element type and
  key, so that the loop over \<open>Candidate\<close> here and the loop over triples in
  classify_mismatches.rs share one proof. \<open>k_best\<close> is what a scan needs of whatever keeps
  its \<open>k\<close> best elements; from it follows that a scan returns the \<open>k\<close> smallest.
\<close>

section \<open>The code\<close>

record candidate =
  c_dist :: i32
  c_fraud :: bool

text \<open>\<open>sift_down_max\<close>: the loop, one call per iteration.\<close>

function sift_down_max :: "candidate list \<Rightarrow> nat \<Rightarrow> candidate list" where
  "sift_down_max h i =
     (let n = length h;
          l = 2 * i + 1;
          r = 2 * i + 2;
          largest = (if l < n \<and> sint (c_dist (h ! l)) > sint (c_dist (h ! i)) then l else i);
          largest' = (if r < n \<and> sint (c_dist (h ! r)) > sint (c_dist (h ! largest)) then r else largest)
      in if largest' = i then h
         else sift_down_max (h[i := h ! largest', largest' := h ! i]) largest')"
  by pat_completeness auto
termination
  by (relation "measure (\<lambda>(h, i). length h - i)") (auto split: if_splits)

declare sift_down_max.simps [simp del]

definition heapify_max :: "candidate list \<Rightarrow> candidate list" where
  "heapify_max h = foldl sift_down_max h (rev [0..<length h div 2])"

text \<open>The body of the scan loop of \<open>search\<close>, after the distance is known.\<close>

definition offer :: "nat \<Rightarrow> candidate list \<Rightarrow> candidate \<Rightarrow> candidate list outcome" where
  "offer k cands x =
     (if length cands < k then
        (let cands' = cands @ [x]
         in Inr (if length cands' = k then heapify_max cands' else cands'))
      else
        and_then (at_index cands 0)
          (\<lambda>top. if sint (c_dist x) < sint (c_dist top)
                 then Inr (sift_down_max (cands[0 := x]) 0)
                 else Inr cands))"

section \<open>The heap order\<close>

definition child :: "nat \<Rightarrow> nat \<Rightarrow> bool" where
  "child p c \<longleftrightarrow> c = 2 * p + 1 \<or> c = 2 * p + 2"

text \<open>Every node from \<open>s\<close> on dominates its children.\<close>

definition heap_from :: "('a \<Rightarrow> 'k::linorder) \<Rightarrow> nat \<Rightarrow> 'a list \<Rightarrow> bool" where
  "heap_from key s h \<longleftrightarrow>
     (\<forall>p c. s \<le> p \<longrightarrow> child p c \<longrightarrow> c < length h \<longrightarrow> key (h ! c) \<le> key (h ! p))"

text \<open>The same with an exception at node \<open>i\<close>, whose children its parent still dominates.\<close>

definition heap_hole :: "('a \<Rightarrow> 'k::linorder) \<Rightarrow> nat \<Rightarrow> nat \<Rightarrow> 'a list \<Rightarrow> bool" where
  "heap_hole key s i h \<longleftrightarrow>
     (\<forall>p c. s \<le> p \<longrightarrow> p \<noteq> i \<longrightarrow> child p c \<longrightarrow> c < length h \<longrightarrow> key (h ! c) \<le> key (h ! p)) \<and>
     (\<forall>p c. s \<le> p \<longrightarrow> child p i \<longrightarrow> child i c \<longrightarrow> c < length h \<longrightarrow> key (h ! c) \<le> key (h ! p))"

lemma child_parent_unique: "child p c \<Longrightarrow> child q c \<Longrightarrow> p = q"
  unfolding child_def by presburger

lemma child_less: "child p c \<Longrightarrow> p < c"
  by (auto simp: child_def)

lemma heap_from_root:
  assumes "heap_from key 0 h" and "j < length h"
  shows "key (h ! j) \<le> key (h ! 0)"
  using assms(2)
proof (induction j rule: less_induct)
  case (less j)
  show ?case
  proof (cases "j = 0")
    case False
    then have ch: "child ((j - 1) div 2) j" unfolding child_def by presburger
    with less.prems have "key (h ! j) \<le> key (h ! ((j - 1) div 2))"
      using assms(1) by (simp add: heap_from_def)
    also have "\<dots> \<le> key (h ! 0)" using less child_less [OF ch] by simp
    finally show ?thesis .
  qed simp
qed

lemma heap_from_leaves: "length h div 2 \<le> s \<Longrightarrow> heap_from key s h"
  unfolding heap_from_def child_def by auto

lemma heap_hole_start: "heap_from key (Suc i) h \<Longrightarrow> heap_hole key i i h"
  unfolding heap_from_def heap_hole_def
  by (metis child_less leD le_antisym not_less_eq_eq)

lemma heap_hole_root: "heap_from key 0 h \<Longrightarrow> heap_hole key 0 0 (h[0 := x])"
  unfolding heap_from_def heap_hole_def
  by (auto simp: nth_list_update child_def)

text \<open>Exchanging the hole with its largest child moves the hole down.\<close>

lemma heap_hole_swap:
  assumes hole: "heap_hole key s i h" and s: "s \<le> i" and g: "child i g" "g < length h"
    and max: "\<And>c. child i c \<Longrightarrow> c < length h \<Longrightarrow> key (h ! c) \<le> key (h ! g)"
    and less: "key (h ! i) < key (h ! g)"
  shows "heap_hole key s g (h[i := h ! g, g := h ! i])"
proof -
  let ?h = "h[i := h ! g, g := h ! i]"
  have ig: "i < g" using g(1) by (rule child_less)
  have nth: "?h ! g = h ! i" "?h ! i = h ! g" "\<And>j. j \<noteq> i \<Longrightarrow> j \<noteq> g \<Longrightarrow> ?h ! j = h ! j"
    using g(2) ig by (simp_all add: nth_list_update)
  have "key (?h ! c) \<le> key (?h ! p)"
    if pc: "s \<le> p" "p \<noteq> g" "child p c" "c < length h" for p c
  proof (cases "p = i")
    case True
    then show ?thesis using pc max less child_less [OF pc(3)] nth by (cases "c = g") auto
  next
    case False
    then have "c \<noteq> g" using child_parent_unique [OF g(1)] pc(3) by blast
    then show ?thesis
      using False pc hole g nth unfolding heap_hole_def by (cases "c = i") auto
  qed
  moreover have "key (?h ! c) \<le> key (?h ! p)"
    if pc: "s \<le> p" "child p g" "child g c" "c < length h" for p c
  proof -
    have "p = i" using child_parent_unique [OF g(1) pc(2)] by simp
    moreover have "c \<noteq> i" "c \<noteq> g" using child_less [OF pc(3)] ig by auto
    moreover have "key (h ! c) \<le> key (h ! g)"
      using hole pc s ig unfolding heap_hole_def by auto
    ultimately show ?thesis using nth by simp
  qed
  ultimately show ?thesis by (simp add: heap_hole_def)
qed

section \<open>The interface of a sift-down loop\<close>

locale max_heap =
  fixes key :: "'a \<Rightarrow> 'k::linorder"
    and sift :: "'a list \<Rightarrow> nat \<Rightarrow> 'a list"
  assumes sift_rec: "sift h i =
     (let n = length h;
          l = 2 * i + 1;
          r = 2 * i + 2;
          g = (if l < n \<and> key (h ! i) < key (h ! l) then l else i);
          g' = (if r < n \<and> key (h ! g) < key (h ! r) then r else g)
      in if g' = i then h else sift (h[i := h ! g', g' := h ! i]) g')"
begin

text \<open>One iteration: either no child is larger, or the largest child is exchanged.\<close>

lemma sift_cases:
  obtains (stop) "sift h i = h" "\<And>c. child i c \<Longrightarrow> c < length h \<Longrightarrow> key (h ! c) \<le> key (h ! i)"
  | (down) g where "child i g" "g < length h" "key (h ! i) < key (h ! g)"
      "\<And>c. child i c \<Longrightarrow> c < length h \<Longrightarrow> key (h ! c) \<le> key (h ! g)"
      "sift h i = sift (h[i := h ! g, g := h ! i]) g"
proof -
  define l where "l = 2 * i + 1"
  define r where "r = 2 * i + 2"
  define g where "g = (if l < length h \<and> key (h ! i) < key (h ! l) then l else i)"
  define g' where "g' = (if r < length h \<and> key (h ! g) < key (h ! r) then r else g)"
  have ch: "child i c \<longleftrightarrow> c = l \<or> c = r" for c by (simp add: child_def l_def r_def)
  have eq: "sift h i = (if g' = i then h else sift (h[i := h ! g', g' := h ! i]) g')"
    by (subst sift_rec) (simp add: Let_def l_def r_def g_def g'_def)
  have max: "key (h ! c) \<le> key (h ! g')" if "child i c" "c < length h" for c
    using that unfolding ch g'_def g_def by (auto simp: not_less split: if_splits)
  show thesis
  proof (cases "g' = i")
    case True
    with eq max show thesis by (intro stop) auto
  next
    case False
    then have "child i g'" "g' < length h" "key (h ! i) < key (h ! g')"
      unfolding ch g'_def g_def by (auto split: if_splits)
    with False eq max show thesis by (intro down) auto
  qed
qed

lemma mset_sift: "mset (sift h i) = mset h"
proof (induction "length h - i" arbitrary: h i rule: less_induct)
  case less
  show ?case
  proof (cases rule: sift_cases [of h i])
    case (down g)
    then have "mset (sift (h[i := h ! g, g := h ! i]) g) = mset (h[i := h ! g, g := h ! i])"
      using child_less [OF down(1)] by (intro less) auto
    also have "\<dots> = mset h" using down child_less [OF down(1)] by (intro mset_swap_cells) auto
    finally show ?thesis using down by simp
  qed simp
qed

lemma length_sift [simp]: "length (sift h i) = length h"
  using mset_sift [of h i] by (rule mset_eq_length)

lemma sift_heap: "heap_hole key s i h \<Longrightarrow> s \<le> i \<Longrightarrow> heap_from key s (sift h i)"
proof (induction "length h - i" arbitrary: h i rule: less_induct)
  case less
  show ?case
  proof (cases rule: sift_cases [of h i])
    case stop
    then show ?thesis using less.prems unfolding heap_from_def heap_hole_def by metis
  next
    case (down g)
    have "heap_hole key s g (h[i := h ! g, g := h ! i])"
      using less.prems down by (intro heap_hole_swap) auto
    then have "heap_from key s (sift (h[i := h ! g, g := h ! i]) g)"
      using down child_less [OF down(1)] less.prems by (intro less.hyps) auto
    then show ?thesis using down by simp
  qed
qed

lemma heapify_aux:
  assumes "heap_from key m h"
  shows "heap_from key 0 (foldl sift h (rev [0..<m])) \<and> mset (foldl sift h (rev [0..<m])) = mset h"
  using assms
proof (induction m arbitrary: h)
  case (Suc m)
  from Suc.prems have "heap_from key m (sift h m)" by (intro sift_heap heap_hole_start) auto
  from Suc.IH [OF this] show ?case by (simp add: mset_sift)
qed simp

lemma heapify:
  "heap_from key 0 (foldl sift h (rev [0..<length h div 2]))"
  "mset (foldl sift h (rev [0..<length h div 2])) = mset h"
  using heapify_aux [OF heap_from_leaves [OF order_refl]] by auto

lemma replace_top:
  assumes "heap_from key 0 h" and "h \<noteq> []"
  shows "heap_from key 0 (sift (h[0 := x]) 0)"
    and "mset (sift (h[0 := x]) 0) = add_mset x (mset h - {#hd h#})"
  using sift_heap [OF heap_hole_root [OF assms(1), of x]] assms(2)
  by (simp_all add: mset_sift mset_update hd_conv_nth)

end

section \<open>The interface of a bounded collection of the best\<close>

text \<open>\<open>R\<close> holds \<open>k\<close> elements of \<open>X\<close>, or all of them, none with a larger key than one left out.\<close>

definition k_smallest :: "('a \<Rightarrow> 'k::linorder) \<Rightarrow> nat \<Rightarrow> 'a multiset \<Rightarrow> 'a multiset \<Rightarrow> bool" where
  "k_smallest key k X R \<longleftrightarrow>
     R \<subseteq># X \<and> size R = min k (size X) \<and> (\<forall>x\<in>#R. \<forall>y\<in>#X - R. key x \<le> key y)"

lemma k_smallest_empty: "k_smallest key k {#} {#}"
  by (simp add: k_smallest_def)

lemma k_smallest_all: "k_smallest key k X R \<Longrightarrow> size X \<le> k \<Longrightarrow> R = X"
  unfolding k_smallest_def by (metis min.absorb2 nless_le subset_mset.less_le mset_subset_size)

lemma k_smallest_fill:
  assumes "k_smallest key k X R" and "size R < k"
  shows "k_smallest key k (add_mset x X) (add_mset x R)"
proof -
  have "size X \<le> k" using assms by (auto simp: k_smallest_def min_def split: if_splits)
  with k_smallest_all [OF assms(1)] assms show ?thesis by (auto simp: k_smallest_def)
qed

lemma k_smallest_split:
  "k_smallest key k X R \<longleftrightarrow>
     (\<exists>Y. X = R + Y \<and> (Y = {#} \<and> size R \<le> k \<or> size R = k) \<and> (\<forall>x\<in>#R. \<forall>y\<in>#Y. key x \<le> key y))"
proof
  assume R: "k_smallest key k X R"
  then obtain Y where Y: "X = R + Y" by (auto simp: k_smallest_def mset_subset_eq_exists_conv)
  with R have "Y = {#} \<and> size R \<le> k \<or> size R = k" by (auto simp: k_smallest_def min_def split: if_splits)
  with R Y show "\<exists>Y. X = R + Y \<and> (Y = {#} \<and> size R \<le> k \<or> size R = k) \<and> (\<forall>x\<in>#R. \<forall>y\<in>#Y. key x \<le> key y)"
    by (auto simp: k_smallest_def)
next
  assume "\<exists>Y. X = R + Y \<and> (Y = {#} \<and> size R \<le> k \<or> size R = k) \<and> (\<forall>x\<in>#R. \<forall>y\<in>#Y. key x \<le> key y)"
  then show "k_smallest key k X R" by (auto simp: k_smallest_def)
qed

lemma k_smallest_keep:
  assumes "k_smallest key k X R" and "size R = k" and "\<And>y. y \<in># R \<Longrightarrow> key y \<le> key x"
  shows "k_smallest key k (add_mset x X) R"
proof -
  obtain Y where "X = R + Y" "\<forall>x\<in>#R. \<forall>y\<in>#Y. key x \<le> key y"
    using assms(1) by (auto simp: k_smallest_split)
  with assms(2,3) show ?thesis
    by (auto simp: k_smallest_split intro!: exI [of _ "add_mset x Y"])
qed

lemma k_smallest_replace:
  assumes "k_smallest key k X R" and "size R = k" and "t \<in># R"
    and "\<And>y. y \<in># R \<Longrightarrow> key y \<le> key t" and "key x < key t"
  shows "k_smallest key k (add_mset x X) (add_mset x (R - {#t#}))"
proof -
  obtain Y where Y: "X = R + Y" "\<forall>x\<in>#R. \<forall>y\<in>#Y. key x \<le> key y"
    using assms(1) by (auto simp: k_smallest_split)
  obtain Q where Q: "R = add_mset t Q" using assms(3) by (metis insert_DiffM)
  show ?thesis unfolding k_smallest_split
  proof (intro exI [of _ "add_mset t Y"] conjI)
    show "add_mset x X = add_mset x (R - {#t#}) + add_mset t Y" using Y Q by simp
    show "add_mset t Y = {#} \<and> size (add_mset x (R - {#t#})) \<le> k \<or> size (add_mset x (R - {#t#})) = k"
      using assms(2) Q by simp
    show "\<forall>a\<in>#add_mset x (R - {#t#}). \<forall>b\<in>#add_mset t Y. key a \<le> key b"
      using Y Q assms(4,5) by (auto intro: order.trans less_imp_le)
  qed
qed

text \<open>The keys kept are the first \<open>k\<close> of all keys in order.\<close>

lemma k_smallest_keys:
  assumes "k_smallest key k X R"
  shows "image_mset key R = mset (take k (sorted_list_of_multiset (image_mset key X)))"
proof -
  obtain Y where Y: "X = R + Y" "Y = {#} \<and> size R \<le> k \<or> size R = k"
    "\<forall>x\<in>#R. \<forall>y\<in>#Y. key x \<le> key y"
    using assms by (auto simp: k_smallest_split)
  define P where "P = sorted_list_of_multiset (image_mset key R)"
  define Q where "Q = sorted_list_of_multiset (image_mset key Y)"
  have "sorted (P @ Q)" using Y(3) by (auto simp: sorted_append P_def Q_def)
  moreover have "mset (P @ Q) = image_mset key X" by (simp add: P_def Q_def Y(1))
  ultimately have "sorted_list_of_multiset (image_mset key X) = P @ Q"
    by (metis sorted_list_of_multiset_mset sorted_sort_id)
  moreover have "length P = size R" by (metis P_def mset_sorted_list_of_multiset size_image_mset size_mset)
  moreover have "mset P = image_mset key R" by (simp add: P_def)
  ultimately show ?thesis using Y(2) by (auto simp: Q_def)
qed

locale k_best =
  fixes key :: "'a \<Rightarrow> 'k::linorder"
    and k :: nat
    and ok :: "'a \<Rightarrow> bool"
    and step :: "'a list \<Rightarrow> 'a \<Rightarrow> 'e + 'a list"
    and inv :: "'a list \<Rightarrow> bool"
  assumes inv_Nil: "inv []"
    and fill: "inv h \<Longrightarrow> list_all ok h \<Longrightarrow> length h < k \<Longrightarrow> ok x \<Longrightarrow>
      \<exists>h'. step h x = Inr h' \<and> inv h' \<and> mset h' = add_mset x (mset h)"
    and keep: "inv h \<Longrightarrow> list_all ok h \<Longrightarrow> length h = k \<Longrightarrow> ok x \<Longrightarrow> key (hd h) \<le> key x \<Longrightarrow>
      step h x = Inr h"
    and replace: "inv h \<Longrightarrow> list_all ok h \<Longrightarrow> length h = k \<Longrightarrow> ok x \<Longrightarrow> key x < key (hd h) \<Longrightarrow>
      \<exists>h'. step h x = Inr h' \<and> inv h' \<and> mset h' = add_mset x (mset h - {#hd h#})"
    and top: "inv h \<Longrightarrow> list_all ok h \<Longrightarrow> length h = k \<Longrightarrow> y \<in> set h \<Longrightarrow> key y \<le> key (hd h)"
    and k_pos: "0 < k"
begin

lemma step_spec:
  assumes "inv h" and "list_all ok h" and "ok x" and "k_smallest key k X (mset h)"
  shows "\<exists>h'. step h x = Inr h' \<and> inv h' \<and> list_all ok h' \<and> k_smallest key k (add_mset x X) (mset h')"
proof -
  have len: "length h \<le> k" using assms(4) by (simp add: k_smallest_def)
  have ok_sub: "list_all ok h'" if "set_mset (mset h') \<subseteq> insert x (set h)" for h'
    using that assms(2,3) by (auto simp: list_all_iff)
  consider "length h < k" | "length h = k" "key (hd h) \<le> key x" | "length h = k" "key x < key (hd h)"
    using len by fastforce
  then show ?thesis
  proof cases
    case 1
    obtain h' where h': "step h x = Inr h'" "inv h'" "mset h' = add_mset x (mset h)"
      using fill [OF assms(1,2) 1 assms(3)] by blast
    with ok_sub [of h'] k_smallest_fill [OF assms(4), of x] 1 show ?thesis by auto
  next
    case 2
    have "key y \<le> key x" if "y \<in># mset h" for y
      using top [OF assms(1,2) 2(1), of y] that 2(2) by simp
    from k_smallest_keep [OF assms(4) _ this] keep [OF assms(1,2) 2(1) assms(3) 2(2)] assms 2(1)
    show ?thesis by simp
  next
    case 3
    obtain h' where h': "step h x = Inr h'" "inv h'" "mset h' = add_mset x (mset h - {#hd h#})"
      using replace [OF assms(1,2) 3(1) assms(3) 3(2)] by blast
    have "hd h \<in># mset h" using 3 k_pos by (cases h) auto
    moreover have "list_all ok h'" using h'(3) by (intro ok_sub) (auto dest: in_diffD)
    ultimately show ?thesis using h'
      using k_smallest_replace [OF assms(4) _ _ _ 3(2)] 3(1) top [OF assms(1,2) 3(1)] by auto
  qed
qed

text \<open>A scan of any list ends, and ends with its \<open>k\<close> smallest elements.\<close>

lemma scan_spec:
  assumes "list_all ok xs"
  shows "\<exists>h. try_fold step [] xs = Inr h \<and> inv h \<and> k_smallest key k (mset xs) (mset h)"
proof -
  have "\<exists>h'. try_fold step h xs = Inr h' \<and> inv h' \<and> k_smallest key k (X + mset xs) (mset h')"
    if "inv h" "list_all ok h" "k_smallest key k X (mset h)" "list_all ok xs" for h X xs
    using that
  proof (induction xs arbitrary: h X)
    case (Cons x xs)
    from step_spec [of h x X] Cons.prems obtain h' where
      h': "step h x = Inr h'" "inv h'" "list_all ok h'" "k_smallest key k (add_mset x X) (mset h')"
      by auto
    from Cons.IH [OF h'(2-4)] Cons.prems(4) h'(1) show ?case by simp
  qed simp
  from this [of "[]" "{#}"] inv_Nil k_smallest_empty assms show ?thesis by fastforce
qed

end

section \<open>The heap of candidates\<close>

abbreviation cand_key :: "candidate \<Rightarrow> int" where
  "cand_key c \<equiv> sint (c_dist c)"

interpretation cand_heap: max_heap cand_key sift_down_max
  by unfold_locales (subst sift_down_max.simps, simp add: Let_def)

lemma heapify_max_spec:
  "heap_from cand_key 0 (heapify_max h)" "mset (heapify_max h) = mset h"
  using cand_heap.heapify [of h] by (simp_all add: heapify_max_def)

text \<open>The invariant of the scan: below \<open>k\<close> candidates the order does not matter.\<close>

definition cands_inv :: "nat \<Rightarrow> candidate list \<Rightarrow> bool" where
  "cands_inv k h \<longleftrightarrow> length h \<le> k \<and> (length h = k \<longrightarrow> heap_from cand_key 0 h)"

lemma offer_k_best: "0 < k \<Longrightarrow> k_best cand_key k (\<lambda>_. True) (offer k) (cands_inv k)"
proof (unfold_locales, goal_cases)
  case 1
  then show ?case by (simp add: cands_inv_def)
next
  case (2 h x)
  have "length (heapify_max (h @ [x])) = length (h @ [x])"
    using heapify_max_spec(2) [of "h @ [x]"] by (rule mset_eq_length)
  with 2 heapify_max_spec [of "h @ [x]"] show ?case by (auto simp: offer_def cands_inv_def Let_def)
next
  case (3 h x)
  then show ?case by (cases h) (auto simp: offer_def)
next
  case (4 h x)
  then have "h \<noteq> []" "heap_from cand_key 0 h" by (auto simp: cands_inv_def)
  with 4 cand_heap.replace_top [of h x] show ?case
    by (cases h) (auto simp: offer_def cands_inv_def)
next
  case (5 h y)
  then obtain j where "j < length h" "y = h ! j" by (auto simp: in_set_conv_nth)
  with 5 heap_from_root [of cand_key h j] show ?case by (cases h) (auto simp: cands_inv_def)
next
  case 6
  then show ?case .
qed

interpretation five_best: k_best cand_key 5 "\<lambda>_. True" "offer 5" "cands_inv 5"
  by (rule offer_k_best) simp

section \<open>Properties\<close>

text \<open>\<open>heapify_max\<close> permutes its slice into a max-heap: no node is smaller than a child.\<close>

theorem heapify_max_builds_heap:
  "mset (heapify_max h) = mset h \<and>
   (\<forall>i<length h. \<forall>c\<in>{2 * i + 1, 2 * i + 2}. c < length h \<longrightarrow>
      sint (c_dist (heapify_max h ! c)) \<le> sint (c_dist (heapify_max h ! i)))"
proof -
  have "length (heapify_max h) = length h" using heapify_max_spec(2) by (rule mset_eq_length)
  with heapify_max_spec [of h] show ?thesis by (auto simp: heap_from_def child_def)
qed

theorem heapify_max_builds_heap_witness:
  "sint (c_dist (heapify_max [\<lparr>c_dist = 1, c_fraud = False\<rparr>, \<lparr>c_dist = 2, c_fraud = True\<rparr>] ! 1))
   \<le> sint (c_dist (heapify_max [\<lparr>c_dist = 1, c_fraud = False\<rparr>, \<lparr>c_dist = 2, c_fraud = True\<rparr>] ! 0))"
  using heapify_max_builds_heap [of "[\<lparr>c_dist = 1, c_fraud = False\<rparr>, \<lparr>c_dist = 2, c_fraud = True\<rparr>]"]
  by (auto simp: numeral_2_eq_2)

text \<open>C20: Offering any sequence of candidates to an empty buffer ends, for \<open>0 < k\<close>, with the
  \<open>k\<close> smallest of them: the distances kept are the first \<open>k\<close> of all distances in order.\<close>

theorem scan_keeps_k_smallest:
  assumes "0 < k"
  shows "\<exists>h. try_fold (offer k) [] xs = Inr h \<and> mset h \<subseteq># mset xs \<and>
    mset (map (\<lambda>c. sint (c_dist c)) h) = mset (take k (sort (map (\<lambda>c. sint (c_dist c)) xs)))"
proof -
  obtain h where h: "try_fold (offer k) [] xs = Inr h" "k_smallest cand_key k (mset xs) (mset h)"
    using k_best.scan_spec [OF offer_k_best [OF assms], of xs] by (auto simp: list_all_iff)
  then have "mset (map cand_key h) = mset (take k (sort (map cand_key xs)))"
    using k_smallest_keys [OF h(2)] by (simp add: sorted_list_of_multiset_mset flip: mset_map)
  moreover have "mset h \<subseteq># mset xs" using h(2) by (simp add: k_smallest_def)
  ultimately show ?thesis using h(1) by blast
qed

theorem scan_keeps_k_smallest_witness:
  "\<exists>h. try_fold (offer 1) [] [\<lparr>c_dist = 3, c_fraud = False\<rparr>, \<lparr>c_dist = 2, c_fraud = True\<rparr>] = Inr h \<and>
    mset (map (\<lambda>c. sint (c_dist c)) h) = {#2#}"
  using scan_keeps_k_smallest [of 1 "[\<lparr>c_dist = 3, c_fraud = False\<rparr>, \<lparr>c_dist = 2, c_fraud = True\<rparr>]"]
  by fastforce

end
