(* ===== verification/Slice_Order.thy ===== *)
theory Slice_Order
  imports Prelude
begin

text \<open>
  Ordering slices by a comparator. \<open>sort_unstable_by\<close> and \<open>select_nth_unstable_by\<close> leave the
  order of equal elements open, so the model takes them as parameters and knows of them
  what their documentation promises. \<open>nearest_first\<close> is the partial sort of the program:
  select the \<open>probes\<close> first, then sort that prefix.
\<close>

type_synonym 'a comparison = "'a \<Rightarrow> 'a \<Rightarrow> ordering"
type_synonym 'a sort_fn = "'a comparison \<Rightarrow> 'a list \<Rightarrow> 'a list outcome"
type_synonym 'a select_fn = "'a comparison \<Rightarrow> nat \<Rightarrow> 'a list \<Rightarrow> 'a list outcome"

section \<open>The contracts\<close>

definition in_order :: "'a comparison \<Rightarrow> 'a \<Rightarrow> 'a \<Rightarrow> bool" where
  "in_order cmp a b \<longleftrightarrow> cmp a b \<noteq> Greater"

text \<open>
  With a comparator that is no total order on the elements, the result is some permutation,
  or the sort notices and panics.
\<close>

definition sort_contract :: "'a sort_fn \<Rightarrow> bool" where
  "sort_contract srt \<longleftrightarrow> (\<forall>cmp xs.
     (if total_cmp_on (set xs) cmp
      then \<exists>ys. srt cmp xs = Inr ys \<and> mset ys = mset xs \<and> sorted_wrt (in_order cmp) ys
      else srt cmp xs = Inl SortPanic \<or> (\<exists>ys. srt cmp xs = Inr ys \<and> mset ys = mset xs)))"

definition select_contract :: "'a select_fn \<Rightarrow> bool" where
  "select_contract sel \<longleftrightarrow> (\<forall>cmp i xs.
     (if length xs \<le> i then sel cmp i xs = Inl IndexPanic
      else if total_cmp_on (set xs) cmp
      then \<exists>ys. sel cmp i xs = Inr ys \<and> mset ys = mset xs \<and>
             (\<forall>a\<in>set (take i ys). in_order cmp a (ys ! i)) \<and>
             (\<forall>b\<in>set (drop (Suc i) ys). in_order cmp (ys ! i) b)
      else sel cmp i xs = Inl SortPanic \<or> (\<exists>ys. sel cmp i xs = Inr ys \<and> mset ys = mset xs)))"

lemma sort_contractD:
  "sort_contract srt \<Longrightarrow> total_cmp_on (set xs) cmp \<Longrightarrow>
   \<exists>ys. srt cmp xs = Inr ys \<and> mset ys = mset xs \<and> sorted_wrt (in_order cmp) ys"
  unfolding sort_contract_def by (erule allE [of _ cmp], erule allE [of _ xs]) simp

lemma select_contractD:
  "select_contract sel \<Longrightarrow> i < length xs \<Longrightarrow> total_cmp_on (set xs) cmp \<Longrightarrow>
   \<exists>ys. sel cmp i xs = Inr ys \<and> mset ys = mset xs \<and>
     (\<forall>a\<in>set (take i ys). in_order cmp a (ys ! i)) \<and>
     (\<forall>b\<in>set (drop (Suc i) ys). in_order cmp (ys ! i) b)"
  unfolding select_contract_def
  by (erule allE [of _ cmp], erule allE [of _ i], erule allE [of _ xs]) simp

section \<open>The partial sort of the program\<close>

text \<open>\<open>probes - 1\<close> is \<open>usize\<close> arithmetic, which wraps around in the release build.\<close>

definition nearest_first ::
  "'a select_fn \<Rightarrow> 'a sort_fn \<Rightarrow> 'a comparison \<Rightarrow> usize \<Rightarrow> 'a list \<Rightarrow> 'a list outcome" where
  "nearest_first sel srt cmp probes xs =
     and_then (if unat probes < length xs then sel cmp (unat (probes - 1)) xs else Inr xs)
       (\<lambda>ys. and_then (sub_slice ys 0 (unat probes))
         (\<lambda>front. and_then (srt cmp front)
           (\<lambda>front'. Inr (front' @ drop (unat probes) ys))))"

locale slice_order =
  fixes sel :: "'a select_fn" and srt :: "'a sort_fn"
  assumes select: "select_contract sel" and sort: "sort_contract srt"
begin

lemma select_first:
  assumes "total_cmp_on (set xs) cmp" and "i < length xs"
  obtains ys where "sel cmp i xs = Inr ys" "mset ys = mset xs"
    "\<And>a b. a \<in> set (take (Suc i) ys) \<Longrightarrow> b \<in> set (drop (Suc i) ys) \<Longrightarrow> in_order cmp a b"
proof -
  obtain ys where ys: "sel cmp i xs = Inr ys" "mset ys = mset xs"
    "\<forall>a\<in>set (take i ys). in_order cmp a (ys ! i)" "\<forall>b\<in>set (drop (Suc i) ys). in_order cmp (ys ! i) b"
    using select_contractD [OF select assms(2,1)] by blast
  have i: "i < length ys" using mset_eq_length [OF ys(2)] assms(2) by simp
  have "in_order cmp a b" if ab: "a \<in> set (take (Suc i) ys)" "b \<in> set (drop (Suc i) ys)" for a b
  proof (cases "a = ys ! i")
    case False
    then have "in_order cmp a (ys ! i)" "in_order cmp (ys ! i) b"
      using ab ys i by (auto simp: take_Suc_conv_app_nth)
    moreover have "a \<in> set xs" "b \<in> set xs" "ys ! i \<in> set xs"
      unfolding mset_eq_setD [OF ys(2), symmetric]
      using in_set_takeD [OF ab(1)] in_set_dropD [OF ab(2)] i by simp_all
    ultimately show ?thesis using total_cmp_on_trans [OF assms(1)] unfolding in_order_def by blast
  qed (use ab ys in auto)
  with ys that show thesis by blast
qed

text \<open>The prefix is sorted and nothing behind it belongs before it.\<close>

lemma nearest_first_spec:
  assumes total: "total_cmp_on (set xs) cmp" and p: "xs \<noteq> [] \<Longrightarrow> 0 < unat probes" "unat probes \<le> length xs"
  obtains ys where "nearest_first sel srt cmp probes xs = Inr ys" "mset ys = mset xs"
    "sorted_wrt (in_order cmp) (take (unat probes) ys)"
    "\<And>a b. a \<in> set (take (unat probes) ys) \<Longrightarrow> b \<in> set (drop (unat probes) ys) \<Longrightarrow> in_order cmp a b"
proof -
  let ?p = "unat probes"
  have p1: "unat (probes - 1) = ?p - 1" "0 < ?p" if "?p < length xs"
  proof -
    show "0 < ?p" using p(1) that by (cases xs) auto
    then have "probes \<noteq> 0" by auto
    then show "unat (probes - 1) = ?p - 1" by (rule unat_minus_one)
  qed
  obtain ys where ys: "(if ?p < length xs then sel cmp (unat (probes - 1)) xs else Inr xs) = Inr ys"
    "mset ys = mset xs"
    "\<And>a b. a \<in> set (take ?p ys) \<Longrightarrow> b \<in> set (drop ?p ys) \<Longrightarrow> in_order cmp a b"
  proof (cases "?p < length xs")
    case True
    obtain ys where ys: "sel cmp (?p - 1) xs = Inr ys" "mset ys = mset xs"
      "\<And>a b. a \<in> set (take (Suc (?p - 1)) ys) \<Longrightarrow> b \<in> set (drop (Suc (?p - 1)) ys) \<Longrightarrow> in_order cmp a b"
      by (rule select_first [OF total, of "?p - 1"]) (use True in auto)
    show thesis
    proof (rule that)
      show "(if ?p < length xs then sel cmp (unat (probes - 1)) xs else Inr xs) = Inr ys"
        using True p1(1) [OF True] ys(1) by simp
      show "mset ys = mset xs" by (rule ys(2))
      show "a \<in> set (take ?p ys) \<Longrightarrow> b \<in> set (drop ?p ys) \<Longrightarrow> in_order cmp a b" for a b
        using ys(3) [of a b] p1(2) [OF True] by simp
    qed
  next
    case False
    with that [of xs] show thesis by simp
  qed
  have len: "?p \<le> length ys" using mset_eq_length [OF ys(2)] p(2) by simp
  have "set (take ?p ys) \<subseteq> set xs" using mset_eq_setD [OF ys(2)] set_take_subset by fastforce
  then have "total_cmp_on (set (take ?p ys)) cmp" using total by (rule total_cmp_on_subset [rotated])
  then obtain zs where zs: "srt cmp (take ?p ys) = Inr zs" "mset zs = mset (take ?p ys)"
    "sorted_wrt (in_order cmp) zs"
    using sort_contractD [OF sort] by blast
  have lz: "length zs = ?p" using mset_eq_length [OF zs(2)] len by simp
  show thesis
  proof (rule that [of "zs @ drop ?p ys"])
    show "nearest_first sel srt cmp probes xs = Inr (zs @ drop ?p ys)"
      using ys(1) zs(1) len by (simp add: nearest_first_def)
    show "mset (zs @ drop ?p ys) = mset xs"
      using zs(2) ys(2) by (metis append_take_drop_id mset_append)
    show "in_order cmp a b" if "a \<in> set (take ?p (zs @ drop ?p ys))" "b \<in> set (drop ?p (zs @ drop ?p ys))" for a b
      using that lz ys(3) mset_eq_setD [OF zs(2)] by auto
  qed (use lz zs(3) in auto)
qed

end

section \<open>Insertion sort\<close>

text \<open>
  A pair of functions that meet the contracts and evaluate: insertion sort, which is what
  the standard library runs on short slices.
\<close>

fun insert_by :: "'a comparison \<Rightarrow> 'a \<Rightarrow> 'a list \<Rightarrow> 'a list" where
  "insert_by cmp x [] = [x]"
| "insert_by cmp x (y # ys) = (if cmp x y = Greater then y # insert_by cmp x ys else x # y # ys)"

definition insertion_sort :: "'a sort_fn" where
  "insertion_sort cmp xs = Inr (foldr (insert_by cmp) xs [])"

definition insertion_select :: "'a select_fn" where
  "insertion_select cmp i xs =
     (if i < length xs then insertion_sort cmp xs else Inl IndexPanic)"

lemma mset_insert_by [simp]: "mset (insert_by cmp x ys) = add_mset x (mset ys)"
  by (induction ys) auto

lemma mset_foldr_insert_by [simp]: "mset (foldr (insert_by cmp) xs []) = mset xs"
  by (induction xs) auto

lemma set_insert_by [simp]: "set (insert_by cmp x ys) = insert x (set ys)"
  by (metis mset_insert_by set_mset_add_mset_insert set_mset_mset)

lemma sorted_insert_by:
  assumes "sorted_wrt (in_order cmp) ys" and "total_cmp_on (insert x (set ys)) cmp"
  shows "sorted_wrt (in_order cmp) (insert_by cmp x ys)"
  using assms
proof (induction ys)
  case (Cons y ys)
  show ?case
  proof (cases "cmp x y = Greater")
    case True
    then have "cmp y x = Less" using Cons.prems(2) by (simp add: total_cmp_on_def)
    moreover have "total_cmp_on (insert x (set ys)) cmp"
      using Cons.prems(2) by (rule total_cmp_on_subset) auto
    ultimately show ?thesis using True Cons by (auto simp: in_order_def)
  next
    case False
    have "in_order cmp x z" if "z \<in> set ys" for z
      using total_cmp_on_trans [OF Cons.prems(2), of x y z] False that Cons.prems(1)
      by (auto simp: in_order_def)
    with False Cons.prems show ?thesis by (auto simp: in_order_def)
  qed
qed simp

lemma sorted_foldr_insert_by:
  "total_cmp_on (set xs) cmp \<Longrightarrow> sorted_wrt (in_order cmp) (foldr (insert_by cmp) xs [])"
proof (induction xs)
  case (Cons x xs)
  have "total_cmp_on (set xs) cmp" using Cons.prems by (rule total_cmp_on_subset) auto
  moreover have "set (foldr (insert_by cmp) xs []) = set xs"
    by (rule mset_eq_setD) simp
  ultimately show ?case using Cons by (auto intro!: sorted_insert_by)
qed simp

lemma insertion_sort_contract: "sort_contract insertion_sort"
  unfolding sort_contract_def insertion_sort_def
  using sorted_foldr_insert_by by (auto)

lemma sorted_wrt_pivot:
  assumes "sorted_wrt R ys" and "i < length ys"
  shows "\<forall>a\<in>set (take i ys). R a (ys ! i)" and "\<forall>b\<in>set (drop (Suc i) ys). R (ys ! i) b"
proof -
  have "ys = take i ys @ ys ! i # drop (Suc i) ys" using assms(2) by (rule id_take_nth_drop)
  then have "sorted_wrt R (take i ys @ ys ! i # drop (Suc i) ys)" using assms(1) by simp
  then show "\<forall>a\<in>set (take i ys). R a (ys ! i)" "\<forall>b\<in>set (drop (Suc i) ys). R (ys ! i) b"
    by (auto simp: sorted_wrt_append)
qed

lemma select_contractI:
  assumes "\<And>cmp i xs. length xs \<le> i \<Longrightarrow> sel cmp i xs = Inl IndexPanic"
    and "\<And>cmp i xs. i < length xs \<Longrightarrow> \<exists>ys. sel cmp i xs = Inr ys \<and> mset ys = mset xs \<and>
      (total_cmp_on (set xs) cmp \<longrightarrow>
        (\<forall>a\<in>set (take i ys). in_order cmp a (ys ! i)) \<and>
        (\<forall>b\<in>set (drop (Suc i) ys). in_order cmp (ys ! i) b))"
  shows "select_contract sel"
  unfolding select_contract_def
proof (intro allI)
  fix cmp i xs
  show "if length xs \<le> i then sel cmp i xs = Inl IndexPanic
    else if total_cmp_on (set xs) cmp
    then \<exists>ys. sel cmp i xs = Inr ys \<and> mset ys = mset xs \<and>
           (\<forall>a\<in>set (take i ys). in_order cmp a (ys ! i)) \<and>
           (\<forall>b\<in>set (drop (Suc i) ys). in_order cmp (ys ! i) b)
    else sel cmp i xs = Inl SortPanic \<or> (\<exists>ys. sel cmp i xs = Inr ys \<and> mset ys = mset xs)"
  proof (cases "length xs \<le> i")
    case False
    then obtain ys where "sel cmp i xs = Inr ys" "mset ys = mset xs" "total_cmp_on (set xs) cmp \<longrightarrow>
        (\<forall>a\<in>set (take i ys). in_order cmp a (ys ! i)) \<and>
        (\<forall>b\<in>set (drop (Suc i) ys). in_order cmp (ys ! i) b)"
      using assms(2) [of i xs cmp] by (auto simp: not_le)
    with False show ?thesis by (simp add: exI [of _ ys])
  qed (simp add: assms(1))
qed

lemma insertion_select_contract: "select_contract insertion_select"
proof -
  have "\<exists>ys. insertion_select cmp i xs = Inr ys \<and> mset ys = mset xs \<and>
      (total_cmp_on (set xs) cmp \<longrightarrow>
        (\<forall>a\<in>set (take i ys). in_order cmp a (ys ! i)) \<and>
        (\<forall>b\<in>set (drop (Suc i) ys). in_order cmp (ys ! i) b))"
    if i: "i < length xs" for cmp :: "'a comparison" and i xs
  proof -
    let ?ys = "foldr (insert_by cmp) xs []"
    have "i < length ?ys" using mset_eq_length [OF mset_foldr_insert_by [of cmp xs]] i by simp
    then show ?thesis using i sorted_wrt_pivot [OF sorted_foldr_insert_by [of xs cmp], of i]
      by (intro exI [of _ ?ys]) (auto simp: insertion_select_def insertion_sort_def)
  qed
  then show ?thesis
    by (intro select_contractI) (simp_all add: insertion_select_def)
qed

interpretation insertion: slice_order insertion_select insertion_sort
  by unfold_locales (rule insertion_select_contract insertion_sort_contract)+

end
