(* ===== verification/Bytes.thy ===== *)
theory Bytes
  imports Ieee
begin

text \<open>
  Little-endian encodings, \<open>to_le_bytes\<close> and \<open>from_le_bytes\<close>, and the typed views that
  \<open>slice::from_raw_parts\<close> takes of a byte buffer. The interface \<open>codec\<close> is an encoding of
  fixed width that decoding inverts; what it gives is that a view of a run of encodings
  inside a buffer is the list encoded.
\<close>

section \<open>Little-endian numbers\<close>

fun to_le :: "nat \<Rightarrow> nat \<Rightarrow> u8 list" where
  "to_le 0 x = []"
| "to_le (Suc n) x = word_of_nat x # to_le n (x div 256)"

fun from_le :: "u8 list \<Rightarrow> nat" where
  "from_le [] = 0"
| "from_le (b # bs) = unat b + 256 * from_le bs"

definition u32_to_le_bytes :: "u32 \<Rightarrow> u8 list" where
  "u32_to_le_bytes x = to_le 4 (unat x)"
definition u32_from_le_bytes :: "u8 list \<Rightarrow> u32" where
  "u32_from_le_bytes bs = word_of_nat (from_le bs)"
definition u64_to_le_bytes :: "u64 \<Rightarrow> u8 list" where
  "u64_to_le_bytes x = to_le 8 (unat x)"
definition u64_from_le_bytes :: "u8 list \<Rightarrow> u64" where
  "u64_from_le_bytes bs = word_of_nat (from_le bs)"
definition f32_to_le_bytes :: "f32 \<Rightarrow> u8 list" where
  "f32_to_le_bytes x = u32_to_le_bytes (bits32 x)"
definition f32_from_le_bytes :: "u8 list \<Rightarrow> f32" where
  "f32_from_le_bytes bs = F32 (u32_from_le_bytes bs)"

text \<open>A byte read as itself, and as \<open>i8\<close>: the same bit pattern.\<close>

definition byte_to :: "u8 \<Rightarrow> u8 list" where "byte_to b = [b]"
definition byte_from :: "u8 list \<Rightarrow> u8" where "byte_from bs = hd bs"

lemma length_to_le [simp, bytes_simps]: "length (to_le n x) = n"
  by (induction n arbitrary: x) simp_all

lemma from_le_to_le: "from_le (to_le n x) = x mod 256 ^ n"
proof (induction n arbitrary: x)
  case (Suc n)
  have "x mod 256 ^ Suc n = x mod 256 + 256 * (x div 256 mod 256 ^ n)"
    by (simp add: mod_mult2_eq)
  with Suc show ?case by (simp add: unat_of_nat)
qed simp

section \<open>Views of a buffer\<close>

text \<open>
  \<open>slice::from_raw_parts(buf[off..].as_ptr() as *const T, n)\<close> for an element of \<open>w\<close> bytes.
  The index \<open>buf[off..]\<close> is checked; the length of the view is not, and a view that
  leaves the buffer is undefined behaviour, kept apart as \<open>RawOutOfBounds\<close>.
\<close>

definition raw_slice :: "nat \<Rightarrow> (u8 list \<Rightarrow> 'a) \<Rightarrow> u8 list \<Rightarrow> nat \<Rightarrow> nat \<Rightarrow> 'a list outcome" where
  "raw_slice w dec buf off n =
     (if length buf < off then Inl IndexPanic
      else if length buf < off + n * w then Inl RawOutOfBounds
      else Inr (map (\<lambda>i. dec (take w (drop (off + i * w) buf))) [0..<n]))"

lemma raw_slice_length: "raw_slice w dec buf off n = Inr xs \<Longrightarrow> length xs = n"
  by (auto simp: raw_slice_def split: if_splits)

lemma raw_slice_ok:
  "off + n * w \<le> length buf \<Longrightarrow> \<exists>xs. raw_slice w dec buf off n = Inr xs \<and> length xs = n"
  by (auto simp: raw_slice_def)

section \<open>Fixed-width encodings\<close>

locale codec =
  fixes enc :: "'a \<Rightarrow> u8 list" and dec :: "u8 list \<Rightarrow> 'a" and w :: nat
  assumes length_enc: "length (enc x) = w" and dec_enc: "dec (enc x) = x"
begin

lemma length_encoded: "length (concat (map enc xs)) = length xs * w"
  by (simp add: length_concat_const length_enc)

lemma raw_slice_encoded:
  assumes "buf = pre @ concat (map enc xs) @ post" and "off = length pre" and "n = length xs"
  shows "raw_slice w dec buf off n = Inr xs"
proof -
  have "take w (drop (off + i * w) buf) = enc (xs ! i)" if "i < n" for i
    using take_drop_concat_const [of xs enc w i post] that assms by (simp add: length_enc)
  then have "map (\<lambda>i. dec (take w (drop (off + i * w) buf))) [0..<n] = xs"
    using assms(3) by (intro nth_equalityI) (simp_all add: dec_enc)
  then show ?thesis using assms length_encoded [of xs] by (simp add: raw_slice_def)
qed

lemma take_encoded: "take w (drop (length pre) (pre @ enc x @ post)) = enc x"
  by (simp add: length_enc)

end

lemma unat_u32_less: "unat (x :: u32) < 4294967296"
  using unsigned_less [of x] by simp

lemma unat_u64_less: "unat (x :: u64) < 18446744073709551616"
  using unsigned_less [of x] by simp

lemma unat_mod_width [simp]:
  "unat (x :: u32) mod 4294967296 = unat x" "unat (y :: u64) mod 18446744073709551616 = unat y"
  by (simp_all add: unat_u32_less unat_u64_less)

interpretation u32_le: codec u32_to_le_bytes u32_from_le_bytes 4
  by unfold_locales (simp_all add: u32_to_le_bytes_def u32_from_le_bytes_def from_le_to_le word_unat_eq_iff
      unat_of_nat)

interpretation u64_le: codec u64_to_le_bytes u64_from_le_bytes 8
  by unfold_locales (simp_all add: u64_to_le_bytes_def u64_from_le_bytes_def from_le_to_le word_unat_eq_iff
      unat_of_nat)

interpretation f32_le: codec f32_to_le_bytes f32_from_le_bytes 4
  by unfold_locales (simp_all add: f32_to_le_bytes_def f32_from_le_bytes_def u32_le.length_enc u32_le.dec_enc)

interpretation byte: codec byte_to byte_from 1
  by unfold_locales (simp_all add: byte_to_def byte_from_def)

lemmas le_lengths [simp, bytes_simps] =
  u32_le.length_enc u64_le.length_enc f32_le.length_enc byte.length_enc

end
