(* ===== verification/Searcher.thy ===== *)
theory Searcher
  imports Top_K Slice_Order Bytes
begin

text \<open>
  The IVF index reader, search.rs: \<open>Searcher::load\<close>, which checks the header of the mapped
  file and lays out its four sections, and \<open>Searcher::search\<close>, which ranks the centroids,
  scans the clusters of the nearest ones and keeps the \<open>k\<close> closest vectors. Offsets are
  \<open>usize\<close> and wrap around as in the release build; a read of the mapping past its end is
  the fault \<open>RawOutOfBounds\<close>.
\<close>

section \<open>The state\<close>

definition MAGIC :: "u8 list" where
  "MAGIC = [0x49, 0x56, 0x46, 0x58]" \<comment> \<open>the bytes of IVFX\<close>

record searcher =
  mmap :: "u8 list"
  num_cents :: usize
  num_vecs :: usize
  probes :: usize
  cent_off :: usize
  offset_off :: usize
  vec_off :: usize
  label_off :: usize

record cent_dist =
  cd_idx :: nat
  cd_dist :: f32

record neighbor =
  n_fraud :: bool

text \<open>The thread-local buffer that \<open>search\<close> reuses from call to call.\<close>

record search_buffer =
  buf_cent_dists :: "cent_dist list"
  buf_cands :: "candidate list"

section \<open>\<open>load\<close>\<close>

datatype load_error =
    IoError
  | HeaderTooSmall
  | BadMagic "u8 list"
  | UnsupportedVersion u32
  | WrongDims usize
  | FileTooSmall usize nat

abbreviation dims_usize :: usize where "dims_usize \<equiv> word_of_nat DIMS"

definition field :: "u8 list \<Rightarrow> nat \<Rightarrow> nat \<Rightarrow> u8 list" where
  "field bs a b = take (b - a) (drop a bs)"

text \<open>The file system is the map from paths to contents that \<open>File::open\<close> and \<open>mmap\<close> see.\<close>

definition load :: "(string \<rightharpoonup> u8 list) \<Rightarrow> string \<Rightarrow> usize \<Rightarrow> load_error + searcher" where
  "load fs path req_probes =
     (case fs path of None \<Rightarrow> Inl IoError
      | Some m \<Rightarrow>
        if length m < 32 then Inl HeaderTooSmall
        else if field m 0 4 \<noteq> MAGIC then Inl (BadMagic (field m 0 4))
        else let version = u32_from_le_bytes (field m 4 8)
        in if version \<noteq> 1 then Inl (UnsupportedVersion version)
        else let nv = u64_from_le_bytes (field m 8 16);
                 nc = (ucast (u32_from_le_bytes (field m 16 20)) :: usize);
                 file_dims = (ucast (u32_from_le_bytes (field m 20 24)) :: usize)
        in if file_dims \<noteq> dims_usize then Inl (WrongDims file_dims)
        else let default_probes = (ucast (u32_from_le_bytes (field m 24 28)) :: usize);
                 actual_probes = (if req_probes > 0 then req_probes else default_probes);
                 co = 32;
                 oo = co + nc * dims_usize * 4;
                 vo = oo + (nc + 1) * 8;
                 lo = vo + nv * dims_usize
        in if length m < unat (lo + nv) then Inl (FileTooSmall (lo + nv) (length m))
        else Inr \<lparr>mmap = m, num_cents = nc, num_vecs = nv, probes = actual_probes,
                  cent_off = co, offset_off = oo, vec_off = vo, label_off = lo\<rparr>)"

section \<open>\<open>search\<close>\<close>

text \<open>The distance from the query to one centroid, summed in \<open>f32\<close> in index order.\<close>

definition centroid_distance :: "f32 list \<Rightarrow> f32 list \<Rightarrow> f32" where
  "centroid_distance query c =
     foldl (\<lambda>d j. let diff = query ! j - c ! j in d + diff * diff) 0 [0..<DIMS]"

text \<open>\<open>a.dist.partial_cmp(&b.dist).unwrap_or(Equal)\<close>.\<close>

definition cmp_cent_dist :: "cent_dist \<Rightarrow> cent_dist \<Rightarrow> ordering" where
  "cmp_cent_dist a b =
     (case f32_partial_cmp (cd_dist a) (cd_dist b) of Some ord \<Rightarrow> ord | None \<Rightarrow> Equal)"

text \<open>The body of the inner loop: one stored vector.\<close>

definition scan_vector ::
  "nat \<Rightarrow> i8 list \<Rightarrow> u8 list \<Rightarrow> i8 list \<Rightarrow> candidate list \<Rightarrow> nat \<Rightarrow> candidate list outcome" where
  "scan_vector k vecs_i8 labels query_i8 cands vi =
     and_then (sub_slice vecs_i8 (vi * DIMS) ((vi + 1) * DIMS))
       (\<lambda>vec_slice. and_then (at_index labels vi)
         (\<lambda>label. offer k cands \<lparr>c_dist = dist_int8 vec_slice query_i8, c_fraud = (label = 1)\<rparr>))"

text \<open>The body of the outer loop: one probed cluster.\<close>

definition scan_cluster ::
  "nat \<Rightarrow> u64 list \<Rightarrow> i8 list \<Rightarrow> u8 list \<Rightarrow> i8 list \<Rightarrow> cent_dist list \<Rightarrow>
   candidate list \<Rightarrow> nat \<Rightarrow> candidate list outcome" where
  "scan_cluster k offsets vecs_i8 labels query_i8 cent_dists cands probe_i =
     and_then (at_index cent_dists probe_i)
       (\<lambda>cd. and_then (at_index offsets (cd_idx cd))
         (\<lambda>start. and_then (at_index offsets (cd_idx cd + 1))
           (\<lambda>stop. try_fold (scan_vector k vecs_i8 labels query_i8) cands [unat start..<unat stop])))"

definition search ::
  "cent_dist select_fn \<Rightarrow> cent_dist sort_fn \<Rightarrow> searcher \<Rightarrow> f32 list \<Rightarrow> nat \<Rightarrow> search_buffer \<Rightarrow>
   (neighbor list \<times> search_buffer) outcome" where
  "search sel srt s query k buf =
     and_then (raw_slice 4 f32_from_le_bytes (mmap s) (unat (cent_off s))
                 (unat (num_cents s * dims_usize))) (\<lambda>cents.
     and_then (raw_slice 8 u64_from_le_bytes (mmap s) (unat (offset_off s))
                 (unat (num_cents s + 1))) (\<lambda>offsets.
     and_then (raw_slice 1 byte_from (mmap s) (unat (vec_off s))
                 (unat (num_vecs s * dims_usize))) (\<lambda>vecs_i8.
     and_then (sub_slice (mmap s) (unat (label_off s))
                 (unat (label_off s + num_vecs s))) (\<lambda>labels.
     let n_probes = min (probes s) (num_cents s);
         query_i8 = map (\<lambda>i. quantize (query ! i)) [0..<DIMS]
     in and_then (try_fold (\<lambda>ds i.
                    and_then (and_then (sub_slice cents (i * DIMS) ((i + 1) * DIMS))
                      (\<lambda>c. Inr \<lparr>cd_idx = i, cd_dist = centroid_distance query c\<rparr>))
                    (\<lambda>d. Inr (ds @ [d])))
                  (vec_clear (buf_cent_dists buf)) [0..<unat (num_cents s)]) (\<lambda>ds.
        and_then (nearest_first sel srt cmp_cent_dist n_probes ds) (\<lambda>cent_dists.
        and_then (try_fold (scan_cluster k offsets vecs_i8 labels query_i8 cent_dists)
                    (vec_clear (buf_cands buf)) [0..<unat n_probes]) (\<lambda>cands.
        Inr (map (\<lambda>c. \<lparr>n_fraud = c_fraud c\<rparr>) cands,
             \<lparr>buf_cent_dists = cent_dists, buf_cands = cands\<rparr>))))))))"

section \<open>The index a searcher stands for\<close>

text \<open>
  The four sections as lists, and the searchers whose mapping holds them: this is the
  abstraction between the byte layout and the algorithm.
\<close>

record ivf =
  i_cents :: "f32 list list"
  i_offsets :: "u64 list"
  i_vecs :: "i8 list list"
  i_labels :: "u8 list"

definition views :: "searcher \<Rightarrow> ivf \<Rightarrow> bool" where
  "views s v \<longleftrightarrow>
     raw_slice 4 f32_from_le_bytes (mmap s) (unat (cent_off s)) (unat (num_cents s * dims_usize))
       = Inr (concat (i_cents v)) \<and>
     raw_slice 8 u64_from_le_bytes (mmap s) (unat (offset_off s)) (unat (num_cents s + 1))
       = Inr (i_offsets v) \<and>
     raw_slice 1 byte_from (mmap s) (unat (vec_off s)) (unat (num_vecs s * dims_usize))
       = Inr (concat (i_vecs v)) \<and>
     sub_slice (mmap s) (unat (label_off s)) (unat (label_off s + num_vecs s)) = Inr (i_labels v) \<and>
     unat (num_cents s) = length (i_cents v)"

text \<open>Well-formed: every row has \<open>DIMS\<close> entries and every cluster ends inside the vectors.\<close>

definition ivf_ok :: "ivf \<Rightarrow> bool" where
  "ivf_ok v \<longleftrightarrow>
     (\<forall>c\<in>set (i_cents v). length c = DIMS \<and> (\<forall>x\<in>set c. f32_finite x)) \<and>
     (\<forall>x\<in>set (i_vecs v). length x = DIMS) \<and>
     length (i_labels v) = length (i_vecs v) \<and>
     length (i_offsets v) = length (i_cents v) + 1 \<and>
     (\<forall>i<length (i_cents v). unat (i_offsets v ! (i + 1)) \<le> length (i_vecs v))"

definition cluster_range :: "ivf \<Rightarrow> nat \<Rightarrow> nat list" where
  "cluster_range v ci = [unat (i_offsets v ! ci)..<unat (i_offsets v ! (ci + 1))]"

definition candidate_of :: "ivf \<Rightarrow> i8 list \<Rightarrow> nat \<Rightarrow> candidate" where
  "candidate_of v q vi =
     \<lparr>c_dist = dist_int8 (i_vecs v ! vi) q, c_fraud = (i_labels v ! vi = 1)\<rparr>"

definition quantized_query :: "f32 list \<Rightarrow> i8 list" where
  "quantized_query query = map (\<lambda>i. quantize (query ! i)) [0..<DIMS]"

definition scanned :: "ivf \<Rightarrow> f32 list \<Rightarrow> nat list \<Rightarrow> candidate list" where
  "scanned v query near =
     concat (map (\<lambda>ci. map (candidate_of v (quantized_query query)) (cluster_range v ci)) near)"

section \<open>Distances and their order\<close>

lemma centroid_distance_nan:
  assumes "\<And>j. j < DIMS \<Longrightarrow> f32_finite (c ! j)"
  shows "is_nan32 (centroid_distance query c) \<longleftrightarrow> (\<exists>j<DIMS. is_nan32 (query ! j))"
proof -
  let ?step = "\<lambda>d j. let diff = query ! j - c ! j in d + diff * diff"
  have "f32_nonneg (foldl ?step 0 [0..<n]) \<and>
      (is_nan32 (foldl ?step 0 [0..<n]) \<longleftrightarrow> (\<exists>j<n. is_nan32 (query ! j)))" if "n \<le> DIMS" for n
    using that
  proof (induction n)
    case (Suc n)
    then show ?case
      by (auto simp: Let_def f32_nonneg_add f32_nonneg_square is_nan32_add is_nan32_square
          is_nan32_diff assms less_Suc_eq)
  qed simp
  then show ?thesis by (simp add: centroid_distance_def)
qed

text \<open>
  Against finite centroids the comparator is a total order whatever the query: a NaN in the
  query makes every distance a NaN, and then all are equal.
\<close>

lemma cmp_cent_dist_total:
  assumes "(\<forall>d\<in>X. is_nan32 (cd_dist d)) \<or> (\<forall>d\<in>X. \<not> is_nan32 (cd_dist d))"
  shows "total_cmp_on X cmp_cent_dist"
  using assms
proof
  assume "\<forall>d\<in>X. is_nan32 (cd_dist d)"
  then show ?thesis by (auto simp: total_cmp_on_def cmp_cent_dist_def f32_partial_cmp_iff)
next
  assume "\<forall>d\<in>X. \<not> is_nan32 (cd_dist d)"
  then have "total_cmp_on X cmp_cent_dist = total_cmp_on X (cmp_key (\<lambda>d. f32_key (cd_dist d)))"
    by (intro total_cmp_on_cong) (auto simp: cmp_cent_dist_def f32_partial_cmp_iff cmp_key_def)
  then show ?thesis by (simp add: total_cmp_on_key)
qed

lemma cmp_cent_dist_in_order:
  "in_order cmp_cent_dist a b \<longleftrightarrow> \<not> cd_dist b < cd_dist a"
  by (auto simp: in_order_def cmp_cent_dist_def f32_partial_cmp_iff f32_less_iff cmp_key_def)

section \<open>\<open>search\<close> on a well-formed index\<close>

definition cent_dist_list :: "ivf \<Rightarrow> f32 list \<Rightarrow> cent_dist list" where
  "cent_dist_list v query =
     map (\<lambda>i. \<lparr>cd_idx = i, cd_dist = centroid_distance query (i_cents v ! i)\<rparr>) [0..<length (i_cents v)]"

lemma block_of_concat:
  assumes "\<forall>x\<in>set xs. length x = n" and "i < length xs"
  shows "sub_slice (concat xs) (i * n) ((i + 1) * n) = Inr (xs ! i)"
proof -
  have "length (concat xs) = length xs * n"
    using length_concat_const [of xs "\<lambda>x. x" n] assms(1) by simp
  moreover have "(i + 1) * n \<le> length xs * n" using assms(2) by (intro mult_le_mono1) simp
  moreover have "take n (drop (i * n) (concat xs)) = xs ! i"
    using take_drop_concat_const [of xs "\<lambda>x. x" n i "[]"] assms by simp
  ultimately show ?thesis by (simp add: sub_slice_def)
qed

lemma scan_vector_ok:
  assumes "ivf_ok v" and "vi < length (i_vecs v)"
  shows "scan_vector k (concat (i_vecs v)) (i_labels v) q cands vi = offer k cands (candidate_of v q vi)"
  using assms block_of_concat [of "i_vecs v" DIMS vi]
  by (simp add: scan_vector_def candidate_of_def ivf_ok_def del: mult_Suc)

lemma scan_cluster_ok:
  assumes "ivf_ok v" and "probe_i < length ds" and "cd_idx (ds ! probe_i) < length (i_cents v)"
  shows "scan_cluster k (i_offsets v) (concat (i_vecs v)) (i_labels v) q ds cands probe_i
    = try_fold (offer k) cands (map (candidate_of v q) (cluster_range v (cd_idx (ds ! probe_i))))"
proof -
  let ?ci = "cd_idx (ds ! probe_i)"
  have "length (i_offsets v) = length (i_cents v) + 1" "unat (i_offsets v ! (?ci + 1)) \<le> length (i_vecs v)"
    using assms(1,3) by (simp_all add: ivf_ok_def)
  then show ?thesis using assms
    by (auto simp: scan_cluster_def try_fold_map cluster_range_def scan_vector_ok intro!: try_fold_cong)
qed

text \<open>The clusters \<open>search\<close> may probe: \<open>p\<close> different ones, nearest first, none nearer left out.\<close>

definition nearest_clusters :: "ivf \<Rightarrow> f32 list \<Rightarrow> nat \<Rightarrow> nat list \<Rightarrow> bool" where
  "nearest_clusters v query p near \<longleftrightarrow>
     (let D = (\<lambda>i. centroid_distance query (i_cents v ! i)); n = length (i_cents v)
      in distinct near \<and> length near = p \<and> set near \<subseteq> {..<n} \<and>
         sorted_wrt (\<lambda>i j. \<not> D j < D i) near \<and>
         (\<forall>i\<in>set near. \<forall>j<n. j \<notin> set near \<longrightarrow> \<not> D j < D i))"

lemma nearest_clusters_of_order:
  assumes "mset ys = mset (cent_dist_list v query)"
    and "sorted_wrt (in_order cmp_cent_dist) (take p ys)"
    and "\<And>a b. a \<in> set (take p ys) \<Longrightarrow> b \<in> set (drop p ys) \<Longrightarrow> in_order cmp_cent_dist a b"
    and "p \<le> length (i_cents v)"
  shows "nearest_clusters v query p (map cd_idx (take p ys))"
proof -
  let ?D = "\<lambda>i. centroid_distance query (i_cents v ! i)" and ?n = "length (i_cents v)"
  have set_ys: "set ys = set (cent_dist_list v query)" by (rule mset_eq_setD [OF assms(1)])
  have dist: "cd_dist d = ?D (cd_idx d)" "cd_idx d < ?n" if "d \<in> set ys" for d
    using that unfolding set_ys by (auto simp: cent_dist_list_def)
  have "map cd_idx (cent_dist_list v query) = [0..<?n]"
    by (simp add: cent_dist_list_def comp_def)
  then have idx: "mset (map cd_idx ys) = mset [0..<?n]"
    using assms(1) by (metis mset_map)
  then have "distinct (map cd_idx ys)" by (metis distinct_upt mset_eq_imp_distinct_iff)
  then have 1: "distinct (map cd_idx (take p ys))" by (metis distinct_take take_map)
  have len: "length ys = ?n" using mset_eq_length [OF idx] by simp
  have in_ys: "d \<in> set ys" if "d \<in> set (take p ys)" for d using that by (rule in_set_takeD)
  have "sorted_wrt (\<lambda>a b. \<not> ?D (cd_idx b) < ?D (cd_idx a)) (take p ys)"
    using assms(2) by (rule sorted_wrt_mono_rel [rotated])
      (simp add: cmp_cent_dist_in_order dist in_ys)
  then have 2: "sorted_wrt (\<lambda>i j. \<not> ?D j < ?D i) (map cd_idx (take p ys))"
    by (simp add: sorted_wrt_map)
  have 3: "\<not> ?D j < ?D i"
    if i: "i \<in> set (map cd_idx (take p ys))" and j: "j < ?n" "j \<notin> set (map cd_idx (take p ys))" for i j
  proof -
    obtain a where a: "a \<in> set (take p ys)" "i = cd_idx a" using i by auto
    have "j \<in> set (map cd_idx ys)" using j(1) mset_eq_setD [OF idx] by simp
    then obtain b where b: "b \<in> set ys" "j = cd_idx b" by auto
    with j(2) have "b \<in> set (drop p ys)"
      using append_take_drop_id [of p ys] by (metis Un_iff image_eqI list.set_map set_append)
    from assms(3) [OF a(1) this] show ?thesis
      using a b dist(1) in_ys by (simp add: cmp_cent_dist_in_order)
  qed
  show ?thesis unfolding nearest_clusters_def Let_def
    using 1 2 3 len assms(4) dist(2) in_ys by auto
qed

lemma cent_dist_list_total:
  assumes "ivf_ok v"
  shows "total_cmp_on (set (cent_dist_list v query)) cmp_cent_dist"
proof (rule cmp_cent_dist_total)
  have "is_nan32 (cd_dist d) \<longleftrightarrow> (\<exists>j<DIMS. is_nan32 (query ! j))" if "d \<in> set (cent_dist_list v query)" for d
  proof -
    from that obtain i where i: "i < length (i_cents v)"
      and d: "d = \<lparr>cd_idx = i, cd_dist = centroid_distance query (i_cents v ! i)\<rparr>"
      by (auto simp: cent_dist_list_def)
    have "length (i_cents v ! i) = DIMS \<and> (\<forall>x\<in>set (i_cents v ! i). f32_finite x)"
      using assms nth_mem [OF i] unfolding ivf_ok_def by blast
    then show ?thesis unfolding d using centroid_distance_nan [of "i_cents v ! i" query] by simp
  qed
  then show "(\<forall>d\<in>set (cent_dist_list v query). is_nan32 (cd_dist d)) \<or>
    (\<forall>d\<in>set (cent_dist_list v query). \<not> is_nan32 (cd_dist d))" by blast
qed

lemma centroid_scan:
  assumes "ivf_ok v"
  shows "try_map (\<lambda>i. and_then (sub_slice (concat (i_cents v)) (i * DIMS) ((i + 1) * DIMS))
      (\<lambda>c. Inr \<lparr>cd_idx = i, cd_dist = centroid_distance query c\<rparr>)) [0..<length (i_cents v)]
    = Inr (cent_dist_list v query)"
  unfolding cent_dist_list_def
  using assms block_of_concat [of "i_cents v" DIMS]
  by (intro try_map_Inr) (simp add: ivf_ok_def del: mult_Suc)

text \<open>On an index whose sections are \<open>v\<close> a search is a fold over the vectors scanned.\<close>

lemma search_on_view:
  assumes v: "views s v" "ivf_ok v"
    and order: "nearest_first sel srt cmp_cent_dist (min (probes s) (num_cents s)) (cent_dist_list v query)
      = Inr ds"
    and len: "length ds = length (i_cents v)"
    and idx: "\<And>d. d \<in> set ds \<Longrightarrow> cd_idx d < length (i_cents v)"
    and p: "p = min (unat (probes s)) (length (i_cents v))"
  shows "search sel srt s query k buf =
    and_then (try_fold (offer k) [] (scanned v query (map cd_idx (take p ds))))
      (\<lambda>cands. Inr (map (\<lambda>c. \<lparr>n_fraud = c_fraud c\<rparr>) cands,
         \<lparr>buf_cent_dists = ds, buf_cands = cands\<rparr>))"
proof -
  have n: "unat (num_cents s) = length (i_cents v)" using v(1) by (simp add: views_def)
  have p': "unat (min (probes s) (num_cents s)) = p"
    by (simp add: p n [symmetric] min_def word_le_nat_alt)
  let ?q = "quantized_query query"
  have "try_fold (scan_cluster k (i_offsets v) (concat (i_vecs v)) (i_labels v) ?q ds) [] [0..<p]
    = try_fold (\<lambda>s i. try_fold (offer k) s (map (candidate_of v ?q) (cluster_range v (cd_idx (ds ! i))))) [] [0..<p]"
    by (rule try_fold_cong) (use len idx p scan_cluster_ok [OF v(2)] in auto)
  also have "\<dots> = try_fold (\<lambda>s ci. try_fold (offer k) s (map (candidate_of v ?q) (cluster_range v ci))) []
      (map (\<lambda>i. cd_idx (ds ! i)) [0..<p])"
    by (simp add: try_fold_map)
  also have "map (\<lambda>i. cd_idx (ds ! i)) [0..<p] = map cd_idx (take p ds)"
    using len p by (intro nth_equalityI) auto
  also have "try_fold (\<lambda>s ci. try_fold (offer k) s (map (candidate_of v ?q) (cluster_range v ci))) []
      (map cd_idx (take p ds)) = try_fold (offer k) [] (scanned v query (map cd_idx (take p ds)))"
    by (simp add: scanned_def try_fold_concat [symmetric] try_fold_map)
  finally have scan: "try_fold (scan_cluster k (i_offsets v) (concat (i_vecs v)) (i_labels v) ?q ds) [] [0..<p]
    = try_fold (offer k) [] (scanned v query (map cd_idx (take p ds)))" .
  have loop: "and_then (try_map (\<lambda>i. and_then (sub_slice (concat (i_cents v)) (i * DIMS) ((i + 1) * DIMS))
      (\<lambda>c. Inr \<lparr>cd_idx = i, cd_dist = centroid_distance query c\<rparr>)) [0..<length (i_cents v)])
      (\<lambda>zs. Inr ([] @ zs)) = Inr (cent_dist_list v query)"
    unfolding centroid_scan [OF v(2)] by simp
  note view = v(1) [unfolded views_def]
  show ?thesis
    unfolding search_def Let_def view [THEN conjunct1] view [THEN conjunct2, THEN conjunct1]
      view [THEN conjunct2, THEN conjunct2, THEN conjunct1]
      view [THEN conjunct2, THEN conjunct2, THEN conjunct2, THEN conjunct1]
      and_then_simps n try_fold_push vec_clear_def loop order p' quantized_query_def [symmetric] scan ..
qed

lemma nearest_first_ivf:
  assumes contracts: "select_contract sel" "sort_contract srt" and v: "ivf_ok v"
    and p: "unat pr = p" "p \<le> length (i_cents v)" "0 < p \<or> i_cents v = []"
  shows "\<exists>ds. nearest_first sel srt cmp_cent_dist pr (cent_dist_list v query) = Inr ds \<and>
    length ds = length (i_cents v) \<and> (\<forall>d\<in>set ds. cd_idx d < length (i_cents v)) \<and>
    nearest_clusters v query p (map cd_idx (take p ds))"
proof -
  have len: "length (cent_dist_list v query) = length (i_cents v)" by (simp add: cent_dist_list_def)
  obtain ds where ds: "nearest_first sel srt cmp_cent_dist pr (cent_dist_list v query) = Inr ds"
    "mset ds = mset (cent_dist_list v query)" "sorted_wrt (in_order cmp_cent_dist) (take p ds)"
    "\<And>a b. a \<in> set (take p ds) \<Longrightarrow> b \<in> set (drop p ds) \<Longrightarrow> in_order cmp_cent_dist a b"
  proof (rule slice_order.nearest_first_spec [OF slice_order.intro [OF contracts] cent_dist_list_total [OF v, of query],
        where probes = pr, unfolded p(1)])
    show "0 < p" if "cent_dist_list v query \<noteq> []"
      using that len p(3) by auto
    show "p \<le> length (cent_dist_list v query)" using p(2) len by simp
  qed (rule that)
  have "set ds = set (cent_dist_list v query)" by (rule mset_eq_setD [OF ds(2)])
  then have "\<forall>d\<in>set ds. cd_idx d < length (i_cents v)" by (auto simp: cent_dist_list_def)
  with ds(1) mset_eq_length [OF ds(2)] len nearest_clusters_of_order [OF ds(2-4)] p(2) show ?thesis by auto
qed

lemma nearest_first_clusters:
  assumes contracts: "select_contract sel" "sort_contract srt"
    and v: "views s v" "ivf_ok v" and probes: "0 < unat (probes s) \<or> i_cents v = []"
    and p: "p = min (unat (probes s)) (length (i_cents v))"
  shows "\<exists>ds. nearest_first sel srt cmp_cent_dist (min (probes s) (num_cents s)) (cent_dist_list v query) = Inr ds \<and>
    length ds = length (i_cents v) \<and> (\<forall>d\<in>set ds. cd_idx d < length (i_cents v)) \<and>
    nearest_clusters v query p (map cd_idx (take p ds))"
proof (rule nearest_first_ivf [OF contracts v(2)])
  have n: "unat (num_cents s) = length (i_cents v)" using v(1) by (simp add: views_def)
  show "unat (min (probes s) (num_cents s)) = p"
    by (simp add: p n [symmetric] min_def word_le_nat_alt)
qed (use probes p in auto)

text \<open>
  \<open>search\<close> does not fault, and what it returns is \<open>k\<close> nearest neighbours among the vectors of
  some \<open>p\<close> nearest clusters. The contents of the buffer do not matter.
\<close>

lemma search_spec:
  assumes contracts: "select_contract sel" "sort_contract srt"
    and v: "views s v" "ivf_ok v" and k: "0 < k" and probes: "0 < unat (probes s) \<or> i_cents v = []"
  shows "\<exists>near cands buf'.
    search sel srt s query k buf = Inr (map (\<lambda>c. \<lparr>n_fraud = c_fraud c\<rparr>) cands, buf') \<and>
    nearest_clusters v query (min (unat (probes s)) (length (i_cents v))) near \<and>
    k_smallest cand_key k (mset (scanned v query near)) (mset cands)"
proof -
  let ?p = "min (unat (probes s)) (length (i_cents v))"
  obtain ds where ds: "nearest_first sel srt cmp_cent_dist (min (probes s) (num_cents s)) (cent_dist_list v query) = Inr ds"
    "length ds = length (i_cents v)" "\<forall>d\<in>set ds. cd_idx d < length (i_cents v)"
    "nearest_clusters v query ?p (map cd_idx (take ?p ds))"
    using nearest_first_clusters [OF contracts v probes refl] by blast
  obtain h where h: "try_fold (offer k) [] (scanned v query (map cd_idx (take ?p ds))) = Inr h"
    "k_smallest cand_key k (mset (scanned v query (map cd_idx (take ?p ds)))) (mset h)"
    using k_best.scan_spec [OF offer_k_best [OF k], of "scanned v query (map cd_idx (take ?p ds))"]
    by (auto simp: list_all_iff)
  have "search sel srt s query k buf = Inr (map (\<lambda>c. \<lparr>n_fraud = c_fraud c\<rparr>) h,
      \<lparr>buf_cent_dists = ds, buf_cands = h\<rparr>)"
    using search_on_view [OF v ds(1,2) _ refl] ds(3) h(1) by simp
  with ds(4) h(2) show ?thesis by blast
qed

text \<open>However the mapping looks, no more than \<open>k\<close> candidates are kept.\<close>

lemma search_length_le:
  assumes "search sel srt s query k buf = Inr (ns, buf')"
  shows "length ns \<le> k"
proof -
  obtain cents_n offsets vecs_i8 labels query_i8 ds cands where
    cands: "try_fold (scan_cluster k offsets vecs_i8 labels query_i8 ds) [] [0..<cents_n] = Inr cands"
    and ns: "ns = map (\<lambda>c. \<lparr>n_fraud = c_fraud c\<rparr>) cands"
    using assms by (auto simp: search_def and_then_eq_Inr Let_def vec_clear_def)
  have "length h' \<le> k" if "offer k h x = Inr h'" "length h \<le> k" for h x h'
    using that mset_eq_length [OF heapify_max_spec(2)]
    by (auto simp: offer_def Let_def and_then_eq_Inr at_index_def split: if_splits)
  then have "length h' \<le> k" if "scan_vector k vecs_i8 labels query_i8 h vi = Inr h'" "length h \<le> k" for h vi h'
    using that by (auto simp: scan_vector_def and_then_eq_Inr)
  then have "length h' \<le> k" if "scan_cluster k offsets vecs_i8 labels query_i8 ds h i = Inr h'" "length h \<le> k" for h i h'
    using that by (auto simp: scan_cluster_def and_then_eq_Inr
        elim: try_fold_partial [where P = "\<lambda>h. length h \<le> k"])
  then have "length cands \<le> k"
    using try_fold_partial [OF cands, where P = "\<lambda>h. length h \<le> k"] by simp
  then show ?thesis by (simp add: ns)
qed

end
