(* ===== verification/Index_Writer.thy ===== *)
theory Index_Writer
  imports Quantize Bytes "HOL-Library.Sublist"
begin

text \<open>
  The index writer, \<open>write_index\<close> of buildindex.rs: the header, the four sections of the
  index file and the companion file of raw vectors, written to a file system. A device
  decides which files can be created and how long they can get, so every \<open>?\<close> of the code is
  a branch of the model. The section lemmas say which bytes end up in the two files, that the
  offsets are the prefix sums of the cluster sizes, and that the companion file is never the
  index itself.
\<close>

section \<open>The file system\<close>

type_synonym file_system = "string \<rightharpoonup> u8 list"

datatype io_error = CreateFailed string | WriteFailed string

record device =
  can_create :: "string \<Rightarrow> bool"
  accepts :: "string \<Rightarrow> nat \<Rightarrow> bool" \<comment> \<open>a file of this length is accepted\<close>

definition file_create :: "device \<Rightarrow> string \<Rightarrow> file_system \<Rightarrow> io_error + file_system" where
  "file_create dev path fs =
     (if can_create dev path then Inr (fs(path \<mapsto> [])) else Inl (CreateFailed path))"

definition write_all :: "device \<Rightarrow> string \<Rightarrow> file_system \<Rightarrow> u8 list \<Rightarrow> io_error + file_system" where
  "write_all dev path fs bs =
     (let old = (case fs path of Some c \<Rightarrow> c | None \<Rightarrow> [])
      in if accepts dev path (length old + length bs) then Inr (fs(path \<mapsto> old @ bs))
         else Inl (WriteFailed path))"

section \<open>The code\<close>

record entry =
  e_vec :: "i8 list"
  e_vec_f32 :: "f32 list"
  e_fraud :: bool

definition W_MAGIC :: "u8 list" where "W_MAGIC = [0x49, 0x56, 0x46, 0x58]"
definition W_VERSION :: u32 where "W_VERSION = 1"

text \<open>\<open>str::ends_with\<close> and \<open>str::replace\<close>, which replaces every occurrence from the left.\<close>

definition ends_with :: "string \<Rightarrow> string \<Rightarrow> bool" where
  "ends_with s suf = (length suf \<le> length s \<and> drop (length s - length suf) s = suf)"

function str_replace :: "string \<Rightarrow> string \<Rightarrow> string \<Rightarrow> string" where
  "str_replace pat rep [] = []"
| "str_replace pat rep (c # s) =
     (if pat \<noteq> [] \<and> take (length pat) (c # s) = pat
      then rep @ str_replace pat rep (drop (length pat) (c # s))
      else c # str_replace pat rep s)"
  by pat_completeness auto
termination
  by (relation "measure (\<lambda>(pat, rep, s). length s)") (auto simp: length_Cons)

definition raw_f32_path :: "string \<Rightarrow> string" where
  "raw_f32_path path =
     (if ends_with path ''.ivf.bin'' then str_replace ''.ivf.bin'' ''.raw_f32.bin'' path
      else path @ ''.raw_f32.bin'')"

text \<open>The loop over the clusters that fills the offset table.\<close>

definition cluster_offsets :: "entry list list \<Rightarrow> u64 list" where
  "cluster_offsets clusters =
     (let (offsets, cur) =
        foldl (\<lambda>(offsets, cur) (i, cluster). (offsets[i := cur], cur + word_of_nat (length cluster)))
          (replicate (length clusters + 1) 0, 0 :: u64) (List.enumerate 0 clusters)
      in offsets[length clusters := cur])"

definition write_index ::
  "device \<Rightarrow> string \<Rightarrow> f32 list list \<Rightarrow> entry list list \<Rightarrow> u64 \<Rightarrow> u32 \<Rightarrow> u32 \<Rightarrow> file_system \<Rightarrow>
   io_error + file_system" where
  "write_index dev path centroids clusters num_vecs num_centroids default_probes fs =
     and_then (file_create dev path fs) (\<lambda>fs.
     and_then (try_fold (write_all dev path) fs
       [W_MAGIC, u32_to_le_bytes W_VERSION, u64_to_le_bytes num_vecs, u32_to_le_bytes num_centroids,
        u32_to_le_bytes (word_of_nat DIMS), u32_to_le_bytes default_probes, u32_to_le_bytes 0]) (\<lambda>fs.
     and_then (try_fold (\<lambda>fs c. try_fold (\<lambda>fs f. write_all dev path fs (f32_to_le_bytes f)) fs c)
       fs centroids) (\<lambda>fs.
     and_then (try_fold (\<lambda>fs off. write_all dev path fs (u64_to_le_bytes off))
       fs (cluster_offsets clusters)) (\<lambda>fs.
     and_then (try_fold (\<lambda>fs cluster. try_fold (\<lambda>fs e. try_fold (\<lambda>fs b. write_all dev path fs [b])
       fs (e_vec e)) fs cluster) fs clusters) (\<lambda>fs.
     and_then (try_fold (\<lambda>fs cluster. try_fold (\<lambda>fs e. write_all dev path fs
       [if e_fraud e then 1 else 0]) fs cluster) fs clusters) (\<lambda>fs.
     and_then (file_create dev (raw_f32_path path) fs) (\<lambda>fs.
       try_fold (\<lambda>fs cluster. try_fold (\<lambda>fs e. try_fold (\<lambda>fs f.
         write_all dev (raw_f32_path path) fs (f32_to_le_bytes f)) fs (e_vec_f32 e)) fs cluster)
         fs clusters)))))))"

section \<open>The paths\<close>

lemma length_str_replace: "length rep \<ge> length pat \<Longrightarrow> length s \<le> length (str_replace pat rep s)"
  by (induction pat rep s rule: str_replace.induct) auto

lemma str_replace_occurs:
  assumes "length pat < length rep" and "pat \<noteq> []" and "take (length pat) (drop i s) = pat"
  shows "length s < length (str_replace pat rep s)"
  using assms
proof (induction pat rep s arbitrary: i rule: str_replace.induct)
  case (1 pat rep)
  then show ?case by (metis drop_Nil take_Nil)
next
  case (2 pat rep c s)
  show ?case
  proof (cases "take (length pat) (c # s) = pat")
    case True
    moreover have "length pat \<le> length (c # s)" using True by (metis length_take min.cobounded1)
    ultimately show ?thesis
      using 2(3,4) length_str_replace [of pat rep "drop (length pat) (c # s)"] by simp
  next
    case False
    then obtain j where "i = Suc j" "take (length pat) (drop j s) = pat"
      using 2(5) by (cases i) auto
    with 2(2) [of j] 2(3,4) False show ?thesis by simp
  qed
qed

lemma raw_f32_path_longer: "length path < length (raw_f32_path path)"
  using str_replace_occurs [of "''.ivf.bin''" "''.raw_f32.bin''" "length path - length ''.ivf.bin''" path]
  by (auto simp: raw_f32_path_def ends_with_def)

lemma raw_f32_path_neq [simp]: "raw_f32_path path \<noteq> path" "path \<noteq> raw_f32_path path"
  using raw_f32_path_longer [of path] by auto

section \<open>The offsets\<close>

definition sizes_sum :: "entry list list \<Rightarrow> nat" where
  "sizes_sum clusters = sum_list (map length clusters)"

lemma sizes_sum_simps [simp]:
  "sizes_sum [] = 0" "sizes_sum (c # cs) = length c + sizes_sum cs"
  "sizes_sum (cs @ ds) = sizes_sum cs + sizes_sum ds"
  by (simp_all add: sizes_sum_def)

lemma length_concat_clusters: "length (concat clusters) = sizes_sum clusters"
  by (simp add: length_concat sizes_sum_def)

lemma sizes_sum_take_le: "sizes_sum (take i clusters) \<le> sizes_sum clusters"
  by (metis append_take_drop_id le_add1 sizes_sum_simps(3))

lemma cluster_offsets_eq:
  "cluster_offsets clusters =
     map (\<lambda>i. word_of_nat (sizes_sum (take i clusters))) [0..<length clusters + 1]"
proof -
  let ?step = "\<lambda>(offsets, cur) (i, cluster :: entry list).
      (offsets[i := cur], cur + word_of_nat (length cluster) :: u64)"
  let ?n = "length clusters"
  have "foldl ?step (replicate (?n + 1) 0, 0) (List.enumerate 0 (take m clusters))
    = (map (\<lambda>i. word_of_nat (sizes_sum (take i clusters))) [0..<m] @ replicate (?n + 1 - m) 0,
       word_of_nat (sizes_sum (take m clusters)))" if "m \<le> ?n" for m
    using that
  proof (induction m)
    case (Suc m)
    have "?n + 1 - m = Suc (?n - m)" using Suc.prems by simp
    then show ?case using Suc
      by (simp add: take_Suc_conv_app_nth enumerate_append_eq list_update_append)
  qed simp
  from this [of ?n] show ?thesis
    by (simp add: cluster_offsets_def list_update_append)
qed

lemma length_cluster_offsets [simp]: "length (cluster_offsets clusters) = length clusters + 1"
  by (simp add: cluster_offsets_eq)

lemma unat_cluster_offset:
  "i \<le> length clusters \<Longrightarrow> sizes_sum clusters < 2 ^ 64 \<Longrightarrow>
   unat (cluster_offsets clusters ! i) = sizes_sum (take i clusters)"
  using sizes_sum_take_le [of i clusters]
  by (simp add: cluster_offsets_eq nth_append unat_of_nat del: upt_Suc)

section \<open>The bytes written\<close>

definition header_bytes :: "u64 \<Rightarrow> u32 \<Rightarrow> u32 \<Rightarrow> u8 list" where
  "header_bytes nv nc dp = W_MAGIC @ u32_to_le_bytes W_VERSION @ u64_to_le_bytes nv @
     u32_to_le_bytes nc @ u32_to_le_bytes (word_of_nat DIMS) @ u32_to_le_bytes dp @ u32_to_le_bytes 0"

definition index_bytes :: "f32 list list \<Rightarrow> entry list list \<Rightarrow> u64 \<Rightarrow> u32 \<Rightarrow> u32 \<Rightarrow> u8 list" where
  "index_bytes centroids clusters nv nc dp =
     header_bytes nv nc dp @
     concat (map f32_to_le_bytes (concat centroids)) @
     concat (map u64_to_le_bytes (cluster_offsets clusters)) @
     concat (map byte_to (concat (map e_vec (concat clusters)))) @
     map (\<lambda>e. if e_fraud e then 1 else 0) (concat clusters)"

definition raw_bytes :: "entry list list \<Rightarrow> u8 list" where
  "raw_bytes clusters = concat (map f32_to_le_bytes (concat (map e_vec_f32 (concat clusters))))"

text \<open>A loop of \<open>write_all\<close> appends what it writes, as long as the device takes it.\<close>

definition accepts_upto :: "device \<Rightarrow> string \<Rightarrow> nat \<Rightarrow> bool" where
  "accepts_upto dev path n \<longleftrightarrow> (\<forall>m\<le>n. accepts dev path m)"

lemma accepts_upto_le: "accepts_upto dev path n \<Longrightarrow> m \<le> n \<Longrightarrow> accepts_upto dev path m"
  by (simp add: accepts_upto_def)

lemma write_run:
  "accepts_upto dev path (length old + length (concat (map f xs))) \<Longrightarrow>
   try_fold (\<lambda>fs x. write_all dev path fs (f x)) (fs(path \<mapsto> old)) xs
    = Inr (fs(path \<mapsto> old @ concat (map f xs)))"
proof (induction xs arbitrary: old)
  case (Cons x xs)
  from Cons.prems have "accepts dev path (length old + length (f x))" by (simp add: accepts_upto_def)
  then have "write_all dev path (fs(path \<mapsto> old)) (f x) = Inr (fs(path \<mapsto> old @ f x))"
    by (simp add: write_all_def)
  moreover have "try_fold (\<lambda>fs x. write_all dev path fs (f x)) (fs(path \<mapsto> old @ f x)) xs
      = Inr (fs(path \<mapsto> (old @ f x) @ concat (map f xs)))"
    using Cons.prems by (intro Cons.IH) (simp add: add.assoc)
  ultimately show ?case by (simp del: fun_upd_apply)
qed simp

lemma try_fold_rows:
  "try_fold (\<lambda>s c. try_fold g s (h c)) s xs = try_fold g s (concat (map h xs))"
  by (simp add: try_fold_concat [symmetric] try_fold_map)

lemma concat_rows: "concat (map (\<lambda>c. concat (map h c)) xs) = concat (map h (concat xs))"
  by (induction xs) simp_all

lemma write_index_eq:
  assumes "can_create dev path" and "can_create dev (raw_f32_path path)"
    and upto: "accepts_upto dev path (length (index_bytes centroids clusters nv nc dp))"
    and raw: "accepts_upto dev (raw_f32_path path) (length (raw_bytes clusters))"
  shows "write_index dev path centroids clusters nv nc dp fs
    = Inr (fs(path \<mapsto> index_bytes centroids clusters nv nc dp, raw_f32_path path \<mapsto> raw_bytes clusters))"
proof -
  define B1 where "B1 = header_bytes nv nc dp"
  define B2 where "B2 = concat (map f32_to_le_bytes (concat centroids))"
  define B3 where "B3 = concat (map u64_to_le_bytes (cluster_offsets clusters))"
  define B4 where "B4 = concat (map (\<lambda>b. [b]) (concat (map e_vec (concat clusters))))"
  define B5 where "B5 = concat (map (\<lambda>e. [if e_fraud e then 1 else 0 :: u8]) (concat clusters))"
  have all: "index_bytes centroids clusters nv nc dp = B1 @ B2 @ B3 @ B4 @ B5"
    by (simp add: index_bytes_def B1_def B2_def B3_def B4_def B5_def byte_to_def [abs_def] concat_map_singleton)
  have room: "accepts_upto dev path m" if "m \<le> length (B1 @ B2 @ B3 @ B4 @ B5)" for m
    using accepts_upto_le [OF upto] that by (simp add: all)
  have 1: "try_fold (write_all dev path) (fs(path \<mapsto> [])) [W_MAGIC, u32_to_le_bytes W_VERSION,
      u64_to_le_bytes nv, u32_to_le_bytes nc, u32_to_le_bytes (word_of_nat DIMS), u32_to_le_bytes dp,
      u32_to_le_bytes 0] = Inr (fs(path \<mapsto> B1))" (is "try_fold _ _ ?hs = _")
  proof -
    have "concat ?hs = B1" by (simp add: B1_def header_bytes_def)
    with write_run [of dev path "[]" "\<lambda>x. x" ?hs fs] room show ?thesis by (simp only: map_ident) simp
  qed
  have 2: "try_fold (\<lambda>fs c. try_fold (\<lambda>fs f. write_all dev path fs (f32_to_le_bytes f)) fs c)
      (fs(path \<mapsto> B1)) centroids = Inr (fs(path \<mapsto> B1 @ B2))"
    unfolding try_fold_concat B2_def by (rule write_run) (use room in \<open>simp add: B2_def\<close>)
  have 3: "try_fold (\<lambda>fs off. write_all dev path fs (u64_to_le_bytes off)) (fs(path \<mapsto> B1 @ B2))
      (cluster_offsets clusters) = Inr (fs(path \<mapsto> (B1 @ B2) @ B3))"
    unfolding B3_def by (rule write_run) (use room in \<open>simp add: B3_def\<close>)
  have 4: "try_fold (\<lambda>fs cluster. try_fold (\<lambda>fs e. try_fold (\<lambda>fs b. write_all dev path fs [b])
      fs (e_vec e)) fs cluster) (fs(path \<mapsto> (B1 @ B2) @ B3)) clusters
      = Inr (fs(path \<mapsto> ((B1 @ B2) @ B3) @ B4))"
    unfolding try_fold_concat try_fold_rows concat_rows B4_def by (rule write_run) (use room in \<open>simp add: B4_def\<close>)
  have 5: "try_fold (\<lambda>fs cluster. try_fold (\<lambda>fs e. write_all dev path fs
      [if e_fraud e then 1 else 0]) fs cluster) (fs(path \<mapsto> ((B1 @ B2) @ B3) @ B4)) clusters
      = Inr (fs(path \<mapsto> (((B1 @ B2) @ B3) @ B4) @ B5))"
    unfolding try_fold_concat B5_def by (rule write_run) (use room in \<open>simp add: B5_def\<close>)
  have 6: "try_fold (\<lambda>fs cluster. try_fold (\<lambda>fs e. try_fold (\<lambda>fs f.
      write_all dev (raw_f32_path path) fs (f32_to_le_bytes f)) fs (e_vec_f32 e)) fs cluster)
      (g(raw_f32_path path \<mapsto> [])) clusters = Inr (g(raw_f32_path path \<mapsto> raw_bytes clusters))" for g
    using write_run [of dev "raw_f32_path path" "[]" f32_to_le_bytes] raw
    unfolding try_fold_concat try_fold_rows concat_rows raw_bytes_def by simp
  show ?thesis
    unfolding write_index_def file_create_def assms(1,2) [THEN eqTrueI] if_True and_then_simps
      1 2 3 4 5 6 unfolding all append_assoc ..
qed

text \<open>Conversely, when it returns \<open>Ok\<close> it has written exactly these two files.\<close>

lemma write_run_Inr:
  assumes "try_fold (\<lambda>fs x. write_all dev path fs (f x)) (fs(path \<mapsto> old)) xs = Inr fs'"
  shows "fs' = fs(path \<mapsto> old @ concat (map f xs))"
  using assms
proof (induction xs arbitrary: old)
  case (Cons x xs)
  then obtain t where t: "write_all dev path (fs(path \<mapsto> old)) (f x) = Inr t"
    "try_fold (\<lambda>fs x. write_all dev path fs (f x)) t xs = Inr fs'"
    by (auto simp: and_then_eq_Inr simp del: fun_upd_apply)
  have "t = fs(path \<mapsto> old @ f x)" using t(1) by (auto simp: write_all_def split: if_splits)
  with Cons.IH [of "old @ f x"] t(2) show ?case by (simp del: fun_upd_apply)
qed simp

lemma write_index_Inr_aux:
  assumes "write_index dev path centroids clusters nv nc dp fs = Inr fs'"
  shows "fs' = fs(path \<mapsto> index_bytes centroids clusters nv nc dp, raw_f32_path path \<mapsto> raw_bytes clusters)"
proof -
  note run = write_run_Inr [where dev = dev]
  have create: "file_create dev p g = Inr h \<Longrightarrow> h = g(p \<mapsto> [])" for p g h
    by (auto simp: file_create_def split: if_splits)
  have header: "try_fold (write_all dev path) (g(path \<mapsto> old)) hs = Inr h \<Longrightarrow> h = g(path \<mapsto> old @ concat hs)"
    for g h hs old using run [where f = "\<lambda>x. x"] by simp
  have singles: "concat (map (\<lambda>b. [b]) xs) = xs" for xs :: "u8 list" by (induction xs) simp_all
  have labels: "concat (map (\<lambda>e. [if e_fraud e then 1 else 0 :: u8]) es)
      = map (\<lambda>e. if e_fraud e then 1 else 0) es" for es by (induction es) simp_all
  have bytes: "concat (map byte_to xs) = xs" for xs using singles by (simp add: byte_to_def [abs_def])
  from assms show ?thesis
    unfolding write_index_def and_then_eq_Inr try_fold_concat try_fold_rows
    by (auto dest!: create header run simp: concat_rows index_bytes_def header_bytes_def raw_bytes_def
        singles labels bytes simp del: try_fold.simps fun_upd_apply)
qed

end
