(* ===== verification/Index_Format.thy ===== *)
theory Index_Format
  imports Searcher Index_Writer
begin

text \<open>
  The index file between its writer and its reader. First what \<open>load\<close> establishes: when the
  four offsets do not wrap around, every section lies inside the mapping, so \<open>search\<close> reads
  no byte outside of it. Then the round trip: what \<open>write_index\<close> writes, \<open>load\<close> reads back as
  the centroids, offsets, vectors and labels that were written.
\<close>

section \<open>What \<open>load\<close> establishes\<close>

text \<open>The length of an index file of \<open>n\<close> centroids and \<open>m\<close> vectors.\<close>

definition layout_size :: "nat \<Rightarrow> nat \<Rightarrow> nat" where
  "layout_size n m = 32 + n * DIMS * 4 + (n + 1) * 8 + m * DIMS + m"

lemma load_Inr:
  assumes "load fs path r = Inr s"
  shows "fs path = Some (mmap s)" "32 \<le> length (mmap s)"
    "num_vecs s = u64_from_le_bytes (field (mmap s) 8 16)"
    "num_cents s = ucast (u32_from_le_bytes (field (mmap s) 16 20))"
    "probes s = (if r > 0 then r else ucast (u32_from_le_bytes (field (mmap s) 24 28)))"
    "cent_off s = 32" "offset_off s = 32 + num_cents s * dims_usize * 4"
    "vec_off s = offset_off s + (num_cents s + 1) * 8"
    "label_off s = vec_off s + num_vecs s * dims_usize"
    "unat (label_off s + num_vecs s) \<le> length (mmap s)"
  using assms by (auto simp: load_def Let_def split: option.splits if_splits)

lemma unat_usize_of_nat: "n < 2 ^ 64 \<Longrightarrow> unat (word_of_nat n :: usize) = n"
  by (simp add: unat_of_nat)

text \<open>The four offsets as numbers, when the file size does not wrap around.\<close>

lemma load_layout:
  assumes "load fs path r = Inr s"
    and n: "unat (num_cents s) = n" and m: "unat (num_vecs s) = m" and small: "layout_size n m < 2 ^ 64"
  shows "unat (cent_off s) = 32" "unat (offset_off s) = 32 + n * 56"
    "unat (vec_off s) = 32 + n * 56 + (n + 1) * 8"
    "unat (label_off s) = 32 + n * 56 + (n + 1) * 8 + m * 14"
    "unat (label_off s + num_vecs s) = layout_size n m"
    "unat (num_cents s * dims_usize) = n * 14" "unat (num_cents s + 1) = n + 1"
    "unat (num_vecs s * dims_usize) = m * 14" "layout_size n m \<le> length (mmap s)"
proof -
  note s = load_Inr [OF assms(1)]
  have w: "num_cents s = word_of_nat n" "num_vecs s = word_of_nat m"
    using n m by (simp_all flip: n m)
  have o: "offset_off s = word_of_nat (32 + n * 56)"
    by (simp add: s(7) w DIMS_def algebra_simps)
  have v: "vec_off s = word_of_nat (32 + n * 56 + (n + 1) * 8)"
    by (simp add: s(8) o w algebra_simps)
  have l: "label_off s = word_of_nat (32 + n * 56 + (n + 1) * 8 + m * 14)"
    by (simp add: s(9) v w DIMS_def algebra_simps)
  have e: "label_off s + num_vecs s = word_of_nat (layout_size n m)"
    by (simp add: l w layout_size_def DIMS_def algebra_simps)
  have small': "32 + n * 56 + (n + 1) * 8 + m * 15 < 2 ^ 64"
    using small by (simp add: layout_size_def DIMS_def)
  show "unat (cent_off s) = 32" by (simp add: s(6))
  show "unat (offset_off s) = 32 + n * 56"
    unfolding o by (rule unat_usize_of_nat) (use small' in simp)
  show "unat (vec_off s) = 32 + n * 56 + (n + 1) * 8"
    unfolding v by (rule unat_usize_of_nat) (use small' in simp)
  show "unat (label_off s) = 32 + n * 56 + (n + 1) * 8 + m * 14"
    unfolding l by (rule unat_usize_of_nat) (use small' in simp)
  show size: "unat (label_off s + num_vecs s) = layout_size n m"
    unfolding e by (rule unat_usize_of_nat [OF small])
  have "num_cents s * dims_usize = word_of_nat (n * 14)" by (simp add: w DIMS_def)
  then show "unat (num_cents s * dims_usize) = n * 14"
    using unat_usize_of_nat [of "n * 14"] small' by simp
  have "num_cents s + 1 = word_of_nat (n + 1)" by (simp add: w)
  then show "unat (num_cents s + 1) = n + 1" using unat_usize_of_nat [of "n + 1"] small' by (simp add: add.commute)
  have "num_vecs s * dims_usize = word_of_nat (m * 14)" by (simp add: w DIMS_def)
  then show "unat (num_vecs s * dims_usize) = m * 14"
    using unat_usize_of_nat [of "m * 14"] small' by simp
  show "layout_size n m \<le> length (mmap s)" using s(10) size by simp
qed

section \<open>Reading what was written\<close>

text \<open>The index that stands for centroids and clusters.\<close>

definition ivf_of :: "f32 list list \<Rightarrow> entry list list \<Rightarrow> ivf" where
  "ivf_of centroids clusters =
     \<lparr>i_cents = centroids, i_offsets = cluster_offsets clusters,
      i_vecs = map e_vec (concat clusters),
      i_labels = map (\<lambda>e. if e_fraud e then 1 else 0) (concat clusters)\<rparr>"

definition rows_ok :: "f32 list list \<Rightarrow> entry list list \<Rightarrow> bool" where
  "rows_ok centroids clusters \<longleftrightarrow>
     list_all (\<lambda>c. length c = DIMS) centroids \<and>
     list_all (list_all (\<lambda>e. length (e_vec e) = DIMS)) clusters \<and>
     length clusters = length centroids"

lemma ivf_of_ok:
  assumes "rows_ok centroids clusters" and "list_all (list_all f32_finite) centroids"
    and "sizes_sum clusters < 2 ^ 64"
  shows "ivf_ok (ivf_of centroids clusters)"
  using assms
  by (auto simp: ivf_ok_def ivf_of_def rows_ok_def list_all_iff unat_cluster_offset sizes_sum_take_le
      length_concat_clusters)

lemma length_header_bytes [simp]: "length (header_bytes nv nc dp) = 32"
  by (simp add: header_bytes_def W_MAGIC_def)

lemma header_fields:
  "field (header_bytes nv nc dp @ rest) 0 4 = MAGIC"
  "u32_from_le_bytes (field (header_bytes nv nc dp @ rest) 4 8) = 1"
  "u64_from_le_bytes (field (header_bytes nv nc dp @ rest) 8 16) = nv"
  "u32_from_le_bytes (field (header_bytes nv nc dp @ rest) 16 20) = nc"
  "u32_from_le_bytes (field (header_bytes nv nc dp @ rest) 20 24) = word_of_nat DIMS"
  "u32_from_le_bytes (field (header_bytes nv nc dp @ rest) 24 28) = dp"
  by (simp_all add: field_def header_bytes_def W_MAGIC_def MAGIC_def W_VERSION_def u32_le.dec_enc u64_le.dec_enc)

lemma length_index_bytes:
  assumes "rows_ok centroids clusters"
  shows "length (index_bytes centroids clusters nv nc dp) = layout_size (length centroids) (sizes_sum clusters)"
proof -
  have rows: "length (concat centroids) = length centroids * DIMS"
    using length_concat_const [of centroids "\<lambda>x. x" DIMS] assms by (simp add: rows_ok_def list_all_iff)
  have "length (concat (map e_vec (concat clusters))) = sizes_sum clusters * DIMS"
    using length_concat_const [of "concat clusters" e_vec DIMS] assms
    by (auto simp: rows_ok_def list_all_iff length_concat_clusters)
  with rows assms show ?thesis
    by (simp only: index_bytes_def length_append f32_le.length_encoded u64_le.length_encoded
        byte.length_encoded length_header_bytes length_map length_concat_clusters layout_size_def
        length_cluster_offsets rows_ok_def)
qed

lemma load_index_bytes:
  assumes "fs path = Some (index_bytes centroids clusters nv nc dp)" and rows: "rows_ok centroids clusters"
    and nc: "unat nc = length centroids" and nv: "unat nv = sizes_sum clusters"
    and small: "layout_size (length centroids) (sizes_sum clusters) < 2 ^ 64"
  obtains s where "load fs path r = Inr s" "num_cents s = ucast nc" "num_vecs s = nv"
    "probes s = (if r > 0 then r else ucast dp)" "mmap s = index_bytes centroids clusters nv nc dp"
proof -
  let ?B = "index_bytes centroids clusters nv nc dp"
  have "\<exists>rest. ?B = header_bytes nv nc dp @ rest" by (simp add: index_bytes_def)
  then obtain rest where B: "?B = header_bytes nv nc dp @ rest" ..
  have dims: "ucast (word_of_nat DIMS :: u32) = (dims_usize :: usize)" by (simp add: DIMS_def)
  have nc64: "ucast nc = (word_of_nat (length centroids) :: usize)"
    by (simp flip: nc)
  have nv64: "nv = word_of_nat (sizes_sum clusters)" by (simp flip: nv)
  have "32 + (ucast nc :: usize) * dims_usize * 4 + (ucast nc + 1) * 8 + nv * dims_usize + nv
      = word_of_nat (layout_size (length centroids) (sizes_sum clusters))"
    by (simp add: nc64 nv64 layout_size_def DIMS_def algebra_simps)
  then have need: "unat (32 + (ucast nc :: usize) * dims_usize * 4 + (ucast nc + 1) * 8 + nv * dims_usize + nv)
      = length ?B"
    using unat_usize_of_nat [OF small] by (simp add: length_index_bytes [OF rows])
  have "32 \<le> length ?B" by (simp add: B)
  have "load fs path r = Inr \<lparr>mmap = ?B, num_cents = ucast nc, num_vecs = nv,
      probes = (if r > 0 then r else ucast dp), cent_off = 32,
      offset_off = 32 + ucast nc * dims_usize * 4,
      vec_off = 32 + ucast nc * dims_usize * 4 + (ucast nc + 1) * 8,
      label_off = 32 + ucast nc * dims_usize * 4 + (ucast nc + 1) * 8 + nv * dims_usize\<rparr>"
    using \<open>32 \<le> length ?B\<close> need [symmetric]
    by (simp add: load_def assms(1) Let_def header_fields [of nv nc dp rest, folded B] dims del: length_0_conv)
  then show thesis by (rule that) simp_all
qed

lemma load_written:
  assumes fs: "fs path = Some (index_bytes centroids clusters nv nc dp)"
    and rows: "rows_ok centroids clusters"
    and nc: "unat nc = length centroids" and nv: "unat nv = sizes_sum clusters"
    and small: "layout_size (length centroids) (sizes_sum clusters) < 2 ^ 64"
  obtains s where "load fs path r = Inr s" "views s (ivf_of centroids clusters)"
    "probes s = (if r > 0 then r else ucast dp)" "num_vecs s = nv"
proof -
  obtain s where s: "load fs path r = Inr s" "num_cents s = ucast nc" "num_vecs s = nv"
    "probes s = (if r > 0 then r else ucast dp)" "mmap s = index_bytes centroids clusters nv nc dp"
    by (rule load_index_bytes [where fs = fs and path = path and r = r, OF fs rows nc nv small])
  let ?n = "length centroids" and ?m = "sizes_sum clusters"
  have "(ucast nc :: usize) = word_of_nat ?n" by (simp flip: nc)
  then have n: "unat (num_cents s) = ?n" using unat_u32_less [of nc] nc by (simp add: s(2) unat_of_nat)
  note lay = load_layout [OF s(1) n _ small, unfolded s(3), OF nv]
  let ?h = "header_bytes nv nc dp"
  let ?C = "concat (map f32_to_le_bytes (concat centroids))"
  let ?O = "concat (map u64_to_le_bytes (cluster_offsets clusters))"
  let ?V = "concat (map byte_to (concat (map e_vec (concat clusters))))"
  let ?L = "map (\<lambda>e. if e_fraud e then 1 else 0 :: u8) (concat clusters)"
  have B: "mmap s = ?h @ ?C @ ?O @ ?V @ ?L" by (simp add: s(5) index_bytes_def)
  have rowC: "length (concat centroids) = ?n * 14"
    using length_concat_const [of centroids "\<lambda>x. x" DIMS] rows by (simp add: rows_ok_def list_all_iff DIMS_def)
  have rowV: "length (concat (map e_vec (concat clusters))) = ?m * 14"
    using length_concat_const [of "concat clusters" e_vec DIMS] rows
    by (auto simp: rows_ok_def list_all_iff length_concat_clusters DIMS_def)
  have lenC: "length ?C = ?n * 56" using f32_le.length_encoded [of "concat centroids"] rowC by simp
  have lenO: "length ?O = (?n + 1) * 8"
    using u64_le.length_encoded [of "cluster_offsets clusters"] rows by (simp add: rows_ok_def)
  have lenV: "length ?V = ?m * 14"
    using byte.length_encoded [of "concat (map e_vec (concat clusters))"] rowV by simp
  have 1: "raw_slice 4 f32_from_le_bytes (mmap s) (unat (cent_off s)) (unat (num_cents s * dims_usize))
      = Inr (concat centroids)"
    unfolding lay B by (rule f32_le.raw_slice_encoded [of _ ?h _ "?O @ ?V @ ?L"]) (simp_all add: rowC)
  have 2: "raw_slice 8 u64_from_le_bytes (mmap s) (unat (offset_off s)) (unat (num_cents s + 1))
      = Inr (cluster_offsets clusters)"
    unfolding lay B using rows
    by (intro u64_le.raw_slice_encoded [of _ "?h @ ?C" _ "?V @ ?L"]) (simp_all add: lenC rows_ok_def)
  have 3: "raw_slice 1 byte_from (mmap s) (unat (vec_off s)) (unat (nv * dims_usize))
      = Inr (concat (map e_vec (concat clusters)))"
    unfolding lay B
    by (rule byte.raw_slice_encoded [of _ "?h @ ?C @ ?O" _ ?L]) (simp_all add: lenC lenO rowV del: mult_Suc)
  have pre: "length (?h @ ?C @ ?O @ ?V) = 32 + ?n * 56 + (?n + 1) * 8 + ?m * 14"
    unfolding length_append lenC lenO lenV length_header_bytes by simp
  have "sub_slice ((?h @ ?C @ ?O @ ?V) @ ?L) (32 + ?n * 56 + (?n + 1) * 8 + ?m * 14) (layout_size ?n ?m)
      = Inr ?L"
    unfolding pre [symmetric] sub_slice_def layout_size_def
    by (simp add: length_concat_clusters lenC lenO lenV DIMS_def)
  then have 4: "sub_slice (mmap s) (unat (label_off s)) (unat (label_off s + nv)) = Inr ?L"
    unfolding lay B by simp
  show thesis
    using 1 2 3 4 n by (intro that [OF s(1) _ s(4) s(3)]) (simp add: views_def ivf_of_def s(3))
qed

section \<open>The vectors of a cluster\<close>

text \<open>What a stored entry offers to a query.\<close>

definition entry_candidate :: "f32 list \<Rightarrow> entry \<Rightarrow> candidate" where
  "entry_candidate query e =
     \<lparr>c_dist = dist_int8 (e_vec e) (quantized_query query), c_fraud = e_fraud e\<rparr>"

lemma nth_concat_clusters:
  "i < length clusters \<Longrightarrow> j < length (clusters ! i) \<Longrightarrow>
   concat clusters ! (sizes_sum (take i clusters) + j) = clusters ! i ! j \<and>
   sizes_sum (take i clusters) + j < sizes_sum clusters"
proof (induction clusters arbitrary: i)
  case (Cons c cs)
  then show ?case by (cases i) (auto simp: nth_append length_concat_clusters)
qed simp

lemma scanned_ivf_of:
  assumes rows: "rows_ok centroids clusters" and small: "sizes_sum clusters < 2 ^ 64"
    and near: "\<forall>ci\<in>set near. ci < length centroids"
  shows "scanned (ivf_of centroids clusters) query near
    = concat (map (\<lambda>ci. map (entry_candidate query) (clusters ! ci)) near)"
proof -
  let ?v = "ivf_of centroids clusters" and ?q = "quantized_query query"
  have "map (candidate_of ?v ?q) (cluster_range ?v ci) = map (entry_candidate query) (clusters ! ci)"
    if "ci \<in> set near" for ci
  proof (rule nth_equalityI)
    have ci: "ci < length clusters" using that near rows by (simp add: rows_ok_def)
    then have ends: "unat (cluster_offsets clusters ! ci) = sizes_sum (take ci clusters)"
      "unat (cluster_offsets clusters ! (ci + 1)) = sizes_sum (take ci clusters) + length (clusters ! ci)"
      using unat_cluster_offset [OF _ small] by (simp_all add: take_Suc_conv_app_nth)
    then show "length (map (candidate_of ?v ?q) (cluster_range ?v ci))
        = length (map (entry_candidate query) (clusters ! ci))"
      by (simp add: cluster_range_def ivf_of_def)
    fix j assume "j < length (map (candidate_of ?v ?q) (cluster_range ?v ci))"
    then have j: "j < length (clusters ! ci)" using ends by (simp add: cluster_range_def ivf_of_def)
    from nth_concat_clusters [OF ci j] ends j
    show "map (candidate_of ?v ?q) (cluster_range ?v ci) ! j = map (entry_candidate query) (clusters ! ci) ! j"
      by (simp add: cluster_range_def ivf_of_def candidate_of_def entry_candidate_def length_concat_clusters)
  qed
  then show ?thesis unfolding scanned_def by (intro arg_cong [of _ _ concat] map_cong) auto
qed

text \<open>Probing every cluster, in whatever order, scans every entry once.\<close>

lemma mset_concat_map: "mset (concat (map f xs)) = sum_mset (image_mset (\<lambda>x. mset (f x)) (mset xs))"
  by (induction xs) simp_all

lemma scanned_all:
  assumes "rows_ok centroids clusters" and "sizes_sum clusters < 2 ^ 64"
    and near: "distinct near" "length near = length centroids" "set near \<subseteq> {..<length centroids}"
  shows "mset (scanned (ivf_of centroids clusters) query near)
    = mset (map (entry_candidate query) (concat clusters))"
proof -
  have n: "length clusters = length centroids" using assms(1) by (simp add: rows_ok_def)
  have "set near = {..<length centroids}"
    by (rule card_subset_eq) (use near distinct_card [OF near(1)] in auto)
  then have perm: "mset near = mset [0..<length clusters]"
    using near(1) n by (intro set_eq_iff_mset_eq_distinct [THEN iffD1]) (auto simp: atLeast0LessThan)
  let ?f = "\<lambda>ci. map (entry_candidate query) (clusters ! ci)"
  have "map ?f [0..<length clusters] = map (map (entry_candidate query)) clusters"
    by (rule nth_equalityI) simp_all
  then have "mset (concat (map ?f [0..<length clusters])) = mset (map (entry_candidate query) (concat clusters))"
    by (simp only: map_concat)
  moreover have "scanned (ivf_of centroids clusters) query near = concat (map ?f near)"
    using near(3) by (intro scanned_ivf_of assms) auto
  ultimately show ?thesis by (simp only: mset_concat_map perm)
qed

text \<open>With every cluster probed a search is the search over all entries.\<close>

lemma search_exhaustive:
  assumes "select_contract sel" and "sort_contract srt" and "views s (ivf_of centroids clusters)"
    and "rows_ok centroids clusters" and "list_all (list_all f32_finite) centroids"
    and "sizes_sum clusters < 2 ^ 64" and "0 < k" and "length centroids \<le> unat (probes s)"
  shows "\<exists>cands buf'.
    search sel srt s query k buf = Inr (map (\<lambda>c. \<lparr>n_fraud = c_fraud c\<rparr>) cands, buf') \<and>
    k_smallest cand_key k (mset (map (entry_candidate query) (concat clusters))) (mset cands)"
proof -
  have n: "length (i_cents (ivf_of centroids clusters)) = length centroids" by (simp add: ivf_of_def)
  then have "0 < unat (probes s) \<or> i_cents (ivf_of centroids clusters) = []"
    using assms(8) by (cases "i_cents (ivf_of centroids clusters)") auto
  from search_spec [OF assms(1-3) ivf_of_ok [OF assms(4-6)] assms(7) this, of query buf] n assms(8)
  obtain near cands buf' where
    "search sel srt s query k buf = Inr (map (\<lambda>c. \<lparr>n_fraud = c_fraud c\<rparr>) cands, buf')"
    "nearest_clusters (ivf_of centroids clusters) query (length centroids) near"
    "k_smallest cand_key k (mset (scanned (ivf_of centroids clusters) query near)) (mset cands)"
    by auto
  moreover from this(2) have
    "mset (scanned (ivf_of centroids clusters) query near) = mset (map (entry_candidate query) (concat clusters))"
    by (intro scanned_all assms(4,6)) (auto simp: nearest_clusters_def Let_def n)
  ultimately show ?thesis by auto
qed

end
