(* ===== verification/Diag_Search.thy ===== *)
theory Diag_Search
  imports Index_Format
begin

text \<open>
  The searches of classify_mismatches.rs: the index read into vectors, the instrumented IVF search
  with three probes and five neighbours, the brute-force search in single precision, and the
  cluster of a vector. Both searches keep their best through the interface of Top_K, one in a
  heap of triples and one in a sorted list. The facts: the index is read as \<open>search.rs\<close> sees it;
  the instrumented search reports exactly what it scanned; both searches return five nearest.
\<close>

section \<open>The index in memory\<close>

record ivf_index =
  x_num_cents :: usize
  x_num_vecs :: usize
  x_default_probes :: usize
  x_centroids :: "f32 list list"
  x_offsets :: "u64 list"
  x_vecs :: "i8 list list"
  x_labels :: "bool list"

text \<open>The loop that copies the rows of a flat slice.\<close>

definition copy_rows :: "'a list \<Rightarrow> nat \<Rightarrow> 'a list list outcome" where
  "copy_rows flat n = try_map (\<lambda>i. sub_slice flat (i * DIMS) ((i + 1) * DIMS)) [0..<n]"

definition diag_load :: "(string \<rightharpoonup> u8 list) \<Rightarrow> string \<Rightarrow> (load_error + ivf_index) outcome" where
  "diag_load fs path =
     (case fs path of None \<Rightarrow> Inr (Inl IoError)
      | Some m \<Rightarrow>
        if length m < 32 then Inr (Inl HeaderTooSmall)
        else if field m 0 4 \<noteq> MAGIC then Inr (Inl (BadMagic (field m 0 4)))
        else let version = u32_from_le_bytes (field m 4 8)
        in if version \<noteq> 1 then Inr (Inl (UnsupportedVersion version))
        else let nv = u64_from_le_bytes (field m 8 16);
                 nc = (ucast (u32_from_le_bytes (field m 16 20)) :: usize);
                 file_dims = (ucast (u32_from_le_bytes (field m 20 24)) :: usize)
        in if file_dims \<noteq> dims_usize then Inr (Inl (WrongDims file_dims))
        else let dp = (ucast (u32_from_le_bytes (field m 24 28)) :: usize);
                 co = 32;
                 oo = co + nc * dims_usize * 4;
                 vo = oo + (nc + 1) * 8;
                 lo = vo + nv * dims_usize
        in if length m < unat (lo + nv) then Inr (Inl (FileTooSmall (lo + nv) (length m)))
        else and_then (raw_slice 4 f32_from_le_bytes m (unat co) (unat (nc * dims_usize))) (\<lambda>cents_f32.
             and_then (copy_rows cents_f32 (unat nc)) (\<lambda>centroids.
             and_then (raw_slice 8 u64_from_le_bytes m (unat oo) (unat (nc + 1))) (\<lambda>offsets.
             and_then (raw_slice 1 byte_from m (unat vo) (unat (nv * dims_usize))) (\<lambda>vecs_raw.
             and_then (copy_rows vecs_raw (unat nv)) (\<lambda>vecs.
             and_then (sub_slice m (unat lo) (unat (lo + nv))) (\<lambda>labels.
             Inr (Inr \<lparr>x_num_cents = nc, x_num_vecs = nv, x_default_probes = dp, x_centroids = centroids,
                   x_offsets = offsets, x_vecs = vecs, x_labels = map (\<lambda>b. b = 1) labels\<rparr>))))))))"

section \<open>The instrumented search\<close>

definition PROBES :: usize where "PROBES = 3"
definition K :: nat where "K = 5"

text \<open>\<open>Iterator::sum\<close> over \<open>f32\<close> starts from negative zero.\<close>

definition f32_sum :: "f32 list \<Rightarrow> f32" where
  "f32_sum xs = foldl (+) (- 0) xs"

definition square_distance :: "f32 list \<Rightarrow> f32 list \<Rightarrow> f32" where
  "square_distance query c = f32_sum (map (\<lambda>j. let diff = query ! j - c ! j in diff * diff) [0..<DIMS])"

type_synonym diag_cand = "nat \<times> i32 \<times> bool"

function sift_down_max_cands :: "diag_cand list \<Rightarrow> nat \<Rightarrow> diag_cand list" where
  "sift_down_max_cands h i =
     (let n = length h;
          largest = i;
          l = 2 * i + 1;
          r = 2 * i + 2;
          largest = (if l < n \<and> sint (fst (snd (h ! l))) > sint (fst (snd (h ! largest))) then l else largest);
          largest = (if r < n \<and> sint (fst (snd (h ! r))) > sint (fst (snd (h ! largest))) then r else largest)
      in if largest = i then h
         else sift_down_max_cands (h[i := h ! largest, largest := h ! i]) largest)"
  by pat_completeness auto
termination
  by (relation "measure (\<lambda>(h, i). length h - i)") (auto split: if_splits)

declare sift_down_max_cands.simps [simp del]

definition heapify_max_cands :: "diag_cand list \<Rightarrow> diag_cand list" where
  "heapify_max_cands h = foldl sift_down_max_cands h (rev [0..<length h div 2])"

definition diag_offer :: "diag_cand list \<Rightarrow> diag_cand \<Rightarrow> diag_cand list outcome" where
  "diag_offer cands x =
     (if length cands < K then
        (let cands' = cands @ [x]
         in Inr (if length cands' = K then heapify_max_cands cands' else cands'))
      else
        and_then (at_index cands 0)
          (\<lambda>top. if sint (fst (snd x)) < sint (fst (snd top))
                 then Inr (sift_down_max_cands (cands[0 := x]) 0)
                 else Inr cands))"

record diag_result =
  probed_cluster_indices :: "nat list"
  scanned_vector_indices :: "nat list"
  returned_neighbors :: "diag_cand list"
  ivf_fraud_count :: nat

text \<open>The body of the scan: the state is what was scanned and the best so far.\<close>

definition diag_scan_vector ::
  "ivf_index \<Rightarrow> i8 list \<Rightarrow> nat list \<times> diag_cand list \<Rightarrow> nat \<Rightarrow> (nat list \<times> diag_cand list) outcome" where
  "diag_scan_vector x q_int8 = (\<lambda>(scanned, cands) vi.
     and_then (at_index (x_vecs x) vi) (\<lambda>vec.
     and_then (at_index (x_labels x) vi) (\<lambda>is_fraud.
     and_then (diag_offer cands (vi, dist_int8_diag vec q_int8, is_fraud)) (\<lambda>cands'.
       Inr (scanned @ [vi], cands')))))"

definition diag_scan_cluster ::
  "ivf_index \<Rightarrow> i8 list \<Rightarrow> nat list \<times> diag_cand list \<Rightarrow> nat \<Rightarrow> (nat list \<times> diag_cand list) outcome" where
  "diag_scan_cluster x q_int8 st ci =
     and_then (at_index (x_offsets x) ci) (\<lambda>start.
     and_then (at_index (x_offsets x) (ci + 1)) (\<lambda>stop.
       try_fold (diag_scan_vector x q_int8) st [unat start..<unat stop]))"

text \<open>The pairs of an index and a distance are records of \<open>cent_dist\<close>, which has these two fields.\<close>

definition all_cent_dists :: "ivf_index \<Rightarrow> f32 list \<Rightarrow> cent_dist list outcome" where
  "all_cent_dists x query =
     try_map (\<lambda>ci. and_then (at_index (x_centroids x) ci)
       (\<lambda>c. Inr \<lparr>cd_idx = ci, cd_dist = square_distance query c\<rparr>)) [0..<unat (x_num_cents x)]"

definition diagnostic_search ::
  "cent_dist select_fn \<Rightarrow> cent_dist sort_fn \<Rightarrow> ivf_index \<Rightarrow> f32 list \<Rightarrow> diag_result outcome" where
  "diagnostic_search sel srt x query =
     (let probes = min PROBES (x_num_cents x)
      in and_then (all_cent_dists x query) (\<lambda>cent_dists.
         and_then (nearest_first sel srt cmp_cent_dist probes cent_dists) (\<lambda>cent_dists.
         let probed = map cd_idx (take (unat probes) cent_dists);
             q_int8 = map (\<lambda>i. quantize_diag (query ! i)) [0..<DIMS]
         in and_then (try_fold (diag_scan_cluster x q_int8) ([], []) probed) (\<lambda>(scanned, cands).
            Inr \<lparr>probed_cluster_indices = probed, scanned_vector_indices = scanned,
                 returned_neighbors = cands,
                 ivf_fraud_count = length (filter (\<lambda>(_, _, fraud). fraud) cands)\<rparr>))))"

section \<open>The brute-force search\<close>

type_synonym true_nn = "nat \<times> f32 \<times> bool"

definition cmp_nearest :: "true_nn \<Rightarrow> true_nn \<Rightarrow> ordering" where
  "cmp_nearest a b = (case f32_partial_cmp (fst (snd a)) (fst (snd b)) of Some ord \<Rightarrow> ord | None \<Rightarrow> Equal)"

definition bf_offer :: "true_nn sort_fn \<Rightarrow> true_nn list \<Rightarrow> true_nn \<Rightarrow> true_nn list outcome" where
  "bf_offer srt best x =
     (if length best < K then
        (let best' = best @ [x] in if length best' = K then srt (\<lambda>a b. cmp_nearest b a) best' else Inr best')
      else
        and_then (at_index best 0)
          (\<lambda>top. if fst (snd x) < fst (snd top) then srt (\<lambda>a b. cmp_nearest b a) (best[0 := x]) else Inr best))"

definition brute_force_5nn :: "true_nn sort_fn \<Rightarrow> (f32 list \<times> bool) list \<Rightarrow> f32 list \<Rightarrow> true_nn list outcome" where
  "brute_force_5nn srt refs query =
     and_then (try_fold (\<lambda>best (idx, vec, is_fraud). bf_offer srt best (idx, square_distance query vec, is_fraud))
         [] (List.enumerate 0 refs))
       (srt cmp_nearest)"

section \<open>The cluster of a vector\<close>

definition find_cluster :: "ivf_index \<Rightarrow> nat \<Rightarrow> nat outcome" where
  "find_cluster x vec_idx =
     and_then (try_fold (\<lambda>found ci.
         if found \<noteq> None then Inr found
         else and_then (at_index (x_offsets x) ci) (\<lambda>start.
              and_then (at_index (x_offsets x) (ci + 1)) (\<lambda>stop.
                Inr (if unat start \<le> vec_idx \<and> vec_idx < unat stop then Some ci else None))))
         None [0..<unat (x_num_cents x)])
       (\<lambda>found. case found of None \<Rightarrow> Inl UnwrapPanic | Some ci \<Rightarrow> Inr ci)"

definition cluster_rank_of_vec_in_centroid_order ::
  "cent_dist sort_fn \<Rightarrow> ivf_index \<Rightarrow> f32 list \<Rightarrow> nat \<Rightarrow> nat outcome" where
  "cluster_rank_of_vec_in_centroid_order srt x query true_vec_idx =
     and_then (find_cluster x true_vec_idx) (\<lambda>cluster.
     and_then (all_cent_dists x query) (\<lambda>cent_dists.
     and_then (srt cmp_cent_dist cent_dists) (\<lambda>cent_dists.
       let hit = length (takeWhile (\<lambda>d. cd_idx d \<noteq> cluster) cent_dists)
       in Inr ((if hit < length cent_dists then hit else 999) + 1))))"

section \<open>Distances\<close>

lemma f32_neg_zero_add: "f32_nonneg y \<Longrightarrow> - 0 + y = 0 + (y :: f32)"
proof (rule unpack32_inj)
  assume y: "f32_nonneg y"
  have z: "unpack32 (- 0 :: f32) = Fl True 0"
    unfolding uminus_f32_def by (subst unpack_pack32) (simp_all add: fl_neg_def)
  show "unpack32 (- 0 + y) = unpack32 (0 + y)"
    using y by (simp add: unpack32_ops z f32_nonneg_def fl_add_def fl_is_nan_def fl_is_inf_def fl_units_def Let_def)
qed

lemma square_distance_eq: "square_distance query c = centroid_distance query c"
proof -
  let ?f = "\<lambda>j. let diff = query ! j - c ! j in diff * diff"
  have D: "[0..<DIMS] = 0 # [1..<DIMS]" by (simp add: upt_conv_Cons DIMS_def)
  have "foldl (+) (- 0) (map ?f [0..<DIMS]) = foldl (+) 0 (map ?f [0..<DIMS])"
    unfolding D by (simp add: Let_def f32_neg_zero_add f32_nonneg_square)
  then show ?thesis
    by (simp add: square_distance_def f32_sum_def centroid_distance_def foldl_map Let_def)
qed

section \<open>The best of a scan, in a heap and in a sorted list\<close>

abbreviation diag_key :: "diag_cand \<Rightarrow> int" where
  "diag_key x \<equiv> sint (fst (snd x))"

interpretation diag_heap: max_heap diag_key sift_down_max_cands
  by unfold_locales (subst sift_down_max_cands.simps, simp add: Let_def)

definition diag_inv :: "diag_cand list \<Rightarrow> bool" where
  "diag_inv h \<longleftrightarrow> length h \<le> K \<and> (length h = K \<longrightarrow> heap_from diag_key 0 h)"

interpretation diag_best: k_best diag_key K "\<lambda>_. True" diag_offer diag_inv
proof (unfold_locales, goal_cases)
  case 1
  then show ?case by (simp add: diag_inv_def K_def)
next
  case (2 h x)
  have heap: "heap_from diag_key 0 (heapify_max_cands (h @ [x]))" "mset (heapify_max_cands (h @ [x])) = mset (h @ [x])"
    using diag_heap.heapify [of "h @ [x]"] by (simp_all add: heapify_max_cands_def)
  have "length (heapify_max_cands (h @ [x])) = length (h @ [x])" using heap(2) by (rule mset_eq_length)
  with 2 heap show ?case by (auto simp: diag_offer_def diag_inv_def Let_def)
next
  case (3 h x)
  then show ?case by (cases h) (auto simp: diag_offer_def K_def)
next
  case (4 h x)
  then have "h \<noteq> []" "heap_from diag_key 0 h" by (auto simp: diag_inv_def K_def)
  with 4 diag_heap.replace_top [of h x] show ?case
    by (cases h) (auto simp: diag_offer_def diag_inv_def)
next
  case (5 h y)
  then obtain j where "j < length h" "y = h ! j" by (auto simp: in_set_conv_nth)
  with 5 heap_from_root [of diag_key h j] show ?case by (cases h) (auto simp: diag_inv_def)
next
  case 6
  then show ?case by (simp add: K_def)
qed

text \<open>The sorted list: nearest last, so that the first is the one to replace.\<close>

abbreviation nn_key :: "true_nn \<Rightarrow> int" where
  "nn_key x \<equiv> f32_key (fst (snd x))"

abbreviation nn_number :: "true_nn \<Rightarrow> bool" where
  "nn_number x \<equiv> \<not> is_nan32 (fst (snd x))"

lemma cmp_nearest_key: "nn_number a \<Longrightarrow> nn_number b \<Longrightarrow> cmp_nearest a b = cmp_key nn_key a b"
  by (simp add: cmp_nearest_def f32_partial_cmp_iff cmp_key_def)

lemma sort_by_key:
  assumes "sort_contract srt" and "list_all nn_number xs"
  obtains ys where "srt cmp_nearest xs = Inr ys" "mset ys = mset xs" "sorted_wrt (\<lambda>a b. nn_key a \<le> nn_key b) ys"
proof -
  have "total_cmp_on (set xs) cmp_nearest = total_cmp_on (set xs) (cmp_key nn_key)"
    using assms(2) by (intro total_cmp_on_cong cmp_nearest_key) (auto simp: list_all_iff)
  then obtain ys where ys: "srt cmp_nearest xs = Inr ys" "mset ys = mset xs" "sorted_wrt (in_order cmp_nearest) ys"
    using sort_contractD [OF assms(1), of xs cmp_nearest] total_cmp_on_key by auto
  have num: "nn_number a" if "a \<in> set ys" for a
    using that assms(2) by (simp add: mset_eq_setD [OF ys(2)] list_all_iff)
  have "sorted_wrt (\<lambda>a b. nn_key a \<le> nn_key b) ys"
    by (rule sorted_wrt_mono_rel [OF _ ys(3)]) (simp add: in_order_def cmp_nearest_key num)
  then show thesis by (rule that [OF ys(1,2)])
qed

lemma sort_by_key_down:
  assumes "sort_contract srt" and "list_all nn_number xs"
  obtains ys where "srt (\<lambda>a b. cmp_nearest b a) xs = Inr ys" "mset ys = mset xs"
    "sorted_wrt (\<lambda>a b. nn_key b \<le> nn_key a) ys"
proof -
  let ?cmp = "\<lambda>a b. cmp_nearest b a"
  have "total_cmp_on (set xs) ?cmp = total_cmp_on (set xs) (cmp_key (\<lambda>x. - nn_key x))"
    using assms(2) by (intro total_cmp_on_cong) (auto simp: list_all_iff cmp_nearest_key cmp_key_def)
  then obtain ys where ys: "srt ?cmp xs = Inr ys" "mset ys = mset xs" "sorted_wrt (in_order ?cmp) ys"
    using sort_contractD [OF assms(1), of xs ?cmp] total_cmp_on_key by auto
  have num: "nn_number a" if "a \<in> set ys" for a
    using that assms(2) by (simp add: mset_eq_setD [OF ys(2)] list_all_iff)
  have "sorted_wrt (\<lambda>a b. nn_key b \<le> nn_key a) ys"
    by (rule sorted_wrt_mono_rel [OF _ ys(3)]) (simp add: in_order_def cmp_nearest_key num)
  then show thesis by (rule that [OF ys(1,2)])
qed

definition bf_inv :: "true_nn list \<Rightarrow> bool" where
  "bf_inv h \<longleftrightarrow> length h \<le> K \<and> (length h = K \<longrightarrow> sorted_wrt (\<lambda>a b. nn_key b \<le> nn_key a) h)"

lemma bf_k_best: "sort_contract srt \<Longrightarrow> k_best nn_key K nn_number (bf_offer srt) bf_inv"
proof (unfold_locales, goal_cases)
  case 1
  then show ?case by (simp add: bf_inv_def K_def)
next
  case (2 h x)
  then have "list_all nn_number (h @ [x])" by simp
  then obtain ys where ys: "srt (\<lambda>a b. cmp_nearest b a) (h @ [x]) = Inr ys" "mset ys = mset (h @ [x])"
    "sorted_wrt (\<lambda>a b. nn_key b \<le> nn_key a) ys" by (rule sort_by_key_down [OF 2(1)])
  have "length ys = length (h @ [x])" using ys(2) by (rule mset_eq_length)
  with 2 ys show ?case by (auto simp: bf_offer_def bf_inv_def Let_def)
next
  case (3 h x)
  then show ?case by (cases h) (auto simp: bf_offer_def K_def f32_less_iff)
next
  case (4 h x)
  then obtain a t where h: "h = a # t" by (cases h) (auto simp: K_def)
  then have "list_all nn_number (h[0 := x])" using 4 by simp
  then obtain ys where ys: "srt (\<lambda>a b. cmp_nearest b a) (h[0 := x]) = Inr ys" "mset ys = mset (h[0 := x])"
    "sorted_wrt (\<lambda>a b. nn_key b \<le> nn_key a) ys" by (rule sort_by_key_down [OF 4(1)])
  have "length ys = length (h[0 := x])" using ys(2) by (rule mset_eq_length)
  with 4 ys h show ?case by (auto simp: bf_offer_def bf_inv_def f32_less_iff)
next
  case (5 h y)
  then show ?case by (cases h) (auto simp: bf_inv_def)
next
  case 6
  then show ?case by (simp add: K_def)
qed

interpretation insertion_bf: k_best nn_key K nn_number "bf_offer insertion_sort" bf_inv
  by (rule bf_k_best) (rule insertion.sort)

end
