(* ===== verification/Demo_Index.thy ===== *)
theory Demo_Index
  imports Index_Format
begin

text \<open>
  Concrete inputs for the witnesses: an index of two clusters with one vector each, a device
  that takes files of less than 1000 bytes, the index file with a chosen default probe count,
  and the insertion sort for the library's sort and selection.
\<close>

section \<open>A small index\<close>

definition demo_cents :: "f32 list list" where
  "demo_cents = [replicate DIMS 0, replicate DIMS 1]"

definition demo_clusters :: "entry list list" where
  "demo_clusters =
     [[\<lparr>e_vec = replicate DIMS 0, e_vec_f32 = replicate DIMS 0, e_fraud = False\<rparr>],
      [\<lparr>e_vec = replicate DIMS 127, e_vec_f32 = replicate DIMS 1, e_fraud = True\<rparr>]]"

definition demo_device :: device where
  "demo_device = \<lparr>can_create = \<lambda>_. True, accepts = \<lambda>_ n. n < 1000\<rparr>"

definition demo_files :: "u32 \<Rightarrow> file_system" where
  "demo_files dp = [''i'' \<mapsto> index_bytes demo_cents demo_clusters 2 2 dp]"

lemma demo_ok:
  "rows_ok demo_cents demo_clusters" "list_all (list_all f32_finite) demo_cents"
  "unat (2 :: u32) = length demo_cents" "unat (2 :: u64) = sizes_sum demo_clusters"
  "layout_size (length demo_cents) (sizes_sum demo_clusters) < 2 ^ 64"
  "sizes_sum demo_clusters < 2 ^ 64"
  by (simp_all add: rows_ok_def demo_cents_def demo_clusters_def layout_size_def DIMS_def f32_finite_iff list_all_iff)

lemma demo_load:
  obtains s where "load (demo_files dp) ''i'' r = Inr s" "views s (ivf_of demo_cents demo_clusters)"
    "probes s = (if r > 0 then r else ucast dp)" "ivf_ok (ivf_of demo_cents demo_clusters)"
proof -
  have "demo_files dp ''i'' = Some (index_bytes demo_cents demo_clusters 2 2 dp)" by (simp add: demo_files_def)
  from load_written [where fs = "demo_files dp" and path = "''i''" and r = r, OF this demo_ok(1,3,4,5)]
  obtain s where "load (demo_files dp) ''i'' r = Inr s" "views s (ivf_of demo_cents demo_clusters)"
    "probes s = (if r > 0 then r else ucast dp)" by blast
  then show thesis using ivf_of_ok [OF demo_ok(1,2,6)] by (rule that)
qed

lemma demo_write:
  "write_index demo_device ''i'' demo_cents demo_clusters 2 2 1 fs
    = Inr (fs(''i'' \<mapsto> index_bytes demo_cents demo_clusters 2 2 1,
              raw_f32_path ''i'' \<mapsto> raw_bytes demo_clusters))"
proof (rule write_index_eq)
  have "length (index_bytes demo_cents demo_clusters 2 2 1) = 198"
    using length_index_bytes [OF demo_ok(1)]
    by (simp add: layout_size_def demo_cents_def demo_clusters_def DIMS_def)
  then show "accepts_upto demo_device ''i'' (length (index_bytes demo_cents demo_clusters 2 2 1))"
    by (simp add: accepts_upto_def demo_device_def)
  have "length (raw_bytes demo_clusters) = 112"
    unfolding raw_bytes_def f32_le.length_encoded by (simp add: demo_clusters_def DIMS_def)
  then show "accepts_upto demo_device (raw_f32_path ''i'') (length (raw_bytes demo_clusters))"
    by (simp add: accepts_upto_def demo_device_def)
qed (simp_all add: demo_device_def)

lemma insertion_contracts: "select_contract insertion_select" "sort_contract insertion_sort"
  by (rule insertion.select insertion.sort)+

end
