(* ===== verification/Diag_Spec.thy ===== *)
theory Diag_Spec
  imports Diag_Search Demo_Index
begin

text \<open>
  What the searches of the classifier return, on an index that was written by the builder.
\<close>

section \<open>The index in memory\<close>

text \<open>The index in memory stands for the same sections as the mapped one.\<close>

definition diag_views :: "ivf_index \<Rightarrow> ivf \<Rightarrow> bool" where
  "diag_views x v \<longleftrightarrow>
     unat (x_num_cents x) = length (i_cents v) \<and> x_centroids x = i_cents v \<and> x_offsets x = i_offsets v \<and>
     x_vecs x = i_vecs v \<and> x_labels x = map (\<lambda>b. b = 1) (i_labels v)"

lemma copy_rows_concat:
  assumes "\<forall>x\<in>set xs. length x = DIMS" shows "copy_rows (concat xs) (length xs) = Inr xs"
proof -
  have "copy_rows (concat xs) (length xs) = Inr (map (\<lambda>i. xs ! i) [0..<length xs])"
    unfolding copy_rows_def using block_of_concat [OF assms] by (intro try_map_Inr) simp
  then show ?thesis by (simp add: map_nth)
qed

text \<open>Where \<open>load\<close> succeeds, the copying reader does, and reads the same sections.\<close>

lemma diag_load_of_load:
  assumes "load fs path 0 = Inr s" and "views s v" and "ivf_ok v" and "unat (num_vecs s) = length (i_vecs v)"
  obtains x where "diag_load fs path = Inr (Inr x)" "diag_views x v" "x_default_probes x = probes s"
proof -
  note s = load_Inr [OF assms(1)]
  note view = assms(2) [unfolded views_def]
  have n: "unat (num_cents s) = length (i_cents v)" using view by simp
  have rows: "copy_rows (concat (i_cents v)) (length (i_cents v)) = Inr (i_cents v)"
    "copy_rows (concat (i_vecs v)) (length (i_vecs v)) = Inr (i_vecs v)"
    using assms(3) by (auto simp: ivf_ok_def intro!: copy_rows_concat)
  have hdr: "field (mmap s) 0 4 = MAGIC" "u32_from_le_bytes (field (mmap s) 4 8) = 1"
    "(ucast (u32_from_le_bytes (field (mmap s) 20 24)) :: usize) = dims_usize"
    using assms(1) s(1) by (auto simp: load_def Let_def split: if_splits)
  have dp: "ucast (u32_from_le_bytes (field (mmap s) 24 28)) = probes s" using s(5) by simp
  have v: "raw_slice 4 f32_from_le_bytes (mmap s) (unat (cent_off s)) (unat (num_cents s * dims_usize)) = Inr (concat (i_cents v))"
    "raw_slice 8 u64_from_le_bytes (mmap s) (unat (offset_off s)) (unat (num_cents s + 1)) = Inr (i_offsets v)"
    "raw_slice 1 byte_from (mmap s) (unat (vec_off s)) (unat (num_vecs s * dims_usize)) = Inr (concat (i_vecs v))"
    "sub_slice (mmap s) (unat (label_off s)) (unat (label_off s + num_vecs s)) = Inr (i_labels v)"
    using view by simp_all
  note sections = v [unfolded s(9) s(8) s(7) s(6)]
  have big: "\<not> length (mmap s) < unat (32 + num_cents s * dims_usize * 4 + (num_cents s + 1) * 8
      + num_vecs s * dims_usize + num_vecs s)"
    using s(10) by (simp only: s(9) s(8) s(7) not_less)
  have small: "\<not> length (mmap s) < 32" using s(2) by simp
  let ?x = "\<lparr>x_num_cents = num_cents s, x_num_vecs = num_vecs s, x_default_probes = probes s,
    x_centroids = i_cents v, x_offsets = i_offsets v, x_vecs = i_vecs v, x_labels = map (\<lambda>b. b = 1) (i_labels v)\<rparr>"
  have "diag_load fs path = Inr (Inr ?x)"
    unfolding diag_load_def s(1) option.case Let_def hdr(2,3) s(3) [symmetric] s(4) [symmetric] dp
      if_not_P [OF small] if_not_P [OF big] sections n assms(4) rows and_then_simps
    by (simp add: hdr(1))
  then show thesis by (rule that) (simp_all add: diag_views_def n)
qed

lemma diag_load_written:
  assumes "fs path = Some (index_bytes centroids clusters nv nc dp)" and "rows_ok centroids clusters"
    and "list_all (list_all f32_finite) centroids"
    and "unat nc = length centroids" and "unat nv = sizes_sum clusters"
    and small: "layout_size (length centroids) (sizes_sum clusters) < 2 ^ 64"
  obtains x where "diag_load fs path = Inr (Inr x)" "diag_views x (ivf_of centroids clusters)"
    "x_default_probes x = ucast dp"
proof -
  obtain s where s: "load fs path 0 = Inr s" "views s (ivf_of centroids clusters)"
    "probes s = ucast dp" "num_vecs s = nv"
    using load_written [where fs = fs and path = path and r = 0, OF assms(1,2,4,5) small] by auto
  have "sizes_sum clusters < 2 ^ 64" using small by (simp add: layout_size_def)
  then have ok: "ivf_ok (ivf_of centroids clusters)" by (rule ivf_of_ok [OF assms(2,3)])
  have "unat (num_vecs s) = length (i_vecs (ivf_of centroids clusters))"
    using assms(5) s(4) by (simp add: ivf_of_def length_concat_clusters)
  from diag_load_of_load [OF s(1,2) ok this] s(3) that show thesis by metis
qed

section \<open>The instrumented search\<close>

definition diag_candidate :: "ivf \<Rightarrow> i8 list \<Rightarrow> nat \<Rightarrow> diag_cand" where
  "diag_candidate v q vi = (vi, dist_int8 (i_vecs v ! vi) q, i_labels v ! vi = 1)"

definition diag_query :: "f32 list \<Rightarrow> i8 list" where
  "diag_query query = map (\<lambda>i. quantize_diag (query ! i)) [0..<DIMS]"

lemma all_cent_dists_eq:
  assumes "diag_views x v" shows "all_cent_dists x query = Inr (cent_dist_list v query)"
  unfolding all_cent_dists_def cent_dist_list_def
  using assms by (simp add: diag_views_def) (intro try_map_Inr, simp add: square_distance_eq)

lemma diag_scan_cluster_eq:
  assumes "diag_views x v" and "ivf_ok v" and "ci < length (i_cents v)"
  shows "diag_scan_cluster x q (seen, cands) ci =
    and_then (try_fold diag_offer cands (map (diag_candidate v q) (cluster_range v ci)))
      (\<lambda>cands'. Inr (seen @ cluster_range v ci, cands'))"
proof -
  have scan: "try_fold (diag_scan_vector x q) (seen, cands) vis =
      and_then (try_fold diag_offer cands (map (diag_candidate v q) vis)) (\<lambda>cands'. Inr (seen @ vis, cands'))"
    if "\<forall>vi\<in>set vis. vi < length (i_vecs v)" for vis
    using that
  proof (induction vis arbitrary: seen cands)
    case (Cons vi vis)
    have "diag_scan_vector x q (seen, cands) vi
        = and_then (diag_offer cands (diag_candidate v q vi)) (\<lambda>cands'. Inr (seen @ [vi], cands'))"
      using Cons.prems assms(1,2)
      by (simp add: diag_scan_vector_def diag_views_def ivf_ok_def diag_candidate_def dist_int8_diag_eq)
    with Cons show ?case by (cases "diag_offer cands (diag_candidate v q vi)") simp_all
  qed simp
  have "length (i_offsets v) = length (i_cents v) + 1" "unat (i_offsets v ! (ci + 1)) \<le> length (i_vecs v)"
    using assms(2,3) by (simp_all add: ivf_ok_def)
  then show ?thesis
    using assms(1,3) scan [of "cluster_range v ci"]
    by (simp add: diag_scan_cluster_def diag_views_def cluster_range_def)
qed

lemma diag_scan_all:
  assumes "diag_views x v" and "ivf_ok v" and "\<forall>ci\<in>set near. ci < length (i_cents v)"
  shows "try_fold (diag_scan_cluster x q) (seen, cands) near =
    and_then (try_fold diag_offer cands (map (diag_candidate v q) (concat (map (cluster_range v) near))))
      (\<lambda>cands'. Inr (seen @ concat (map (cluster_range v) near), cands'))"
  using assms(3)
proof (induction near arbitrary: seen cands)
  case (Cons ci near)
  have "diag_scan_cluster x q (seen, cands) ci =
      and_then (try_fold diag_offer cands (map (diag_candidate v q) (cluster_range v ci)))
        (\<lambda>cands'. Inr (seen @ cluster_range v ci, cands'))"
    using Cons.prems by (intro diag_scan_cluster_eq [OF assms(1,2)]) simp
  with Cons show ?case by (simp add: try_fold_append and_then_assoc)
qed simp

lemma diagnostic_search_spec:
  assumes contracts: "select_contract sel" "sort_contract srt" and v: "diag_views x v" "ivf_ok v"
  obtains r where "diagnostic_search sel srt x query = Inr r"
    "nearest_clusters v query (min 3 (length (i_cents v))) (probed_cluster_indices r)"
    "scanned_vector_indices r = concat (map (cluster_range v) (probed_cluster_indices r))"
    "k_smallest diag_key 5 (mset (map (diag_candidate v (diag_query query)) (scanned_vector_indices r)))
       (mset (returned_neighbors r))"
    "ivf_fraud_count r = length (filter (\<lambda>(_, _, f). f) (returned_neighbors r))"
proof -
  let ?p = "min 3 (length (i_cents v))" and ?pr = "min PROBES (x_num_cents x)"
  have p: "unat ?pr = ?p" using v(1) by (simp add: diag_views_def min_def PROBES_def word_le_nat_alt)
  have "0 < ?p \<or> i_cents v = []" by (cases "i_cents v") simp_all
  from nearest_first_ivf [OF contracts v(2) p min.cobounded2 this] obtain ds where
    ds: "nearest_first sel srt cmp_cent_dist ?pr (cent_dist_list v query) = Inr ds"
    "\<forall>d\<in>set ds. cd_idx d < length (i_cents v)" "nearest_clusters v query ?p (map cd_idx (take ?p ds))" by blast
  let ?near = "map cd_idx (take ?p ds)" and ?q = "diag_query query"
  let ?vis = "concat (map (cluster_range v) ?near)"
  have in_range: "\<forall>ci\<in>set ?near. ci < length (i_cents v)" using ds(2) by (auto dest: in_set_takeD)
  obtain h where h: "try_fold diag_offer [] (map (diag_candidate v ?q) ?vis) = Inr h"
    "k_smallest diag_key K (mset (map (diag_candidate v ?q) ?vis)) (mset h)"
    using diag_best.scan_spec [of "map (diag_candidate v ?q) ?vis"] by (auto simp: list_all_iff)
  let ?r = "\<lparr>probed_cluster_indices = ?near, scanned_vector_indices = ?vis, returned_neighbors = h,
    ivf_fraud_count = length (filter (\<lambda>(_, _, fraud). fraud) h)\<rparr>"
  have "try_fold (diag_scan_cluster x ?q) ([], []) ?near = Inr (?vis, h)"
    using diag_scan_all [OF v in_range, of ?q "[]" "[]"] h(1) by simp
  then have "diagnostic_search sel srt x query = Inr ?r"
    unfolding diagnostic_search_def Let_def all_cent_dists_eq [OF v(1)] and_then_simps ds(1) p diag_query_def [symmetric]
    by simp
  then show thesis by (rule that) (use ds(3) h(2) in \<open>simp_all add: K_def\<close>)
qed

section \<open>The brute-force search\<close>

definition true_candidates :: "(f32 list \<times> bool) list \<Rightarrow> f32 list \<Rightarrow> true_nn list" where
  "true_candidates refs query =
     map (\<lambda>(idx, vec, is_fraud). (idx, centroid_distance query vec, is_fraud)) (List.enumerate 0 refs)"

definition finite_refs :: "(f32 list \<times> bool) list \<Rightarrow> bool" where
  "finite_refs refs \<longleftrightarrow> (\<forall>(vec, _)\<in>set refs. length vec = DIMS \<and> (\<forall>a\<in>set vec. f32_finite a))"

lemma enumerate_mem: "(i, y) \<in> set (List.enumerate n xs) \<Longrightarrow> y \<in> set xs"
  by (auto simp: in_set_enumerate_eq)

lemma brute_force_spec:
  assumes "sort_contract srt" and "finite_refs refs" and "\<forall>j<DIMS. \<not> is_nan32 (query ! j)"
  obtains nn where "brute_force_5nn srt refs query = Inr nn"
    "sorted_wrt (\<lambda>a b. nn_key a \<le> nn_key b) nn"
    "k_smallest nn_key 5 (mset (true_candidates refs query)) (mset nn)"
proof -
  have num: "nn_number x" if "x \<in> set (true_candidates refs query)" for x
  proof -
    from that obtain i vec f where x: "x = (i, centroid_distance query vec, f)"
      and "(i, vec, f) \<in> set (List.enumerate 0 refs)"
      by (auto simp: true_candidates_def)
    then have "(vec, f) \<in> set refs" by (blast dest: enumerate_mem)
    then have "length vec = DIMS" "\<forall>a\<in>set vec. f32_finite a" using assms(2) by (auto simp: finite_refs_def)
    then show ?thesis using centroid_distance_nan [of vec query] assms(3) x by simp
  qed
  have "try_fold (\<lambda>best (idx, vec, is_fraud). bf_offer srt best (idx, square_distance query vec, is_fraud)) []
      (List.enumerate 0 refs) = try_fold (bf_offer srt) [] (true_candidates refs query)"
    unfolding true_candidates_def try_fold_map
    by (rule try_fold_cong) (auto simp: square_distance_eq)
  moreover obtain h where h: "try_fold (bf_offer srt) [] (true_candidates refs query) = Inr h"
    "k_smallest nn_key K (mset (true_candidates refs query)) (mset h)"
    using k_best.scan_spec [OF bf_k_best [OF assms(1)], of "true_candidates refs query"] num
    by (auto simp: list_all_iff)
  moreover have "list_all nn_number h"
    using h(2) num by (auto simp: k_smallest_def list_all_iff dest: mset_subset_eqD)
  then obtain nn where "srt cmp_nearest h = Inr nn" "mset nn = mset h" "sorted_wrt (\<lambda>a b. nn_key a \<le> nn_key b) nn"
    by (rule sort_by_key [OF assms(1)])
  ultimately show thesis by (intro that [of nn]) (simp_all add: brute_force_5nn_def K_def)
qed

section \<open>The cluster of a vector and its rank\<close>

definition in_cluster :: "ivf \<Rightarrow> nat \<Rightarrow> nat \<Rightarrow> bool" where
  "in_cluster v i ci \<longleftrightarrow> unat (i_offsets v ! ci) \<le> i \<and> i < unat (i_offsets v ! (ci + 1))"

lemma find_append: "List.find P (xs @ ys) = (case List.find P xs of None \<Rightarrow> List.find P ys | Some x \<Rightarrow> Some x)"
  by (induction xs) auto

lemma find_cluster_eq:
  assumes "diag_views x v" and "ivf_ok v"
  shows "find_cluster x i =
    (case List.find (in_cluster v i) [0..<length (i_cents v)] of None \<Rightarrow> Inl UnwrapPanic | Some ci \<Rightarrow> Inr ci)"
proof -
  let ?step = "\<lambda>found ci. if found \<noteq> None then Inr found
    else and_then (at_index (x_offsets x) ci) (\<lambda>start. and_then (at_index (x_offsets x) (ci + 1)) (\<lambda>stop.
      Inr (if unat start \<le> i \<and> i < unat stop then Some ci else None)))"
  have "try_fold ?step None [0..<n] = Inr (List.find (in_cluster v i) [0..<n])" if "n \<le> length (i_cents v)" for n
    using that
  proof (induction n)
    case (Suc n)
    then show ?case using assms
      by (cases "List.find (in_cluster v i) [0..<n]")
        (auto simp: try_fold_append find_append in_cluster_def diag_views_def ivf_ok_def at_index_def)
  qed simp
  from this [OF order_refl] show ?thesis using assms(1)
    by (simp add: find_cluster_def diag_views_def)
qed

lemma find_cluster_less:
  assumes "diag_views x v" and "ivf_ok v" and "find_cluster x i = Inr c"
  shows "c < length (i_cents v)"
  using assms(3) unfolding find_cluster_eq [OF assms(1,2)]
  by (auto simp: find_Some_iff split: option.splits)

text \<open>On a written index the offsets say which cluster an entry was written from.\<close>

lemma in_cluster_written:
  assumes "length clusters = length centroids" and "sizes_sum clusters < 2 ^ 64" and "ci < length clusters"
  shows "in_cluster (ivf_of centroids clusters) i ci \<longleftrightarrow>
    sizes_sum (take ci clusters) \<le> i \<and> i < sizes_sum (take ci clusters) + length (clusters ! ci)"
  using assms unat_cluster_offset [OF _ assms(2)]
  by (simp add: in_cluster_def ivf_of_def take_Suc_conv_app_nth)

lemma sizes_sum_take_mono: "m \<le> n \<Longrightarrow> sizes_sum (take m clusters) \<le> sizes_sum (take n clusters)"
  using sizes_sum_take_le [of m "take n clusters"] by (simp add: min_absorb1)

lemma find_cluster_written_aux:
  assumes "diag_views x (ivf_of centroids clusters)" and "ivf_ok (ivf_of centroids clusters)"
    and len: "length clusters = length centroids" and small: "sizes_sum clusters < 2 ^ 64"
  shows "ci < length clusters \<Longrightarrow> j < length (clusters ! ci) \<Longrightarrow> find_cluster x (sizes_sum (take ci clusters) + j) = Inr ci"
    and "sizes_sum clusters \<le> i \<Longrightarrow> find_cluster x i = Inl UnwrapPanic"
proof -
  let ?v = "ivf_of centroids clusters"
  have n: "length (i_cents ?v) = length clusters" by (simp add: ivf_of_def len)
  note mem = in_cluster_written [OF len small]
  have next_le: "sizes_sum (take b clusters) + length (clusters ! b) \<le> sizes_sum (take c clusters)"
    if "b < c" "c \<le> length clusters" for b c
    using sizes_sum_take_mono [of "Suc b" c clusters] that by (simp add: take_Suc_conv_app_nth)
  {
    assume ci: "ci < length clusters" and j: "j < length (clusters ! ci)"
    let ?i = "sizes_sum (take ci clusters) + j"
    have "\<not> in_cluster ?v ?i b" if "b < ci" for b
      using next_le [of b ci] that ci by (simp add: mem)
    moreover have "in_cluster ?v ?i ci" using ci j by (simp add: mem)
    ultimately have "List.find (in_cluster ?v ?i) [0..<length clusters] = Some ci"
      unfolding find_Some_iff using ci by (intro exI [of _ ci]) simp
    then show "find_cluster x ?i = Inr ci" by (simp add: find_cluster_eq [OF assms(1,2)] n)
  }
  assume i: "sizes_sum clusters \<le> i"
  have "\<not> in_cluster ?v i b" if "b < length clusters" for b
    using next_le [of b "length clusters"] that i by (simp add: mem)
  then have "List.find (in_cluster ?v i) [0..<length clusters] = None" by (simp add: find_None_iff)
  then show "find_cluster x i = Inl UnwrapPanic" by (simp add: find_cluster_eq [OF assms(1,2)] n)
qed

text \<open>The position of an element in a sorted list: behind all smaller ones, before all larger ones.\<close>

lemma position_bounds:
  assumes "distinct ds" and sorted: "sorted_wrt (\<lambda>a b. \<not> lt b a) ds" and h: "h < length ds"
    and irrefl: "\<not> lt (ds ! h) (ds ! h)"
  shows "card {d \<in> set ds. lt d (ds ! h)} < h + 1" "h + 1 \<le> card {d \<in> set ds. \<not> lt (ds ! h) d}"
proof -
  have ord: "\<not> lt (ds ! b) (ds ! a)" if "a < b" "b < length ds" for a b
    using sorted_wrt_nth_less [OF sorted] that by blast
  have "a < h" if "a < length ds" "lt (ds ! a) (ds ! h)" for a
    using that ord [of h a] irrefl by (cases "a = h") (auto intro: ccontr)
  then have "d \<in> set (take h ds)" if "d \<in> set ds" "lt d (ds ! h)" for d
    using that by (metis in_set_conv_nth length_take min_less_iff_conj nth_take)
  then have "{d \<in> set ds. lt d (ds ! h)} \<subseteq> set (take h ds)" by blast
  then have "card {d \<in> set ds. lt d (ds ! h)} \<le> card (set (take h ds))" by (intro card_mono) simp_all
  also have "\<dots> \<le> h" using card_length [of "take h ds"] by simp
  finally show "card {d \<in> set ds. lt d (ds ! h)} < h + 1" by simp
  have "\<not> lt (ds ! h) (ds ! a)" if "a < h + 1" for a
    using that ord [of a h] h irrefl by (cases "a = h") auto
  then have "\<not> lt (ds ! h) d" if "d \<in> set (take (h + 1) ds)" for d
    using that h by (auto simp: in_set_conv_nth)
  then have "set (take (h + 1) ds) \<subseteq> {d \<in> set ds. \<not> lt (ds ! h) d}" by (auto dest: in_set_takeD)
  then have "card (set (take (h + 1) ds)) \<le> card {d \<in> set ds. \<not> lt (ds ! h) d}" by (intro card_mono) simp_all
  moreover have "card (set (take (h + 1) ds)) = h + 1"
    using h distinct_card [of "take (h + 1) ds"] assms(1) by simp
  ultimately show "h + 1 \<le> card {d \<in> set ds. \<not> lt (ds ! h) d}" by simp
qed

text \<open>The rank of a cluster: more than the clusters that are nearer, at most those that are not farther.\<close>

lemma cluster_rank_spec:
  assumes "sort_contract srt" and v: "diag_views x v" "ivf_ok v" and c: "find_cluster x i = Inr c"
  obtains r where "cluster_rank_of_vec_in_centroid_order srt x query i = Inr r"
    "card {j. j < length (i_cents v) \<and> centroid_distance query (i_cents v ! j) < centroid_distance query (i_cents v ! c)} < r"
    "r \<le> card {j. j < length (i_cents v) \<and> \<not> centroid_distance query (i_cents v ! c) < centroid_distance query (i_cents v ! j)}"
proof -
  let ?D = "\<lambda>j. centroid_distance query (i_cents v ! j)" and ?n = "length (i_cents v)"
  obtain ds where ds: "srt cmp_cent_dist (cent_dist_list v query) = Inr ds" "mset ds = mset (cent_dist_list v query)"
    "sorted_wrt (in_order cmp_cent_dist) ds"
    using sort_contractD [OF assms(1) cent_dist_list_total [OF v(2)]] by blast
  have elems: "set ds = (\<lambda>j. \<lparr>cd_idx = j, cd_dist = ?D j\<rparr>) ` {..<?n}"
    using mset_eq_setD [OF ds(2)] by (auto simp: cent_dist_list_def)
  have "distinct (cent_dist_list v query)"
    by (auto simp: cent_dist_list_def distinct_map inj_on_def)
  then have dis: "distinct ds" by (simp add: mset_eq_imp_distinct_iff [OF ds(2)])
  let ?is = "\<lambda>d. cd_idx d \<noteq> c"
  define h where "h = length (takeWhile ?is ds)"
  have "\<lparr>cd_idx = c, cd_dist = ?D c\<rparr> \<in> set ds" using find_cluster_less [OF v c] by (simp add: elems)
  then have "takeWhile ?is ds \<noteq> ds" unfolding takeWhile_eq_all_conv by force
  then have h: "h < length ds" unfolding h_def
    by (metis append_Nil2 length_append linorder_neqE_nat not_add_less1 takeWhile_dropWhile_id length_0_conv add_cancel_right_right)
  then have "cd_idx (ds ! h) = c" using nth_length_takeWhile [of ?is ds] by (simp add: h_def)
  moreover have "ds ! h \<in> set ds" using h by simp
  ultimately have at: "ds ! h = \<lparr>cd_idx = c, cd_dist = ?D c\<rparr>" by (auto simp: elems)
  let ?less = "\<lambda>a b. cd_dist a < cd_dist b"
  have "in_order cmp_cent_dist = (\<lambda>a b. \<not> ?less b a)" by (intro ext) (rule cmp_cent_dist_in_order)
  then have "sorted_wrt (\<lambda>a b. \<not> ?less b a) ds" using ds(3) by simp
  from position_bounds [OF dis this h] have pos:
    "card {d \<in> set ds. ?less d (ds ! h)} < h + 1" "h + 1 \<le> card {d \<in> set ds. \<not> ?less (ds ! h) d}"
    by (auto simp: f32_less_iff)
  have count: "card {j. j < ?n \<and> P (?D j)} = card {d \<in> set ds. P (cd_dist d)}" for P
  proof -
    have "inj_on cd_idx {d \<in> set ds. P (cd_dist d)}" unfolding elems by (rule inj_onI) auto
    moreover have "cd_idx ` {d \<in> set ds. P (cd_dist d)} = {j. j < ?n \<and> P (?D j)}" unfolding elems by force
    ultimately show ?thesis by (metis card_image)
  qed
  have bounds: "card {j. j < ?n \<and> ?D j < ?D c} < h + 1" "h + 1 \<le> card {j. j < ?n \<and> \<not> ?D c < ?D j}"
    using pos count [of "\<lambda>d. d < ?D c"] count [of "\<lambda>d. \<not> ?D c < d"] by (simp_all add: at)
  have "cluster_rank_of_vec_in_centroid_order srt x query i = Inr (h + 1)"
    using h by (simp add: cluster_rank_of_vec_in_centroid_order_def c all_cent_dists_eq [OF v(1)] ds(1) h_def Let_def)
  from that [OF this bounds] show thesis .
qed

section \<open>Properties\<close>

lemma demo_diag:
  obtains x where "diag_load (demo_files 1) ''i'' = Inr (Inr x)" "diag_views x (ivf_of demo_cents demo_clusters)"
    "ivf_ok (ivf_of demo_cents demo_clusters)"
proof -
  have "demo_files 1 ''i'' = Some (index_bytes demo_cents demo_clusters 2 2 1)" by (simp add: demo_files_def)
  from diag_load_written [where fs = "demo_files 1" and path = "''i''", OF this demo_ok(1-5)] ivf_of_ok [OF demo_ok(1,2,6)] that show thesis by blast
qed

text \<open>C25: The classifier reads an index that \<open>write_index\<close> wrote as the service does: the same
  centroids and offsets, the quantized vectors row by row, and the labels as booleans.\<close>

theorem diag_load_reads_written:
  assumes "write_index dev path centroids clusters nv nc dp fs = Inr fs'"
    and "rows_ok centroids clusters" and "list_all (list_all f32_finite) centroids"
    and "unat nc = length centroids" and "unat nv = sizes_sum clusters"
    and "layout_size (length centroids) (sizes_sum clusters) < 2 ^ 64"
  shows "\<exists>x. diag_load fs' path = Inr (Inr x) \<and> unat (x_num_cents x) = length centroids \<and>
    x_centroids x = centroids \<and> x_offsets x = cluster_offsets clusters \<and>
    x_vecs x = map e_vec (concat clusters) \<and> x_labels x = map e_fraud (concat clusters) \<and>
    x_default_probes x = ucast dp"
proof -
  have "fs' path = Some (index_bytes centroids clusters nv nc dp)"
    using write_index_Inr_aux [OF assms(1)] by simp
  from diag_load_written [where fs = fs' and path = path, OF this assms(2-6)] obtain x where
    x: "diag_load fs' path = Inr (Inr x)" "diag_views x (ivf_of centroids clusters)" "x_default_probes x = ucast dp"
    by blast
  have "map (\<lambda>b. b = 1) (map (\<lambda>e. if e_fraud e then 1 else 0 :: u8) es) = map e_fraud es" for es by auto
  with x show ?thesis by (auto simp: diag_views_def ivf_of_def)
qed

theorem diag_load_reads_written_witness:
  "\<exists>fs' x. write_index demo_device ''i'' demo_cents demo_clusters 2 2 1 Map.empty = Inr fs' \<and>
    diag_load fs' ''i'' = Inr (Inr x) \<and> x_labels x = [False, True]"
  using diag_load_reads_written [OF demo_write demo_ok(1-5), of Map.empty] demo_write [of Map.empty]
  by (fastforce simp: demo_clusters_def)

text \<open>C17: On a well-formed index \<open>diagnostic_search\<close> does not panic and reports truthfully: the three
  clusters it probed are nearest ones, the vectors it lists are exactly those of these clusters in
  order of visit, the neighbours it returns are five nearest of the vectors listed, each with its
  index, its distance to the truncated query and its label, and its count is that of the frauds among
  them.\<close>

theorem diagnostic_search_reports:
  assumes "select_contract sel" and "sort_contract srt" and "diag_views x v" and "ivf_ok v"
  shows "\<exists>r. diagnostic_search sel srt x query = Inr r \<and>
    nearest_clusters v query (min 3 (length (i_cents v))) (probed_cluster_indices r) \<and>
    scanned_vector_indices r = concat (map (cluster_range v) (probed_cluster_indices r)) \<and>
    k_smallest diag_key 5 (mset (map (diag_candidate v (diag_query query)) (scanned_vector_indices r)))
      (mset (returned_neighbors r)) \<and>
    ivf_fraud_count r = length (filter (\<lambda>(_, _, f). f) (returned_neighbors r))"
  by (rule diagnostic_search_spec [OF assms, of query]) blast

theorem diagnostic_search_reports_witness:
  "\<exists>x r. diag_load (demo_files 1) ''i'' = Inr (Inr x) \<and>
    diagnostic_search insertion_select insertion_sort x (replicate DIMS 1) = Inr r \<and>
    length (probed_cluster_indices r) = 2"
proof (rule demo_diag)
  fix x assume x: "diag_load (demo_files 1) ''i'' = Inr (Inr x)" "diag_views x (ivf_of demo_cents demo_clusters)"
    "ivf_ok (ivf_of demo_cents demo_clusters)"
  have "length (i_cents (ivf_of demo_cents demo_clusters)) = 2" by (simp add: ivf_of_def demo_cents_def)
  with diagnostic_search_reports [OF insertion_contracts x(2,3), of "replicate DIMS 1"] x(1)
  show ?thesis by (auto simp: nearest_clusters_def Let_def)
qed

text \<open>C19: Over finite references and for a query without NaN, \<open>brute_force_5nn\<close> returns, nearest first,
  five references none of which is farther than one left out, each with its position in the
  corpus, its distance in single precision and its label.\<close>

theorem brute_force_nearest:
  assumes "sort_contract srt" and "finite_refs refs" and "\<forall>j<DIMS. \<not> is_nan32 (query ! j)"
  shows "\<exists>nn. brute_force_5nn srt refs query = Inr nn \<and>
    sorted_wrt (\<lambda>(_, d, _) (_, e, _). \<not> e < d) nn \<and>
    k_smallest nn_key 5 (mset (true_candidates refs query)) (mset nn)"
proof (rule brute_force_spec [OF assms])
  fix nn assume nn: "brute_force_5nn srt refs query = Inr nn" "sorted_wrt (\<lambda>a b. nn_key a \<le> nn_key b) nn"
    "k_smallest nn_key 5 (mset (true_candidates refs query)) (mset nn)"
  have "sorted_wrt (\<lambda>(_, d, _) (_, e, _). \<not> e < d) nn"
    by (rule sorted_wrt_mono_rel [OF _ nn(2)]) (auto simp: f32_less_iff)
  with nn show ?thesis by blast
qed

theorem brute_force_nearest_witness:
  "\<exists>nn. brute_force_5nn insertion_sort [(replicate DIMS 0, False), (replicate DIMS 1, True)] (replicate DIMS 1) = Inr nn \<and>
    length nn = 2"
proof -
  have "finite_refs [(replicate DIMS 0, False), (replicate DIMS 1, True)]"
    by (simp add: finite_refs_def f32_finite_iff)
  moreover have "\<forall>j<DIMS. \<not> is_nan32 (replicate DIMS 1 ! j)" by (simp add: is_nan32_iff)
  ultimately obtain nn where nn: "brute_force_5nn insertion_sort [(replicate DIMS 0, False), (replicate DIMS 1, True)] (replicate DIMS 1) = Inr nn"
    "k_smallest nn_key 5 (mset (true_candidates [(replicate DIMS 0, False), (replicate DIMS 1, True)] (replicate DIMS 1))) (mset nn)"
    using brute_force_nearest [OF insertion_contracts(2)] by blast
  from nn(2) have "length nn = 2" by (simp add: k_smallest_def true_candidates_def)
  with nn(1) show ?thesis by blast
qed

text \<open>\<open>find_cluster\<close> on a written index: the position of the \<open>j\<close>-th entry of cluster \<open>ci\<close> is
  found in \<open>ci\<close>, empty clusters notwithstanding, and a position past the last vector panics.\<close>

theorem find_cluster_written:
  assumes "diag_views x (ivf_of centroids clusters)" and "ivf_ok (ivf_of centroids clusters)"
    and "length clusters = length centroids" and "sizes_sum clusters < 2 ^ 64"
  shows "(\<forall>ci<length clusters. \<forall>j<length (clusters ! ci).
      find_cluster x (sizes_sum (take ci clusters) + j) = Inr ci) \<and>
    (\<forall>i\<ge>sizes_sum clusters. find_cluster x i = Inl UnwrapPanic)"
  using find_cluster_written_aux [OF assms] by blast

theorem find_cluster_written_witness:
  "\<exists>x. diag_load (demo_files 1) ''i'' = Inr (Inr x) \<and> find_cluster x 1 = Inr 1 \<and> find_cluster x 2 = Inl UnwrapPanic"
proof (rule demo_diag)
  fix x assume x: "diag_load (demo_files 1) ''i'' = Inr (Inr x)" "diag_views x (ivf_of demo_cents demo_clusters)"
    "ivf_ok (ivf_of demo_cents demo_clusters)"
  have *: "length demo_clusters = length demo_cents" "sizes_sum demo_clusters = 2" "length demo_clusters = 2"
    "demo_clusters ! 1 \<noteq> []" "sizes_sum (take 1 demo_clusters) = 1"
    by (simp_all add: demo_clusters_def demo_cents_def)
  from find_cluster_written [OF x(2,3) *(1)] *(2)
  have "\<forall>ci<2. \<forall>j<length (demo_clusters ! ci). find_cluster x (sizes_sum (take ci demo_clusters) + j) = Inr ci"
    "\<forall>i\<ge>2. find_cluster x i = Inl UnwrapPanic" by (simp_all add: *(3))
  from this(1) [rule_format, of 1 0] this(2) *(4,5) x(1) show ?thesis by auto
qed



end
