(* ===== verification/Unwrapper.thy ===== *)
theory Unwrapper
  imports Prelude
begin

text \<open>
  The streaming adapter of buildindex.rs, \<open>JsonArrayUnwrapper\<close>: a \<open>Read\<close> that strips the
  brackets of one JSON array and turns the commas between its elements into blanks. \<open>read\<close> is
  modelled with its buffer updated in place, over an inner reader that answers in chunks of its
  own choice. The specification is a transducer of the whole input; the refinement says that
  the bytes read are its output whatever the chunks and the buffer sizes.
\<close>

section \<open>The inner reader\<close>

text \<open>What is left to read: chunks of bytes, or a failure. An empty answer is the end.\<close>

datatype 'e read_event = Chunk "u8 list" | Fail 'e

fun inner_read :: "nat \<Rightarrow> 'e read_event list \<Rightarrow> ('e + u8 list) \<times> 'e read_event list" where
  "inner_read k [] = (Inr [], [])"
| "inner_read k (Fail e # es) = (Inl e, es)"
| "inner_read k (Chunk bs # es) =
     (if length bs \<le> k then (Inr bs, es) else (Inr (take k bs), Chunk (drop k bs) # es))"

section \<open>The code\<close>

definition open_bracket :: u8 where "open_bracket = 0x5B"
definition close_bracket :: u8 where "close_bracket = 0x5D"
definition open_brace :: u8 where "open_brace = 0x7B"
definition close_brace :: u8 where "close_brace = 0x7D"
definition comma :: u8 where "comma = 0x2C"
definition blank :: u8 where "blank = 0x20"

lemmas byte_consts = open_bracket_def close_bracket_def open_brace_def close_brace_def comma_def blank_def

record scan_state =
  started :: bool
  depth :: i32
  finished :: bool

record 'e unwrapper =
  inner :: "'e read_event list"
  scan :: scan_state

definition unwrapper_new :: "'e read_event list \<Rightarrow> 'e unwrapper" where
  "unwrapper_new r = \<lparr>inner = r, scan = \<lparr>started = False, depth = 0, finished = False\<rparr>\<rparr>"

text \<open>The loop over the \<open>n\<close> bytes that were read into the buffer, from index \<open>i\<close> on.\<close>

function rewrite_loop ::
  "nat \<Rightarrow> nat \<Rightarrow> u8 list \<Rightarrow> nat \<Rightarrow> scan_state \<Rightarrow> u8 list \<times> nat \<times> scan_state" where
  "rewrite_loop i n buf out_pos st =
     (if n \<le> i then (buf, out_pos, st)
      else let b = buf ! i
      in if \<not> started st then
           rewrite_loop (i + 1) n buf out_pos (if b = open_bracket then st\<lparr>started := True\<rparr> else st)
         else if b = open_brace \<or> b = open_bracket then
           rewrite_loop (i + 1) n (buf[out_pos := b]) (out_pos + 1) (st\<lparr>depth := depth st + 1\<rparr>)
         else if (b = close_brace \<or> b = close_bracket) \<and> sint (depth st) > 0 then
           rewrite_loop (i + 1) n (buf[out_pos := b]) (out_pos + 1) (st\<lparr>depth := depth st - 1\<rparr>)
         else if b = close_bracket then (buf, out_pos, st\<lparr>finished := True\<rparr>)
         else if b = comma \<and> depth st = 0 then
           rewrite_loop (i + 1) n (buf[out_pos := blank]) (out_pos + 1) st
         else rewrite_loop (i + 1) n (buf[out_pos := b]) (out_pos + 1) st)"
  by pat_completeness auto
termination by (relation "measure (\<lambda>(i, n, _). n - i)") auto

declare rewrite_loop.simps [simp del]

text \<open>The bytes an inner reader still holds; every round of the outer loop consumes some.\<close>

fun events_size :: "'e read_event list \<Rightarrow> nat" where
  "events_size [] = 0"
| "events_size (Fail e # es) = Suc (events_size es)"
| "events_size (Chunk bs # es) = Suc (length bs) + events_size es"

lemma inner_read_size:
  "inner_read k es = (Inr bs, es') \<Longrightarrow> bs \<noteq> [] \<Longrightarrow> events_size es' < events_size es"
  by (cases "(k, es)" rule: inner_read.cases) (auto split: if_splits)

text \<open>
  \<open>Read::read\<close> into a buffer of length \<open>k\<close>; the result is the filled part of the buffer. The
  outer loop reads again as long as every byte of a chunk was skipped.
\<close>

function unwrapper_read_loop :: "nat \<Rightarrow> 'e unwrapper \<Rightarrow> ('e + u8 list) \<times> 'e unwrapper" where
  "unwrapper_read_loop k u =
     (case inner_read k (inner u) of
        (Inl e, es) \<Rightarrow> (Inl e, u\<lparr>inner := es\<rparr>)
      | (Inr buf, es) \<Rightarrow>
          if buf = [] then (Inr [], u\<lparr>inner := es, scan := (scan u)\<lparr>finished := True\<rparr>\<rparr>)
          else (case rewrite_loop 0 (length buf) buf 0 (scan u) of
            (buf', out_pos, st) \<Rightarrow>
              if 0 < out_pos \<or> finished st then (Inr (take out_pos buf'), u\<lparr>inner := es, scan := st\<rparr>)
              else unwrapper_read_loop k (u\<lparr>inner := es, scan := st\<rparr>)))"
  by pat_completeness auto
termination
  by (relation "measure (\<lambda>(k, u). events_size (inner u))") (auto intro: inner_read_size dest: sym)

declare unwrapper_read_loop.simps [simp del]

definition unwrapper_read :: "nat \<Rightarrow> 'e unwrapper \<Rightarrow> ('e + u8 list) \<times> 'e unwrapper" where
  "unwrapper_read k u = (if finished (scan u) \<or> k = 0 then (Inr [], u) else unwrapper_read_loop k u)"

text \<open>A caller that reads, with buffers of the given sizes, until it gets nothing.\<close>

fun read_to_end :: "nat list \<Rightarrow> 'e unwrapper \<Rightarrow> 'e + (u8 list \<times> bool)" where
  "read_to_end [] u = Inr ([], False)"
| "read_to_end (k # ks) u =
     (case unwrapper_read k u of
        (Inl e, u') \<Rightarrow> Inl e
      | (Inr bs, u') \<Rightarrow>
          if bs = [] then Inr ([], True)
          else and_then (read_to_end ks u') (\<lambda>(rest, at_end). Inr (bs @ rest, at_end)))"

section \<open>The specification\<close>

text \<open>One byte: what it emits, and the state after it.\<close>

definition scan_byte :: "scan_state \<Rightarrow> u8 \<Rightarrow> u8 list \<times> scan_state" where
  "scan_byte st b =
     (if finished st then ([], st)
      else if \<not> started st then ([], if b = open_bracket then st\<lparr>started := True\<rparr> else st)
      else if b = open_brace \<or> b = open_bracket then ([b], st\<lparr>depth := depth st + 1\<rparr>)
      else if (b = close_brace \<or> b = close_bracket) \<and> sint (depth st) > 0 then ([b], st\<lparr>depth := depth st - 1\<rparr>)
      else if b = close_bracket then ([], st\<lparr>finished := True\<rparr>)
      else if b = comma \<and> depth st = 0 then ([blank], st)
      else ([b], st))"

fun transduce :: "scan_state \<Rightarrow> u8 list \<Rightarrow> u8 list \<times> scan_state" where
  "transduce st [] = ([], st)"
| "transduce st (b # bs) =
     (let (out, st') = scan_byte st b; (rest, st'') = transduce st' bs in (out @ rest, st''))"

definition unwrap_spec :: "u8 list \<Rightarrow> u8 list" where
  "unwrap_spec bs = fst (transduce \<lparr>started = False, depth = 0, finished = False\<rparr> bs)"

lemma transduce_append:
  "transduce st (xs @ ys) =
     (let (out, st') = transduce st xs; (rest, st'') = transduce st' ys in (out @ rest, st''))"
  by (induction xs arbitrary: st) (auto simp: Let_def split: prod.splits)

lemma transduce_finished [simp]: "finished st \<Longrightarrow> transduce st bs = ([], st)"
  by (induction bs) (simp_all add: scan_byte_def)

section \<open>The in-place loop refines the transducer\<close>

lemma scan_byte_out:
  "fst (scan_byte st b) = [] \<or> (\<exists>c. fst (scan_byte st b) = [c]) \<and> \<not> finished (snd (scan_byte st b))"
  by (simp add: scan_byte_def)

text \<open>One round of the loop is one step of the transducer.\<close>

lemma rewrite_loop_step:
  assumes "i < n" and "\<not> finished st" and "scan_byte st (buf ! i) = (out, st')"
  shows "rewrite_loop i n buf out_pos st =
    (if finished st' then (buf, out_pos, st')
     else rewrite_loop (i + 1) n (if out = [] then buf else buf[out_pos := hd out]) (out_pos + length out) st')"
  using assms by (subst rewrite_loop.simps) (auto simp: scan_byte_def Let_def split: if_splits)

text \<open>Writing behind the reading position leaves the unread bytes alone.\<close>

lemma rewrite_loop_spec:
  assumes "out_pos \<le> i" and "i \<le> n" and "n \<le> length buf" and "\<not> finished st"
    and "rewrite_loop i n buf out_pos st = (buf', out_pos', st')"
  shows "transduce st (drop i (take n buf)) = (out, st'') \<Longrightarrow>
    take out_pos' buf' = take out_pos buf @ out \<and> out_pos' = out_pos + length out \<and> st' = st''"
  using assms
proof (induction "n - i" arbitrary: i buf out_pos st out)
  case 0
  then have "n \<le> i" by simp
  with 0 show ?case by (simp add: rewrite_loop.simps)
next
  case (Suc m)
  then have i: "i < n" by simp
  obtain o1 st1 where b: "scan_byte st (buf ! i) = (o1, st1)" by (cases "scan_byte st (buf ! i)")
  have "drop i (take n buf) = buf ! i # drop (i + 1) (take n buf)"
    using i Suc.prems(4) by (simp add: Cons_nth_drop_Suc [symmetric])
  then obtain o2 where o2: "transduce st1 (drop (i + 1) (take n buf)) = (o2, st'')" "out = o1 @ o2"
    using Suc.prems(1) b by (auto simp: Let_def split: prod.splits)
  show ?case
  proof (cases "finished st1")
    case True
    then have "o1 = []" using b scan_byte_out [of st "buf ! i"] by auto
    with True o2 Suc.prems(6) rewrite_loop_step [OF i Suc.prems(5) b] show ?thesis by simp
  next
    case False
    let ?buf = "if o1 = [] then buf else buf[out_pos := hd o1]"
    have o1: "o1 = [] \<or> (\<exists>c. o1 = [c])" using b scan_byte_out [of st "buf ! i"] by (metis fst_conv)
    have rest: "drop (i + 1) (take n ?buf) = drop (i + 1) (take n buf)"
      using Suc.prems(2) by (simp add: drop_take drop_update_cancel)
    have "take (out_pos + length o1) ?buf = take out_pos buf @ o1"
    proof (cases o1)
      case (Cons c cs)
      then have "o1 = [c]" "out_pos < length buf" using o1 Suc.prems(2,4) i by auto
      then show ?thesis by (simp add: take_Suc_conv_app_nth)
    qed simp
    moreover have "m = n - (i + 1)" "out_pos + length o1 \<le> i + 1" "i + 1 \<le> n" "n \<le> length ?buf"
      using Suc.hyps(2) Suc.prems(2,4) o1 i by auto
    moreover have "rewrite_loop (i + 1) n ?buf (out_pos + length o1) st1 = (buf', out_pos', st')"
      using Suc.prems(6) rewrite_loop_step [OF i Suc.prems(5) b] False by simp
    ultimately show ?thesis
      using Suc.hyps(1) [of "i + 1" st1 ?buf o2 "out_pos + length o1"] o2 rest False by auto
  qed
qed

section \<open>Reading refines the transducer\<close>

text \<open>What an adapter still has to deliver.\<close>

fun events_bytes :: "'e read_event list \<Rightarrow> u8 list" where
  "events_bytes [] = []"
| "events_bytes (Fail e # es) = []"
| "events_bytes (Chunk [] # es) = []"
| "events_bytes (Chunk bs # es) = bs @ events_bytes es"

definition no_failure :: "'e read_event list \<Rightarrow> bool" where
  "no_failure es \<longleftrightarrow> list_all (\<lambda>ev. case ev of Fail e \<Rightarrow> False | Chunk bs \<Rightarrow> True) es"

definition pending :: "'e unwrapper \<Rightarrow> u8 list" where
  "pending u = fst (transduce (scan u) (events_bytes (inner u)))"

lemma events_bytes_Chunk: "bs \<noteq> [] \<Longrightarrow> events_bytes (Chunk bs # es) = bs @ events_bytes es"
  by (cases bs) simp_all

lemma inner_read_bytes:
  assumes "inner_read k es = (r, es')" and "0 < k" and "no_failure es"
  obtains bs where "r = Inr bs" "events_bytes es = bs @ (if bs = [] then [] else events_bytes es')"
    "no_failure es'" "length bs \<le> k"
proof (cases es rule: events_bytes.cases)
  case (4 b bs es2)
  let ?bs = "b # bs"
  show thesis
  proof (cases "length ?bs \<le> k")
    case True
    with assms 4 show thesis by (intro that [of ?bs]) (auto simp: no_failure_def)
  next
    case False
    then have "drop k ?bs \<noteq> []" "take k ?bs \<noteq> []" using assms(2) by auto
    moreover have "r = Inr (take k ?bs)" "es' = Chunk (drop k ?bs) # es2"
      using assms(1) 4 False by (simp_all del: take_Cons drop_Cons length_Cons)
    ultimately show thesis using assms(3) 4
      by (intro that [of "take k ?bs"]) (simp_all add: events_bytes_Chunk no_failure_def flip: append_assoc
          del: take_Suc_Cons drop_Suc_Cons)
  qed
qed (use assms that in \<open>auto simp: no_failure_def\<close>)

lemma unwrapper_read_loop_spec:
  assumes "0 < k" and "no_failure (inner u)" and "\<not> finished (scan u)"
    and "unwrapper_read_loop k u = (r, u')"
  shows "\<exists>bs. r = Inr bs \<and> pending u = bs @ pending u' \<and> no_failure (inner u') \<and>
    (bs = [] \<longrightarrow> pending u = [])"
  using assms
proof (induction k u arbitrary: r u' rule: unwrapper_read_loop.induct)
  case (1 k u)
  obtain r1 es where r1: "inner_read k (inner u) = (r1, es)" by (cases "inner_read k (inner u)")
  then obtain bs where bs: "r1 = Inr bs" "events_bytes (inner u) = bs @ (if bs = [] then [] else events_bytes es)"
    "no_failure es" using inner_read_bytes [OF r1 1(2,3)] by metis
  show ?case
  proof (cases "bs = []")
    case True
    with 1(5) r1 bs show ?thesis
      by (auto simp: unwrapper_read_loop.simps [of k u] pending_def)
  next
    case False
    obtain buf' out_pos st where loop: "rewrite_loop 0 (length bs) bs 0 (scan u) = (buf', out_pos, st)"
      by (cases "rewrite_loop 0 (length bs) bs 0 (scan u)") auto
    obtain out st'' where t: "transduce (scan u) bs = (out, st'')" by (cases "transduce (scan u) bs")
    with rewrite_loop_spec [OF _ _ _ 1(4) loop, of out st''] have
      out: "take out_pos buf' = out" "out_pos = length out" "st = st''" by auto
    have pend: "pending u = out @ pending (u\<lparr>inner := es, scan := st\<rparr>)"
      using t bs(2) False out(3) by (simp add: pending_def transduce_append Let_def split: prod.splits)
    show ?thesis
    proof (cases "0 < out_pos \<or> finished st")
      case True
      then have "unwrapper_read_loop k u = (Inr out, u\<lparr>inner := es, scan := st\<rparr>)"
        using r1 bs(1) False loop out by (simp add: unwrapper_read_loop.simps [of k u])
      moreover have "pending (u\<lparr>inner := es, scan := st\<rparr>) = []" if "out = []"
        using that True out by (simp add: pending_def)
      ultimately show ?thesis using 1(5) pend bs(3) by auto
    next
      case again: False
      then have eq: "unwrapper_read_loop k u = unwrapper_read_loop k (u\<lparr>inner := es, scan := st\<rparr>)"
        using r1 bs(1) False loop by (simp add: unwrapper_read_loop.simps [of k u])
      have "out = []" using again out by simp
      moreover have "\<exists>bs'. r = Inr bs' \<and> pending (u\<lparr>inner := es, scan := st\<rparr>) = bs' @ pending u' \<and>
          no_failure (inner u') \<and> (bs' = [] \<longrightarrow> pending (u\<lparr>inner := es, scan := st\<rparr>) = [])"
        using 1(1) [OF r1 [symmetric] bs(1) False loop [symmetric]] again 1(2,5) bs(3) eq by simp
      ultimately show ?thesis using pend by simp
    qed
  qed
qed

lemma unwrapper_read_spec:
  assumes "0 < k" and "no_failure (inner u)"
  obtains bs u' where "unwrapper_read k u = (Inr bs, u')" "pending u = bs @ pending u'"
    "no_failure (inner u')" "bs = [] \<Longrightarrow> pending u = []"
proof (cases "finished (scan u)")
  case True
  then show thesis using assms that [of "[]" u] by (simp add: unwrapper_read_def pending_def)
next
  case False
  obtain r u' where r: "unwrapper_read_loop k u = (r, u')" by (rule prod.exhaust)
  from unwrapper_read_loop_spec [OF assms False this] obtain bs where bs: "r = Inr bs"
    "pending u = bs @ pending u'" "no_failure (inner u')" "bs = [] \<longrightarrow> pending u = []" by blast
  have "unwrapper_read k u = (Inr bs, u')" using False assms(1) r bs(1) by (simp add: unwrapper_read_def)
  then show thesis using bs by (intro that) blast+
qed

section \<open>One array\<close>

text \<open>An element: its brackets match, and it has no comma or closing bracket outside of them.\<close>

fun nested :: "nat \<Rightarrow> u8 list \<Rightarrow> bool" where
  "nested d [] = (d = 0)"
| "nested d (b # bs) =
     (if b = open_brace \<or> b = open_bracket then nested (d + 1) bs
      else if b = close_brace \<or> b = close_bracket then 0 < d \<and> nested (d - 1) bs
      else if b = comma then 0 < d \<and> nested d bs
      else nested d bs)"

fun join :: "u8 \<Rightarrow> u8 list list \<Rightarrow> u8 list" where
  "join sep [] = []"
| "join sep [e] = e"
| "join sep (e # es) = e @ [sep] @ join sep es"

lemma sint_i32_of_nat: "d < 2 ^ 31 \<Longrightarrow> sint (word_of_nat d :: i32) = int d"
  by (simp add: signed_of_nat signed_take_bit_int_eq_self)

lemma transduce_nested:
  assumes "nested d bs" and "d + length bs < 2 ^ 31"
    and "st = \<lparr>started = True, depth = word_of_nat d, finished = False\<rparr>"
  shows "transduce st bs = (bs, \<lparr>started = True, depth = 0, finished = False\<rparr>)"
  using assms
proof (induction d bs arbitrary: st rule: nested.induct)
  case (2 d b bs)
  have d: "sint (word_of_nat d :: i32) = int d" using 2(6) by (intro sint_i32_of_nat) simp
  have zero: "(word_of_nat d :: i32) = 0 \<longleftrightarrow> d = 0" using d by auto
  consider "b = open_brace \<or> b = open_bracket" | "b = close_brace \<or> b = close_bracket"
    | "b = comma" | "b \<notin> {open_brace, open_bracket, close_brace, close_bracket, comma}" by blast
  then show ?case
  proof cases
    case 1
    then have "scan_byte st b = ([b], \<lparr>started = True, depth = word_of_nat (d + 1), finished = False\<rparr>)"
      by (simp add: scan_byte_def 2(7) add.commute)
    moreover have "nested (d + 1) bs" using 1 2(5) by simp
    ultimately show ?thesis using 2(1) [OF 1 _ _ refl] 2(6) by simp
  next
    case closing: 2
    then have nd: "0 < d" "nested (d - 1) bs" using 2(5) by (auto simp: byte_consts)
    then have "scan_byte st b = ([b], \<lparr>started = True, depth = word_of_nat (d - 1), finished = False\<rparr>)"
      using closing d by (auto simp: scan_byte_def 2(7) byte_consts of_nat_diff)
    moreover have "\<not> (b = open_brace \<or> b = open_bracket)" using closing by (auto simp: byte_consts)
    ultimately show ?thesis using 2(2) [OF _ closing nd(2) _ refl] nd 2(6) by simp
  next
    case 3
    then have nd: "0 < d" "nested d bs" using 2(5) by (auto simp: byte_consts)
    then have "scan_byte st b = ([b], \<lparr>started = True, depth = word_of_nat d, finished = False\<rparr>)"
      using 3 zero by (auto simp: scan_byte_def 2(7) byte_consts)
    moreover have "\<not> (b = open_brace \<or> b = open_bracket)" "\<not> (b = close_brace \<or> b = close_bracket)"
      using 3 by (auto simp: byte_consts)
    ultimately show ?thesis using 2(3) [OF _ _ 3 nd(2) _ refl] 2(6) by simp
  next
    case 4
    then have "scan_byte st b = ([b], \<lparr>started = True, depth = word_of_nat d, finished = False\<rparr>)"
      by (simp add: scan_byte_def 2(7))
    moreover have "nested d bs" using 4 2(5) by simp
    ultimately show ?thesis using 2(4) 4 2(6) by simp
  qed
qed simp

abbreviation in_array :: scan_state where
  "in_array \<equiv> \<lparr>started = True, depth = 0, finished = False\<rparr>"

lemma transduce_join:
  assumes "\<forall>e\<in>set es. nested 0 e" and "length (join comma es) < 2 ^ 31"
  shows "transduce in_array (join comma es) = (join blank es, in_array)"
  using assms
proof (induction es rule: induct_list012)
  case (2 e)
  then show ?case using transduce_nested [of 0 e] by simp
next
  case (3 e e' es)
  have "transduce in_array e = (e, in_array)" using "3.prems" transduce_nested [of 0 e] by simp
  moreover have "scan_byte in_array comma = ([blank], in_array)" by (simp add: scan_byte_def byte_consts)
  moreover have "transduce in_array (join comma (e' # es)) = (join blank (e' # es), in_array)"
    using "3.prems" by (intro "3.IH"(2)) simp_all
  ultimately show ?case by (simp add: transduce_append Let_def)
qed simp

lemma unwrap_array_aux:
  assumes "open_bracket \<notin> set pre" and "\<forall>e\<in>set es. nested 0 e" and "length (join comma es) < 2 ^ 31"
  shows "unwrap_spec (pre @ [open_bracket] @ join comma es @ [close_bracket] @ post) = join blank es"
proof -
  let ?st0 = "\<lparr>started = False, depth = 0, finished = False\<rparr>"
  have "transduce ?st0 pre = ([], ?st0)" using assms(1)
    by (induction pre) (auto simp: scan_byte_def)
  moreover have "scan_byte ?st0 open_bracket = ([], in_array)" by (simp add: scan_byte_def)
  moreover have "scan_byte in_array close_bracket = ([], in_array\<lparr>finished := True\<rparr>)"
    by (simp add: scan_byte_def byte_consts)
  ultimately show ?thesis using transduce_join [OF assms(2,3)]
    by (simp add: unwrap_spec_def transduce_append Let_def)
qed

lemma unwrapper_reads_everything_aux:
  assumes "no_failure es" and "\<forall>k\<in>set ks. 0 < k" and "length (unwrap_spec (events_bytes es)) < length ks"
  shows "read_to_end ks (unwrapper_new es) = Inr (unwrap_spec (events_bytes es), True)"
proof -
  have "read_to_end ks u = Inr (pending u, True)"
    if "no_failure (inner u)" "\<forall>k\<in>set ks. 0 < k" "length (pending u) < length ks" for ks and u :: "'a unwrapper"
    using that
  proof (induction ks arbitrary: u)
    case (Cons k ks)
    obtain bs u' where r: "unwrapper_read k u = (Inr bs, u')" "pending u = bs @ pending u'"
      "no_failure (inner u')" "bs = [] \<Longrightarrow> pending u = []"
      using unwrapper_read_spec [of k u] Cons.prems(1,2) by auto
    show ?case
    proof (cases "bs = []")
      case False
      then have "length (pending u') < length ks" using r(2) Cons.prems(3) by (cases bs) auto
      with Cons.IH [OF r(3)] Cons.prems(2) r False show ?thesis by simp
    qed (use r in simp)
  qed simp
  from this [of "unwrapper_new es" ks] assms show ?thesis
    by (simp add: pending_def unwrapper_new_def unwrap_spec_def)
qed

text \<open>Whoever reads to the end has got what the adapter had to deliver.\<close>

lemma read_to_end_pending:
  assumes "no_failure (inner u)" and "\<forall>k\<in>set ks. 0 < k" and "read_to_end ks u = Inr (bs, True)"
  shows "bs = pending u"
  using assms
proof (induction ks arbitrary: u bs)
  case (Cons k ks)
  obtain out u' where r: "unwrapper_read k u = (Inr out, u')" "pending u = out @ pending u'"
    "no_failure (inner u')" "out = [] \<Longrightarrow> pending u = []"
    using unwrapper_read_spec [of k u] Cons.prems(1,2) by auto
  then show ?case using Cons.prems(2,3) Cons.IH [OF r(3)]
    by (cases "out = []") (auto simp: and_then_eq_Inr)
qed simp

section \<open>Properties\<close>

text \<open>C14: Reading the adapter to its end delivers exactly the transduced input, however the inner
  reader splits it into chunks and whatever the sizes of the caller's buffers; the caller gets its
  first empty answer only after the last byte, so an early chunk of skipped bytes is never taken
  for the end. One read more than there are bytes is enough.\<close>

theorem unwrapper_reads_everything:
  assumes "no_failure es" and "\<forall>k\<in>set ks. 0 < k" and "length (unwrap_spec (events_bytes es)) < length ks"
  shows "read_to_end ks (unwrapper_new es) = Inr (unwrap_spec (events_bytes es), True)"
  using assms by (rule unwrapper_reads_everything_aux)

theorem unwrapper_reads_everything_witness:
  "read_to_end [1, 2, 3, 4] (unwrapper_new [Chunk [open_bracket], Chunk [0x31, comma], Chunk [0x32, close_bracket]] :: nat unwrapper)
    = Inr ([0x31, blank, 0x32], True)"
proof -
  let ?es = "[Chunk [open_bracket], Chunk [0x31, comma], Chunk [0x32, close_bracket]] :: nat read_event list"
  have "unwrap_spec (events_bytes ?es) = [0x31, blank, 0x32]"
    by (simp add: unwrap_spec_def scan_byte_def byte_consts Let_def)
  with unwrapper_reads_everything [of ?es "[1, 2, 3, 4]"] show ?thesis by (simp add: no_failure_def)
qed

text \<open>A JSON array whose elements have matching brackets comes out as its elements separated by
  blanks: bytes before the opening bracket and after the closing one are dropped, and the commas
  inside the elements are kept.\<close>

theorem unwrap_array:
  assumes "open_bracket \<notin> set pre" and "\<forall>e\<in>set es. nested 0 e" and "length (join comma es) < 2 ^ 31"
  shows "unwrap_spec (pre @ [open_bracket] @ join comma es @ [close_bracket] @ post) = join blank es"
  by (rule unwrap_array_aux [OF assms])

theorem unwrap_array_witness:
  "unwrap_spec ([blank] @ [open_bracket] @ join comma [[open_brace, comma, close_brace], [0x31]] @
     [close_bracket] @ [0x0A]) = [open_brace, comma, close_brace, blank, 0x31]"
  using unwrap_array [of "[blank]" "[[open_brace, comma, close_brace], [0x31]]" "[0x0A]"]
  by (simp add: byte_consts)

text \<open>C30: The adapter does not know strings: in the array \<open>[{"a":"}","b":1}]\<close> the brace inside the
  string closes the object, and the comma between its two fields, which is inside the object, is
  read as a blank. No JSON reader accepts what is left.\<close>

theorem unwrap_breaks_strings:
  "read_to_end (replicate 16 8) (unwrapper_new [Chunk [0x5B, 0x7B, 0x22, 0x61, 0x22, 0x3A, 0x22, 0x7D, 0x22,
      0x2C, 0x22, 0x62, 0x22, 0x3A, 0x31, 0x7D, 0x5D]])
    = Inr ([0x7B, 0x22, 0x61, 0x22, 0x3A, 0x22, 0x7D, 0x22, 0x20, 0x22, 0x62, 0x22, 0x3A, 0x31, 0x7D], True)"
proof -
  let ?in = "[0x5B, 0x7B, 0x22, 0x61, 0x22, 0x3A, 0x22, 0x7D, 0x22, 0x2C, 0x22, 0x62, 0x22, 0x3A, 0x31, 0x7D, 0x5D]"
  let ?out = "[0x7B, 0x22, 0x61, 0x22, 0x3A, 0x22, 0x7D, 0x22, 0x20, 0x22, 0x62, 0x22, 0x3A, 0x31, 0x7D]"
  have "unwrap_spec (events_bytes [Chunk ?in]) = ?out"
    by (simp add: unwrap_spec_def scan_byte_def byte_consts Let_def)
  with unwrapper_reads_everything_aux [of "[Chunk ?in]" "replicate 16 8"] show ?thesis
    by (simp add: no_failure_def)
qed

end
