(* ===== verification/KMeans.thy ===== *)
theory KMeans
  imports Quantize
begin

text \<open>
  Clustering in buildindex.rs: \<open>squared_euclidean\<close>, \<open>nearest_centroid\<close> and Lloyd's algorithm
  \<open>kmeans\<close>. The random number generator is a parameter: what the code asks of it is to shuffle
  a list. The facts: the centroid chosen is the first of the nearest ones; \<open>kmeans\<close> returns \<open>k\<close>
  centroids and panics exactly on too small a sample; and centroids of samples in \<open>[-1, 1]\<close>
  stay in \<open>[-1, 1]\<close> through all the rounding.
\<close>

section \<open>The code\<close>

definition squared_euclidean :: "f32 list \<Rightarrow> f32 list \<Rightarrow> f32" where
  "squared_euclidean a b =
     foldl (\<lambda>sum i. let d = a ! i - b ! i in sum + d * d) 0 [0..<DIMS]"

definition nearest_centroid :: "f32 list \<Rightarrow> f32 list list \<Rightarrow> nat" where
  "nearest_centroid v centroids =
     fst (foldl (\<lambda>(best, best_dist) (i, c).
            let d = squared_euclidean v c
            in if d < best_dist then (i, d) else (best, best_dist))
          (0, f32_max) (List.enumerate 0 centroids))"

text \<open>One sample added to the totals and counts of its cluster.\<close>

definition accumulate ::
  "nat list \<Rightarrow> f32 list list \<Rightarrow> f64 list list \<times> nat list \<Rightarrow> nat \<Rightarrow> (f64 list list \<times> nat list) outcome" where
  "accumulate assignments sample acc vi =
     (let (totals, counts) = acc; ci = assignments ! vi; v = sample ! vi
      in and_then (at_index counts ci) (\<lambda>c.
         and_then (at_index totals ci) (\<lambda>row.
         Inr (totals[ci := map (\<lambda>j. row ! j + f32_to_f64 (v ! j)) [0..<DIMS]], counts[ci := c + 1]))))"

definition recompute :: "f64 list list \<Rightarrow> nat list \<Rightarrow> f32 list list \<Rightarrow> nat \<Rightarrow> f32 list list" where
  "recompute totals counts centroids ci =
     (if 0 < counts ! ci
      then (let n = f64_of_int (int (counts ! ci))
            in centroids[ci := map (\<lambda>j. f64_to_f32 (totals ! ci ! j / n)) [0..<DIMS]])
      else centroids)"

definition lloyd_round :: "f32 list list \<Rightarrow> nat \<Rightarrow> f32 list list \<Rightarrow> f32 list list outcome" where
  "lloyd_round sample k centroids =
     (let assignments = map (\<lambda>v. nearest_centroid v centroids) sample
      in and_then (try_fold (accumulate assignments sample)
           (replicate k (replicate DIMS 0), replicate k 0) [0..<length sample])
         (\<lambda>(totals, counts). Inr (foldl (recompute totals counts) centroids [0..<k])))"

type_synonym 'r shuffle_fn = "nat list \<Rightarrow> 'r \<Rightarrow> nat list \<times> 'r"

definition kmeans ::
  "'r shuffle_fn \<Rightarrow> f32 list list \<Rightarrow> nat \<Rightarrow> nat \<Rightarrow> 'r \<Rightarrow> (f32 list list \<times> 'r) outcome" where
  "kmeans shuffle sample k iters rng =
     (if length sample < k then Inl AssertPanic
      else let (indices, rng) = shuffle [0..<length sample] rng
      in and_then (sub_slice indices 0 k) (\<lambda>first.
         and_then (try_map (at_index sample) first) (\<lambda>centroids.
         and_then (try_fold (\<lambda>cs _. lloyd_round sample k cs) centroids [0..<iters])
           (\<lambda>centroids. Inr (centroids, rng)))))"

text \<open>\<open>SliceRandom::shuffle\<close> permutes.\<close>

definition shuffle_contract :: "'r shuffle_fn \<Rightarrow> bool" where
  "shuffle_contract shuffle \<longleftrightarrow> (\<forall>xs rng. mset (fst (shuffle xs rng)) = mset xs)"

section \<open>The nearest centroid\<close>

lemma nearest_loop:
  "foldl (\<lambda>(best, best_dist) (i, c). let d = squared_euclidean v c in if d < best_dist then (i, d) else (best, best_dist))
     (b, d0) (List.enumerate s cs) = (best, bd) \<Longrightarrow>
   \<not> is_nan32 d0 \<Longrightarrow>
   \<not> is_nan32 bd \<and> f32_key bd \<le> f32_key d0 \<and>
   (\<forall>i<length cs. \<not> squared_euclidean v (cs ! i) < bd) \<and>
   ((best = b \<and> bd = d0) \<or>
    (\<exists>i<length cs. best = s + i \<and> bd = squared_euclidean v (cs ! i) \<and> bd < d0 \<and>
       (\<forall>j<i. bd < squared_euclidean v (cs ! j) \<or> is_nan32 (squared_euclidean v (cs ! j)))))"
proof (induction cs arbitrary: b d0 s)
  case (Cons c cs)
  let ?d = "squared_euclidean v c"
  show ?case
  proof (cases "?d < d0")
    case True
    then have nan: "\<not> is_nan32 ?d" by (simp add: f32_less_iff)
    from Cons.IH [of "s" ?d "Suc s"] Cons.prems(1) True nan have
      IH: "\<not> is_nan32 bd" "f32_key bd \<le> f32_key ?d" "\<forall>i<length cs. \<not> squared_euclidean v (cs ! i) < bd"
      "(best = s \<and> bd = ?d) \<or> (\<exists>i<length cs. best = Suc s + i \<and> bd = squared_euclidean v (cs ! i) \<and> bd < ?d \<and>
        (\<forall>j<i. bd < squared_euclidean v (cs ! j) \<or> is_nan32 (squared_euclidean v (cs ! j))))"
      by (simp_all add: Let_def)
    have "f32_key ?d < f32_key d0" using True by (simp add: f32_less_iff)
    moreover have "\<forall>i<length (c # cs). \<not> squared_euclidean v ((c # cs) ! i) < bd"
      using IH(2,3) by (auto simp: less_Suc_eq_0_disj f32_less_iff)
    moreover have "\<exists>i<length (c # cs). best = s + i \<and> bd = squared_euclidean v ((c # cs) ! i) \<and> bd < d0 \<and>
        (\<forall>j<i. bd < squared_euclidean v ((c # cs) ! j) \<or> is_nan32 (squared_euclidean v ((c # cs) ! j)))"
      using IH(4)
    proof
      assume "best = s \<and> bd = ?d"
      then show ?thesis using True by (intro exI [of _ 0]) simp
    next
      assume "\<exists>i<length cs. best = Suc s + i \<and> bd = squared_euclidean v (cs ! i) \<and> bd < ?d \<and>
        (\<forall>j<i. bd < squared_euclidean v (cs ! j) \<or> is_nan32 (squared_euclidean v (cs ! j)))"
      then obtain i where i: "i < length cs" "best = Suc s + i" "bd = squared_euclidean v (cs ! i)" "bd < ?d"
        "\<forall>j<i. bd < squared_euclidean v (cs ! j) \<or> is_nan32 (squared_euclidean v (cs ! j))" by blast
      have "bd < d0" using i(4) True by (auto simp: f32_less_iff)
      moreover have "bd < squared_euclidean v ((c # cs) ! j) \<or> is_nan32 (squared_euclidean v ((c # cs) ! j))"
        if "j < Suc i" for j using that i(4,5) by (cases j) auto
      ultimately show ?thesis using i by (intro exI [of _ "Suc i"]) simp
    qed
    ultimately show ?thesis using IH(1,2) by auto
  next
    case False
    from Cons.IH [of b d0 "Suc s"] Cons.prems False have
      IH: "\<not> is_nan32 bd" "f32_key bd \<le> f32_key d0" "\<forall>i<length cs. \<not> squared_euclidean v (cs ! i) < bd"
      "(best = b \<and> bd = d0) \<or> (\<exists>i<length cs. best = Suc s + i \<and> bd = squared_euclidean v (cs ! i) \<and> bd < d0 \<and>
        (\<forall>j<i. bd < squared_euclidean v (cs ! j) \<or> is_nan32 (squared_euclidean v (cs ! j))))"
      by (simp_all add: Let_def)
    have first: "is_nan32 ?d \<or> f32_key d0 \<le> f32_key ?d"
      using False Cons.prems(2) by (auto simp: f32_less_iff)
    then have "\<forall>i<length (c # cs). \<not> squared_euclidean v ((c # cs) ! i) < bd"
      using IH(2,3) by (auto simp: less_Suc_eq_0_disj f32_less_iff)
    moreover have "\<exists>i<length (c # cs). best = s + i \<and> bd = squared_euclidean v ((c # cs) ! i) \<and> bd < d0 \<and>
        (\<forall>j<i. bd < squared_euclidean v ((c # cs) ! j) \<or> is_nan32 (squared_euclidean v ((c # cs) ! j)))"
      if "\<exists>i<length cs. best = Suc s + i \<and> bd = squared_euclidean v (cs ! i) \<and> bd < d0 \<and>
        (\<forall>j<i. bd < squared_euclidean v (cs ! j) \<or> is_nan32 (squared_euclidean v (cs ! j)))"
    proof -
      from that obtain i where i: "i < length cs" "best = Suc s + i" "bd = squared_euclidean v (cs ! i)" "bd < d0"
        "\<forall>j<i. bd < squared_euclidean v (cs ! j) \<or> is_nan32 (squared_euclidean v (cs ! j))" by blast
      have "bd < squared_euclidean v ((c # cs) ! j) \<or> is_nan32 (squared_euclidean v ((c # cs) ! j))"
        if "j < Suc i" for j using that i(4,5) first by (cases j) (auto simp: f32_less_iff)
      then show ?thesis using i by (intro exI [of _ "Suc i"]) simp
    qed
    ultimately show ?thesis using IH(1,2,4) by auto
  qed
qed (auto simp: f32_less_iff)

lemma nearest_centroid_cases:
  obtains (far) "nearest_centroid v centroids = 0" "\<forall>i<length centroids. \<not> squared_euclidean v (centroids ! i) < f32_max"
  | (near) "nearest_centroid v centroids < length centroids"
      "squared_euclidean v (centroids ! nearest_centroid v centroids) < f32_max"
      "\<forall>i<length centroids. \<not> squared_euclidean v (centroids ! i) < squared_euclidean v (centroids ! nearest_centroid v centroids)"
      "\<forall>j<nearest_centroid v centroids. squared_euclidean v (centroids ! nearest_centroid v centroids) < squared_euclidean v (centroids ! j)
         \<or> is_nan32 (squared_euclidean v (centroids ! j))"
proof -
  obtain best bd where loop: "foldl (\<lambda>(best, best_dist) (i, c). let d = squared_euclidean v c
      in if d < best_dist then (i, d) else (best, best_dist)) (0, f32_max) (List.enumerate 0 centroids) = (best, bd)"
    by (rule prod.exhaust)
  then have best: "nearest_centroid v centroids = best" by (simp add: nearest_centroid_def)
  have "\<not> is_nan32 f32_max" by (simp add: is_nan32_iff f32_max_def unpack32_def)
  from nearest_loop [OF loop this] far near best show thesis by auto
qed

lemma nearest_centroid_less: "centroids \<noteq> [] \<Longrightarrow> nearest_centroid v centroids < length centroids"
  by (rule nearest_centroid_cases [of v centroids]) auto

section \<open>Sums, products and means of small numbers\<close>

text \<open>
  The magnitude of \<open>x\<close> is at most the integer \<open>n\<close>, and \<open>n\<close> is one of the integers the format
  represents exactly. Sums and products keep such bounds, because rounding is monotone and
  exact on the bound.
\<close>

definition fl_bounded :: "ieee \<Rightarrow> nat \<Rightarrow> fl \<Rightarrow> bool" where
  "fl_bounded F n x \<longleftrightarrow> mag x < inf_mag F \<and> mag_units F (mag x) \<le> n * 2 ^ unit_exp F"

definition fits :: "ieee \<Rightarrow> nat \<Rightarrow> bool" where
  "fits F n \<longleftrightarrow> 2 \<le> prec F \<and> n < 2 ^ prec F \<and> (\<exists>M<inf_mag F. mag_units F M = 2 ^ prec F * 2 ^ unit_exp F)"

lemma fits_binary [simp]: "n < 2 ^ 24 \<Longrightarrow> fits binary32 n" "n < 2 ^ 53 \<Longrightarrow> fits binary64 n"
proof -
  have "mag_units binary32 1266679808 = 2 ^ 24 * 2 ^ 149" by (simp add: mag_units_def)
  then show "n < 2 ^ 24 \<Longrightarrow> fits binary32 n" unfolding fits_def by (auto intro!: exI [of _ 1266679808])
  have "mag_units binary64 4845873199050653696 = 2 ^ 53 * 2 ^ 1074" by (simp add: mag_units_def)
  then show "n < 2 ^ 53 \<Longrightarrow> fits binary64 n" unfolding fits_def by (auto intro!: exI [of _ 4845873199050653696])
qed

lemma round_mag_fits:
  assumes "fits F n"
  shows "round_mag F (n * 2 ^ unit_exp F) 1 < inf_mag F"
    and "mag_units F (round_mag F (n * 2 ^ unit_exp F) 1) = n * 2 ^ unit_exp F"
proof -
  from assms obtain M where M: "M < inf_mag F" "mag_units F M = 2 ^ prec F * 2 ^ unit_exp F"
    and F: "2 \<le> prec F" "n < 2 ^ prec F" by (auto simp: fits_def)
  have "round_mag F (n * 2 ^ unit_exp F) 1 \<le> M"
    using M F by (intro round_mag_le) simp_all
  with M(1) show lt: "round_mag F (n * 2 ^ unit_exp F) 1 < inf_mag F" by simp
  show "mag_units F (round_mag F (n * 2 ^ unit_exp F) 1) = n * 2 ^ unit_exp F"
    by (rule mag_units_round_exact [OF F lt])
qed

lemma fl_bounded_round:
  assumes "fits F n" and "a \<le> n * 2 ^ unit_exp F * b" and "0 < b"
  shows "fl_bounded F n (fl_round F s a b)"
proof -
  let ?M = "round_mag F (n * 2 ^ unit_exp F) 1"
  note M = round_mag_fits [OF assms(1)]
  have F: "2 \<le> prec F" using assms(1) by (simp add: fits_def)
  have le: "round_mag F a b \<le> ?M" by (rule round_mag_le) (use assms M F in simp_all)
  then have "\<not> mag_units F ?M < mag_units F (round_mag F a b)"
    using mag_units_less_iff [of ?M F "round_mag F a b"] M F by simp
  then show ?thesis using M le by (simp add: fl_bounded_def fl_round_def)
qed

lemma fl_bounded_zero: "0 < inf_mag F \<Longrightarrow> fl_bounded F n (Fl s 0)"
  by (simp add: fl_bounded_def)

lemma fl_bounded_neg [simp]: "fl_bounded F n (fl_neg x) \<longleftrightarrow> fl_bounded F n x"
  by (simp add: fl_bounded_def fl_neg_def)

lemma fl_bounded_add:
  assumes "fl_bounded F a x" and "fl_bounded F b y" and "fits F (a + b)"
  shows "fl_bounded F (a + b) (fl_add F x y)"
proof -
  let ?z = "fl_units F x + fl_units F y"
  have tri: "nat \<bar>(if p then - int m else int m) + (if q then - int n else int n)\<bar> \<le> m + n" for p q m n
    by auto
  have "nat \<bar>?z\<bar> \<le> mag_units F (mag x) + mag_units F (mag y)"
    unfolding fl_units_def by (rule tri)
  also have "\<dots> \<le> (a + b) * 2 ^ unit_exp F * 1" using assms(1,2) by (simp add: fl_bounded_def algebra_simps)
  finally have "fl_bounded F (a + b) (fl_round F (?z < 0) (nat \<bar>?z\<bar>) 1)"
    using assms(3) by (intro fl_bounded_round) simp_all
  moreover have "0 < inf_mag F" using assms(1) by (simp add: fl_bounded_def)
  ultimately show ?thesis
    using assms(1,2) by (simp add: fl_add_def fl_is_nan_def fl_is_inf_def fl_bounded_zero Let_def)
      (simp add: fl_bounded_def)
qed

lemma fl_bounded_mul:
  assumes "fl_bounded F a x" and "fl_bounded F b y" and "fits F (a * b)"
  shows "fl_bounded F (a * b) (fl_mul F x y)"
proof -
  have "mag_units F (mag x) * mag_units F (mag y) \<le> (a * 2 ^ unit_exp F) * (b * 2 ^ unit_exp F)"
    using assms(1,2) by (intro mult_mono) (simp_all add: fl_bounded_def)
  then have "mag_units F (mag x) * mag_units F (mag y) \<le> a * b * 2 ^ unit_exp F * 2 ^ unit_exp F"
    by (simp add: ac_simps)
  then have "fl_bounded F (a * b) (fl_round F (neg x \<noteq> neg y) (mag_units F (mag x) * mag_units F (mag y)) (2 ^ unit_exp F))"
    using assms(3) by (intro fl_bounded_round) simp_all
  then show ?thesis
    using assms(1,2) by (simp add: fl_mul_def fl_is_nan_def fl_is_inf_def fl_bounded_def Let_def)
qed

lemma unpack_fl_round64 [simp]: "unpack64 (pack64 (fl_round binary64 s a b)) = fl_round binary64 s a b"
  by (rule unpack_pack64) simp

lemma fl_bounded_plus64:
  assumes "fl_bounded binary64 a (unpack64 x)" and "fl_bounded binary64 b (unpack64 y)" and "a + b < 2 ^ 53"
  shows "fl_bounded binary64 (a + b) (unpack64 (x + y))"
proof -
  have b: "fl_bounded binary64 (a + b) (fl_add binary64 (unpack64 x) (unpack64 y))"
    by (rule fl_bounded_add [OF assms(1,2)]) (use assms(3) in simp)
  then have "unpack64 (x + y) = fl_add binary64 (unpack64 x) (unpack64 y)"
    unfolding plus_f64_def by (intro unpack_pack64) (simp add: fl_bounded_def)
  with b show ?thesis by simp
qed

text \<open>Numbers in \<open>[-1, 1]\<close>.\<close>

definition unit32 :: "f32 \<Rightarrow> bool" where
  "unit32 x \<longleftrightarrow> mag (unpack32 x) \<le> 1065353216"

lemma unit32_bounded: "unit32 x \<longleftrightarrow> fl_bounded binary32 1 (unpack32 x)"
proof -
  have "mag_units binary32 1065353216 = 2 ^ 149" by (simp add: mag_units_def)
  then show ?thesis
    using mag_units_less_iff [of 1065353216 binary32 "mag (unpack32 x)"]
    by (cases "mag (unpack32 x) < inf_mag binary32") (auto simp: unit32_def fl_bounded_def)
qed

lemma unit32_finite: "unit32 x \<Longrightarrow> f32_finite x"
  by (simp add: unit32_def f32_finite_iff)

lemma fl_bounded_of_f32:
  assumes "unit32 x" shows "fl_bounded binary64 1 (unpack64 (f32_to_f64 x))"
proof -
  have u: "fl_bounded binary32 1 (unpack32 x)" using assms by (simp add: unit32_bounded)
  then have "fl_convert binary32 binary64 (unpack32 x)
      = fl_round binary64 (neg (unpack32 x)) (mag_units binary32 (mag (unpack32 x)) * 2 ^ 1074) (2 ^ 149)"
    by (simp only: fl_convert_def fl_is_nan_def fl_is_inf_def fl_bounded_def binary64_sel(2) binary32_sel(2))
      simp
  moreover have "fl_bounded binary64 1 (fl_round binary64 (neg (unpack32 x))
      (mag_units binary32 (mag (unpack32 x)) * 2 ^ 1074) (2 ^ 149))"
    using u by (intro fl_bounded_round) (simp_all add: fl_bounded_def)
  ultimately show ?thesis by (simp only: f32_to_f64_def unpack_fl_round64)
qed

text \<open>A mean of \<open>n\<close> numbers in \<open>[-1, 1]\<close> is one.\<close>

lemma mean_unit:
  assumes "fl_bounded binary64 n (unpack64 t)" and "0 < n" and "n < 2 ^ 53"
  shows "unit32 (f64_to_f32 (t / f64_of_int (int n)))"
proof -
  let ?M = "round_mag binary64 (n * 2 ^ 1074) 1" and ?t = "mag_units binary64 (mag (unpack64 t))"
  let ?q = "fl_round binary64 (neg (unpack64 t)) (?t * 2 ^ 1074) (n * 2 ^ 1074)"
  have M: "?M < inf_mag binary64" "mag_units binary64 ?M = n * 2 ^ 1074"
    using round_mag_fits [of binary64 n] assms(3) by simp_all
  then have M0: "?M \<noteq> 0" using assms(2) by (intro notI) simp
  have n: "unpack64 (f64_of_int (int n)) = Fl False ?M"
    by (simp only: f64_of_int_def fl_of_int_def unpack_fl_round64 binary64_sel) (simp add: fl_round_def)
  have "fl_div binary64 (unpack64 t) (Fl False ?M) = ?q"
    using assms(1) M M0 by (simp only: fl_div_def fl_is_nan_def fl_is_inf_def fl_bounded_def Let_def fl.sel
        binary64_sel(2)) simp
  then have q: "unpack64 (t / f64_of_int (int n)) = ?q"
    by (simp only: divide_f64_def n unpack_fl_round64)
  have b: "fl_bounded binary64 1 ?q"
    using assms(1,2) by (intro fl_bounded_round) (simp_all add: fl_bounded_def mult.commute)
  then have "fl_convert binary64 binary32 ?q
      = fl_round binary32 (neg ?q) (mag_units binary64 (mag ?q) * 2 ^ 149) (2 ^ 1074)"
    by (simp only: fl_convert_def fl_is_nan_def fl_is_inf_def fl_bounded_def binary64_sel(2) binary32_sel(2))
      simp
  moreover have "fl_bounded binary32 1 (fl_round binary32 (neg ?q) (mag_units binary64 (mag ?q) * 2 ^ 149) (2 ^ 1074))"
    using b by (intro fl_bounded_round) (simp_all add: fl_bounded_def)
  ultimately show ?thesis by (simp only: unit32_bounded unpack32_ops q)
qed

section \<open>The distance between vectors in \<open>[-1, 1]\<close>\<close>

lemma squared_euclidean_bounded:
  assumes "\<forall>x\<in>set a. unit32 x" "\<forall>x\<in>set b. unit32 x" "length a = DIMS" "length b = DIMS"
  shows "fl_bounded binary32 56 (unpack32 (squared_euclidean a b))"
proof -
  let ?step = "\<lambda>sum i. let d = a ! i - b ! i in sum + d * d"
  have "fl_bounded binary32 (4 * m) (unpack32 (foldl ?step 0 [0..<m]))" if "m \<le> DIMS" for m
    using that
  proof (induction m)
    case (Suc m)
    then have "unit32 (a ! m)" "unit32 (b ! m)" using assms by simp_all
    then have "fl_bounded binary32 (1 + 1) (unpack32 (a ! m - b ! m))"
      unfolding unpack32_ops unit32_bounded by (intro fl_bounded_add) simp_all
    then have sq: "fl_bounded binary32 ((1 + 1) * (1 + 1)) (unpack32 ((a ! m - b ! m) * (a ! m - b ! m)))"
      unfolding unpack32_ops(3) by (intro fl_bounded_mul) simp_all
    have sum: "fl_bounded binary32 (4 * m) (unpack32 (foldl ?step 0 [0..<m]))" using Suc by simp
    have "fits binary32 (4 * m + (1 + 1) * (1 + 1))" using Suc.prems by (simp add: DIMS_def)
    from fl_bounded_add [OF sum sq this] show ?case by (simp add: unpack32_ops(1) Let_def numeral_eq_Suc)
  qed (simp add: fl_bounded_zero)
  from this [of DIMS] show ?thesis by (simp add: squared_euclidean_def DIMS_def)
qed

lemma fl_bounded_less_max: "fl_bounded binary32 56 (unpack32 d) \<Longrightarrow> d < f32_max"
proof -
  assume b: "fl_bounded binary32 56 (unpack32 d)"
  have "mag_units binary32 1113587712 = 56 * 2 ^ 149" by (simp add: mag_units_def)
  then have "mag (unpack32 d) \<le> 1113587712"
    using b mag_units_less_iff [of 1113587712 binary32 "mag (unpack32 d)"] by (auto simp: fl_bounded_def)
  moreover have "unpack32 f32_max = Fl False 2139095039" by (simp add: f32_max_def unpack32_def)
  ultimately show ?thesis by (simp add: f32_less_iff is_nan32_iff f32_key_def fl_key_def)
qed

section \<open>Lloyd's iterations\<close>

definition unit_rows :: "f32 list list \<Rightarrow> bool" where
  "unit_rows vs \<longleftrightarrow> (\<forall>v\<in>set vs. length v = DIMS \<and> (\<forall>x\<in>set v. unit32 x))"

lemma unit_rowsD: "unit_rows vs \<Longrightarrow> i < length vs \<Longrightarrow> length (vs ! i) = DIMS \<and> (\<forall>x\<in>set (vs ! i). unit32 x)"
  unfolding unit_rows_def using nth_mem by blast

text \<open>The totals after \<open>m\<close> samples: each is a sum of as many numbers in \<open>[-1, 1]\<close> as its count.\<close>

definition totals_ok :: "nat \<Rightarrow> nat \<Rightarrow> f64 list list \<times> nat list \<Rightarrow> bool" where
  "totals_ok k m acc \<longleftrightarrow> (case acc of (totals, counts) \<Rightarrow>
     length totals = k \<and> length counts = k \<and>
     (\<forall>ci<k. counts ! ci \<le> m \<and> (\<forall>j<DIMS. fl_bounded binary64 (counts ! ci) (unpack64 (totals ! ci ! j)))))"

lemma accumulate_ok:
  assumes "totals_ok k m acc" and "assignments ! m < k" and "m < length sample"
    and "unit_rows sample" and "m < 2 ^ 53 - 1"
  shows "\<exists>acc'. accumulate assignments sample acc m = Inr acc' \<and> totals_ok k (Suc m) acc'"
proof -
  obtain totals counts where acc: "acc = (totals, counts)" by (rule prod.exhaust)
  let ?c = "assignments ! m"
  have len: "length totals = k" "length counts = k" using assms(1) by (simp_all add: totals_ok_def acc)
  have old: "counts ! ci \<le> m" "fl_bounded binary64 (counts ! ci) (unpack64 (totals ! ci ! j))"
    if "ci < k" "j < DIMS" for ci j
    using assms(1) that by (auto simp: totals_ok_def acc)
  have new: "fl_bounded binary64 (counts ! ?c + 1) (unpack64 (totals ! ?c ! j + f32_to_f64 (sample ! m ! j)))"
    if "j < DIMS" for j
  proof (rule fl_bounded_plus64)
    show "fl_bounded binary64 1 (unpack64 (f32_to_f64 (sample ! m ! j)))"
      using unit_rowsD [OF assms(4,3)] that by (intro fl_bounded_of_f32) simp
  qed (use old [OF assms(2) that] assms(5) in auto)
  have step: "accumulate assignments sample acc m
      = Inr (totals[?c := map (\<lambda>j. totals ! ?c ! j + f32_to_f64 (sample ! m ! j)) [0..<DIMS]],
             counts[?c := counts ! ?c + 1])"
    using assms(2) len by (simp add: accumulate_def acc Let_def)
  have "0 < DIMS" by (simp add: DIMS_def)
  then have counts: "\<forall>ci<k. counts ! ci \<le> m" using old(1) by blast
  show ?thesis
    unfolding step using old(2) new len counts assms(2)
    by (auto simp: totals_ok_def nth_list_update intro: le_SucI)
qed

lemma accumulate_all:
  assumes "\<forall>a\<in>set assignments. a < k" and "length assignments = length sample"
    and "unit_rows sample" and "length sample < 2 ^ 53" and "m \<le> length sample"
  shows "\<exists>acc. try_fold (accumulate assignments sample) (replicate k (replicate DIMS 0), replicate k 0) [0..<m]
    = Inr acc \<and> totals_ok k m acc"
  using assms(5)
proof (induction m)
  case 0
  have "unpack64 0 = Fl False 0" by (simp add: zero_f64_def unpack64_def)
  then show ?case by (simp add: totals_ok_def fl_bounded_zero)
next
  case (Suc m)
  then obtain acc where acc: "try_fold (accumulate assignments sample)
      (replicate k (replicate DIMS 0), replicate k 0) [0..<m] = Inr acc" "totals_ok k m acc" by auto
  have "\<exists>acc'. accumulate assignments sample acc m = Inr acc' \<and> totals_ok k (Suc m) acc'"
    using assms Suc.prems by (intro accumulate_ok [OF acc(2)]) auto
  with acc(1) show ?case by (auto simp: try_fold_append)
qed

lemma recompute_ok:
  assumes "totals_ok k m (totals, counts)" and "m < 2 ^ 53" and "unit_rows cs" and "ci < k"
  shows "unit_rows (recompute totals counts cs ci)"
proof -
  have "unit32 (f64_to_f32 (totals ! ci ! j / f64_of_int (int (counts ! ci))))"
    if "j < DIMS" "0 < counts ! ci" for j
    using assms that by (intro mean_unit) (auto simp: totals_ok_def)
  then show ?thesis
    using assms(3)
    by (auto simp: unit_rows_def recompute_def Let_def dest!: subsetD [OF set_update_subset_insert])
qed

lemma length_recompute [simp]: "length (recompute totals counts cs ci) = length cs"
  by (simp add: recompute_def Let_def)

lemma lloyd_round_ok:
  assumes "unit_rows sample" and "length sample < 2 ^ 53" and "unit_rows cs" and "length cs = k" and "0 < k"
  shows "\<exists>cs'. lloyd_round sample k cs = Inr cs' \<and> unit_rows cs' \<and> length cs' = k"
proof -
  let ?as = "map (\<lambda>v. nearest_centroid v cs) sample"
  have "\<forall>a\<in>set ?as. a < k" using nearest_centroid_less [of cs] assms(4,5) by auto
  from accumulate_all [OF this _ assms(1,2) order_refl] obtain totals counts where
    acc: "try_fold (accumulate ?as sample) (replicate k (replicate DIMS 0), replicate k 0) [0..<length sample]
      = Inr (totals, counts)" and ok: "totals_ok k (length sample) (totals, counts)" by auto
  have "unit_rows (foldl (recompute totals counts) cs [0..<n]) \<and>
      length (foldl (recompute totals counts) cs [0..<n]) = k" if "n \<le> k" for n
    using that by (induction n) (simp_all add: assms(3,4) recompute_ok [OF ok assms(2)])
  then show ?thesis by (simp add: lloyd_round_def acc Let_def)
qed

lemma kmeans_unit_rows:
  assumes "shuffle_contract shuffle" and "unit_rows sample" and "length sample < 2 ^ 53"
    and "0 < k" and "k \<le> length sample"
  shows "\<exists>cs rng'. kmeans shuffle sample k iters rng = Inr (cs, rng') \<and> unit_rows cs \<and> length cs = k"
proof -
  obtain idx rng' where s: "shuffle [0..<length sample] rng = (idx, rng')" by (rule prod.exhaust)
  then have m: "mset idx = mset [0..<length sample]"
    using assms(1) unfolding shuffle_contract_def by (metis fst_conv)
  have len: "length idx = length sample" using mset_eq_length [OF m] by simp
  have set: "set idx = {..<length sample}" using mset_eq_setD [OF m] by (simp add: atLeast_upt)
  let ?first = "map (\<lambda>i. sample ! i) (take k idx)"
  have first: "try_map (at_index sample) (take k idx) = Inr ?first"
    using set by (intro try_map_Inr) (auto dest!: in_set_takeD simp: at_index_def)
  have rows: "unit_rows ?first"
    using assms(2) set by (auto dest!: in_set_takeD simp: unit_rows_def)
  have "\<exists>cs. try_fold (\<lambda>cs _. lloyd_round sample k cs) ?first [0..<iters] = Inr cs \<and>
      (unit_rows cs \<and> length cs = k)"
    using rows assms(5) len lloyd_round_ok [OF assms(2,3)] assms(4)
    by (intro try_fold_invariant) auto
  then show ?thesis using s first assms(5) len by (auto simp: kmeans_def)
qed

section \<open>Properties\<close>

text \<open>For a vector and centroids with features in \<open>[-1, 1]\<close>, \<open>nearest_centroid\<close> returns the
  first of the nearest centroids, by the distance as it is computed in single precision.\<close>

theorem nearest_centroid_first_nearest:
  assumes "unit_rows (v # centroids)" and "centroids \<noteq> []"
  shows "let c = nearest_centroid v centroids; d = (\<lambda>i. squared_euclidean v (centroids ! i))
    in c < length centroids \<and> (\<forall>i<length centroids. \<not> d i < d c) \<and> (\<forall>j<c. d c < d j)"
proof -
  have close: "fl_bounded binary32 56 (unpack32 (squared_euclidean v (centroids ! i)))" if "i < length centroids" for i
    using assms(1) unit_rowsD [OF _ that] by (intro squared_euclidean_bounded) (auto simp: unit_rows_def)
  then have max: "squared_euclidean v (centroids ! i) < f32_max" if "i < length centroids" for i
    using that fl_bounded_less_max by blast
  then have num: "\<not> is_nan32 (squared_euclidean v (centroids ! i))" if "i < length centroids" for i
    using that by (auto simp: f32_less_iff)
  show ?thesis
  proof (cases rule: nearest_centroid_cases [of v centroids])
    case far
    then show ?thesis using max assms(2) by auto
  next
    case near
    then show ?thesis using num by (auto simp: Let_def)
  qed
qed

theorem nearest_centroid_first_nearest_witness:
  "let c = nearest_centroid (replicate DIMS 1) [replicate DIMS 0, replicate DIMS 1];
       d = (\<lambda>i. squared_euclidean (replicate DIMS 1) ([replicate DIMS 0, replicate DIMS 1] ! i))
    in c < length [replicate DIMS (0 :: f32), replicate DIMS 1] \<and>
       (\<forall>i<length [replicate DIMS (0 :: f32), replicate DIMS 1]. \<not> d i < d c) \<and> (\<forall>j<c. d c < d j)"
  by (rule nearest_centroid_first_nearest) (simp_all add: unit_rows_def unit32_def)

text \<open>C13: With a generator that shuffles, \<open>kmeans\<close> on a sample of at least \<open>k\<close> vectors with
  features in \<open>[-1, 1]\<close> ends without a panic and returns \<open>k\<close> centroids with features in
  \<open>[-1, 1]\<close>, through every rounding, conversion and division of its means.\<close>

theorem kmeans_centroids:
  assumes "shuffle_contract shuffle" and "unit_rows sample" and "length sample < 2 ^ 53"
    and "0 < k" and "k \<le> length sample"
  shows "\<exists>centroids rng'. kmeans shuffle sample k iters rng = Inr (centroids, rng') \<and>
    length centroids = k \<and> unit_rows centroids"
  using kmeans_unit_rows [OF assms] by blast

theorem kmeans_centroids_witness:
  "\<exists>centroids rng'. kmeans (\<lambda>xs r. (rev xs, r)) [replicate DIMS 0, replicate DIMS (1 :: f32)] 2 20 ()
    = Inr (centroids, rng') \<and> length centroids = 2 \<and> unit_rows centroids"
  by (rule kmeans_centroids) (simp_all add: shuffle_contract_def unit_rows_def unit32_def)

text \<open>A sample smaller than the number of clusters stops \<open>kmeans\<close> with its assertion,
  whatever the generator; and no clusters at all stop it with an index out of range as
  soon as there is a vector to assign and a round to do it in.\<close>

theorem kmeans_panics:
  "(length sample < k \<longrightarrow> kmeans shuffle sample k iters rng = Inl AssertPanic) \<and>
   (sample \<noteq> [] \<longrightarrow> 0 < iters \<longrightarrow> kmeans shuffle sample 0 iters rng = Inl IndexPanic)"
proof -
  have "lloyd_round sample 0 [] = Inl IndexPanic" if "sample \<noteq> []"
    using that by (simp add: lloyd_round_def upt_conv_Cons accumulate_def at_index_def)
  moreover have "sub_slice (fst (shuffle [0..<length sample] rng)) 0 0 = Inr []" by simp
  ultimately show ?thesis
    by (auto simp: kmeans_def upt_conv_Cons split: prod.split)
qed

theorem kmeans_panics_witness:
  "kmeans Pair [replicate DIMS (0 :: f32)] 2 20 () = Inl AssertPanic \<and>
   kmeans Pair [replicate DIMS (0 :: f32)] 0 20 () = Inl IndexPanic"
  using kmeans_panics [of "[replicate DIMS 0]" 2 Pair 20 "()"] kmeans_panics [of "[replicate DIMS 0]" 2 Pair 20 "()"]
  by simp

end
