(* ===== verification/Std_Text.thy ===== *)
theory Std_Text
  imports Ieee
begin

text \<open>
  The standard library's text functions the program calls: parsing unsigned integers and
  floating-point numbers from command lines and the environment, and case-insensitive
  comparison. Parsing inverts printing on every number that fits.
\<close>

section \<open>Unsigned integers\<close>

text \<open>\<open>str::parse::<usize>\<close>: an optional plus sign and at least one digit, below \<open>2^64\<close>.\<close>

definition digit_of :: "char \<Rightarrow> nat option" where
  "digit_of c = (let n = of_char c :: nat in if 48 \<le> n \<and> n \<le> 57 then Some (n - 48) else None)"

fun parse_digits :: "nat \<Rightarrow> string \<Rightarrow> nat option" where
  "parse_digits acc [] = Some acc"
| "parse_digits acc (c # cs) =
     (case digit_of c of None \<Rightarrow> None
      | Some d \<Rightarrow> if 10 * acc + d < 2 ^ 64 then parse_digits (10 * acc + d) cs else None)"

definition parse_usize :: "string \<Rightarrow> usize option" where
  "parse_usize s =
     (let ds = (if s \<noteq> [] \<and> hd s = CHR ''+'' then tl s else s)
      in if ds = [] then None else map_option word_of_nat (parse_digits 0 ds))"

definition to_ascii_lower :: "char \<Rightarrow> char" where
  "to_ascii_lower c = (let n = of_char c :: nat in if 65 \<le> n \<and> n \<le> 90 then char_of (n + 32) else c)"

definition eq_ignore_ascii_case :: "string \<Rightarrow> string \<Rightarrow> bool" where
  "eq_ignore_ascii_case a b = (map to_ascii_lower a = map to_ascii_lower b)"

section \<open>Floating-point numbers\<close>

text \<open>
  \<open>str::parse::<f64>\<close>: a sign, then digits with an optional point and an optional decimal
  exponent, or one of the words for infinity and NaN. The result is the nearest number.
\<close>

fun span_digits :: "string \<Rightarrow> nat list \<times> string" where
  "span_digits [] = ([], [])"
| "span_digits (c # cs) =
     (case digit_of c of None \<Rightarrow> ([], c # cs)
      | Some d \<Rightarrow> (let (ds, rest) = span_digits cs in (d # ds, rest)))"

definition digits_value :: "nat list \<Rightarrow> nat" where
  "digits_value ds = foldl (\<lambda>acc d. 10 * acc + d) 0 ds"

text \<open>An optional sign: the flag says negative.\<close>

definition split_sign :: "string \<Rightarrow> bool \<times> string" where
  "split_sign s = (case s of c # cs \<Rightarrow> if c = CHR ''-'' then (True, cs) else if c = CHR ''+'' then (False, cs) else (False, s)
     | [] \<Rightarrow> (False, []))"

definition parse_exponent :: "string \<Rightarrow> int option" where
  "parse_exponent s =
     (case s of [] \<Rightarrow> Some 0
      | c # cs \<Rightarrow> if to_ascii_lower c = CHR ''e'' then
          (let (ng, rest) = split_sign cs; (ds, tail) = span_digits rest
           in if ds = [] \<or> tail \<noteq> [] then None
              else Some (if ng then - int (digits_value ds) else int (digits_value ds)))
        else None)"

definition fl_of_decimal :: "bool \<Rightarrow> nat \<Rightarrow> int \<Rightarrow> fl" where
  "fl_of_decimal ng m e =
     (if 0 \<le> e then fl_round binary64 ng (m * 10 ^ nat e * 2 ^ 1074) 1
      else fl_round binary64 ng (m * 2 ^ 1074) (10 ^ nat (- e)))"

definition parse_f64 :: "string \<Rightarrow> f64 option" where
  "parse_f64 s =
     (let (ng, body) = split_sign s; low = map to_ascii_lower body
      in if low = ''inf'' \<or> low = ''infinity'' then Some (pack64 (Fl ng (inf_mag binary64)))
         else if low = ''nan'' then Some (pack64 (fl_nan binary64))
         else (let (ip, rest) = span_digits body;
                   (fp, rest) = (case rest of c # cs \<Rightarrow> if c = CHR ''.'' then span_digits cs else ([], rest)
                                 | [] \<Rightarrow> ([], []))
               in if ip = [] \<and> fp = [] then None
                  else map_option (\<lambda>e. pack64 (fl_of_decimal ng (digits_value (ip @ fp)) (e - int (length fp))))
                         (parse_exponent rest)))"

section \<open>Printing and parsing\<close>

text \<open>Decimal digits of a number below \<open>2^64\<close> are read as that number.\<close>

fun decimal :: "nat \<Rightarrow> string" where
  "decimal n = (if n < 10 then [char_of (48 + n)] else decimal (n div 10) @ [char_of (48 + n mod 10)])"

declare decimal.simps [simp del]

lemma digit_of_char [simp]: "d < 10 \<Longrightarrow> digit_of (char_of (48 + d)) = Some d"
  by (simp add: digit_of_def Let_def)

lemma parse_digits_append:
  "parse_digits acc (xs @ ys) = Option.bind (parse_digits acc xs) (\<lambda>a. parse_digits a ys)"
  by (induction xs arbitrary: acc) (auto split: option.split)

lemma parse_digits_decimal: "n < 2 ^ 64 \<Longrightarrow> parse_digits 0 (decimal n) = Some n"
proof (induction n rule: less_induct)
  case (less n)
  show ?case
  proof (cases "n < 10")
    case True
    then show ?thesis by (simp add: decimal.simps [of n])
  next
    case False
    then have "parse_digits 0 (decimal (n div 10)) = Some (n div 10)" using less by simp
    moreover have "10 * (n div 10) + n mod 10 = n" by simp
    ultimately show ?thesis using False less.prems
      by (simp add: decimal.simps [of n] parse_digits_append)
  qed
qed

lemma decimal_hd: "decimal n \<noteq> []" "hd (decimal n) \<noteq> CHR ''+''"
proof -
  have "\<exists>d<10 :: nat. hd (decimal n) = char_of (48 + d) \<and> decimal n \<noteq> []"
  proof (induction n rule: less_induct)
    case (less n)
    show ?case
    proof (cases "n < 10")
      case False
      then obtain d :: nat where "d < 10" "hd (decimal (n div 10)) = char_of (48 + d)" "decimal (n div 10) \<noteq> []"
        using less [of "n div 10"] by auto
      then show ?thesis using False by (auto simp: decimal.simps [of n] hd_append)
    qed (auto simp: decimal.simps [of n])
  qed
  then obtain d :: nat where d: "d < 10" "hd (decimal n) = char_of (48 + d)" "decimal n \<noteq> []" by blast
  then show "decimal n \<noteq> []" by simp
  have "digit_of (CHR ''+'') = None" by (simp add: digit_of_def Let_def)
  with d digit_of_char [OF d(1)] show "hd (decimal n) \<noteq> CHR ''+''" by force
qed

lemma parse_usize_decimal:
  assumes "n < 2 ^ 64"
  shows "parse_usize (decimal n) = Some (word_of_nat n)"
  using parse_digits_decimal [OF assms] decimal_hd [of n] by (simp add: parse_usize_def Let_def)

lemma parse_usize_decimal_witness: "parse_usize (decimal 75) = Some 75"
  using parse_usize_decimal [of 75] by simp

end
