(* ===== verification/Flag_Loop.thy ===== *)
theory Flag_Loop
  imports Prelude
begin

text \<open>
  The interface of a command-line loop over pairs of a flag and its value, which the index
  builder and the mismatch classifier both have: one round looks at the flag and, when it knows
  the flag, at the argument after it. What follows from that alone: settings are worked off from
  left to right, and a loop that ends well has seen whole pairs.
\<close>

locale flag_loop =
  fixes known :: "string list"
    and setting :: "string \<Rightarrow> string \<Rightarrow> 'a \<Rightarrow> 'a outcome"
    and flag :: "string list \<Rightarrow> nat \<Rightarrow> 'a \<Rightarrow> 'a outcome"
    and loop :: "string list \<Rightarrow> nat \<Rightarrow> 'a \<Rightarrow> 'a outcome"
  assumes flag_at: "i < length raw \<Longrightarrow> flag raw i a =
      (if raw ! i \<notin> set known then Inl ProcessExit
       else if i + 1 < length raw then setting (raw ! i) (raw ! (i + 1)) a else Inl IndexPanic)"
    and loop_rec: "loop raw i a =
      (if i < length raw then and_then (flag raw i a) (\<lambda>b. loop raw (i + 2) b) else Inr a)"
begin

lemma loop_step:
  "i < length raw \<Longrightarrow> loop raw i a = and_then (flag raw i a) (\<lambda>b. loop raw (i + 2) b)"
  "length raw \<le> i \<Longrightarrow> loop raw i a = Inr a"
  by (subst loop_rec, simp)+

lemma flag_prefix: "i + 1 < length xs \<Longrightarrow> flag (xs @ ys) i a = flag xs i a"
  by (simp add: flag_at nth_append)

text \<open>Whole settings in front are worked off first.\<close>

lemma loop_append:
  assumes "even (length xs - i)" and "i \<le> length xs"
  shows "loop (xs @ ys) i a = and_then (loop xs i a) (\<lambda>b. loop (xs @ ys) (length xs) b)"
  using assms
proof (induction "length xs - i" arbitrary: i a rule: less_induct)
  case less
  show ?case
  proof (cases "i < length xs")
    case True
    have "length xs - i \<noteq> 1" using less.prems(1) by (intro notI) simp
    with True have i: "i + 1 < length xs" by linarith
    then have "even (length xs - (i + 2))" "i + 2 \<le> length xs" "length xs - (i + 2) < length xs - i"
      using less.prems(1) by auto
    then have IH: "loop (xs @ ys) (i + 2) b = and_then (loop xs (i + 2) b) (\<lambda>b. loop (xs @ ys) (length xs) b)" for b
      by (intro less.hyps) auto
    have "loop (xs @ ys) i a = and_then (flag xs i a) (\<lambda>b. loop (xs @ ys) (i + 2) b)"
      using True by (simp add: loop_step(1) [of i "xs @ ys"] flag_prefix [OF i])
    also have "\<dots> = and_then (and_then (flag xs i a) (\<lambda>b. loop xs (i + 2) b)) (\<lambda>b. loop (xs @ ys) (length xs) b)"
      by (simp only: IH and_then_assoc)
    finally show ?thesis using True by (simp add: loop_step(1) [of i xs])
  qed (use less.prems(2) in \<open>simp add: loop_step(2)\<close>)
qed

lemma loop_even: "loop xs i a = Inr b \<Longrightarrow> i \<le> length xs \<Longrightarrow> even (length xs - i)"
proof (induction "length xs - i" arbitrary: i a rule: less_induct)
  case less
  show ?case
  proof (cases "i < length xs")
    case True
    with less.prems(1) obtain c where c: "flag xs i a = Inr c" "loop xs (i + 2) c = Inr b"
      by (auto simp: loop_step and_then_eq_Inr)
    from c(1) True have i: "i + 1 < length xs" by (auto simp: flag_at split: if_splits)
    then have "even (length xs - (i + 2))" using c(2) by (intro less.hyps) auto
    moreover have "length xs - i = length xs - (i + 2) + 2" using i by simp
    ultimately show ?thesis by simp
  qed (use less.prems(2) in simp)
qed

text \<open>What one more flag does after settings that were worked off well.\<close>

lemma loop_next:
  assumes "loop (prog # settings) 1 a0 = Inr a"
  shows "loop (prog # settings @ f # rest) 1 a0 =
    (if f \<notin> set known then Inl ProcessExit
     else if rest = [] then Inl IndexPanic
     else and_then (setting f (hd rest) a) (\<lambda>b. loop (prog # settings @ f # rest) (length settings + 3) b))"
proof -
  let ?raw = "(prog # settings) @ f # rest" and ?n = "length (prog # settings)"
  have "even (?n - 1)" by (rule loop_even [OF assms]) simp
  then have "loop ?raw 1 a0 = loop ?raw ?n a"
    using loop_append [of "prog # settings" 1 "f # rest" a0] assms by simp
  also have "\<dots> = and_then (flag ?raw ?n a) (\<lambda>b. loop ?raw (?n + 2) b)" by (simp add: loop_step)
  also have "flag ?raw ?n a = (if f \<notin> set known then Inl ProcessExit
      else if rest \<noteq> [] then setting f (hd rest) a else Inl IndexPanic)"
  proof -
    have "?raw ! ?n = f" by (simp only: nth_append_length)
    moreover have "?raw ! (?n + 1) = hd rest" if "rest \<noteq> []" using that by (cases rest) (simp_all add: nth_append)
    moreover have "?n < length ?raw" "?n + 1 < length ?raw \<longleftrightarrow> rest \<noteq> []" by auto
    ultimately show ?thesis by (simp add: flag_at)
  qed
  finally show ?thesis by (simp add: numeral_3_eq_3)
qed

end

end
