(* ===== verification/Cli.thy ===== *)
theory Cli
  imports Std_Text Flag_Loop
begin

text \<open>
  The command line of the index builder, \<open>parse_args\<close> of buildindex.rs: the loop over the
  raw arguments, its defaults, and its three ways to stop, which are a flag without a value, a
  value that does not parse and an unknown flag. Parsing inverts printing; the last of several
  settings of one flag counts.
\<close>

section \<open>The code\<close>

record args =
  in_path :: string
  out_path :: string
  num_centroids :: usize
  sample_rate :: f64
  iters :: usize
  default_probes :: usize
  seed :: u64

definition default_args :: args where
  "default_args =
     \<lparr>in_path = ''references.json.gz'', out_path = ''index.ivf.bin'', num_centroids = 1000,
      sample_rate = f64_lit 1 10, iters = 20, default_probes = 20, seed = 42\<rparr>"

text \<open>\<open>expect\<close> on the result of \<open>parse\<close>.\<close>

definition expect_parsed :: "'a option \<Rightarrow> 'a outcome" where
  "expect_parsed x = (case x of None \<Rightarrow> Inl UnwrapPanic | Some y \<Rightarrow> Inr y)"

text \<open>The body of the loop: the flag at index \<open>i\<close> and its value at \<open>i + 1\<close>.\<close>

definition parse_flag :: "string list \<Rightarrow> nat \<Rightarrow> args \<Rightarrow> args outcome" where
  "parse_flag raw i a =
     (let flag = raw ! i; value = at_index raw (i + 1)
      in if flag = ''-in'' then and_then value (\<lambda>v. Inr (a\<lparr>in_path := v\<rparr>))
         else if flag = ''-out'' then and_then value (\<lambda>v. Inr (a\<lparr>out_path := v\<rparr>))
         else if flag = ''-centroids'' then
           and_then value (\<lambda>v. and_then (expect_parsed (parse_usize v)) (\<lambda>n. Inr (a\<lparr>num_centroids := n\<rparr>)))
         else if flag = ''-sample'' then
           and_then value (\<lambda>v. and_then (expect_parsed (parse_f64 v)) (\<lambda>x. Inr (a\<lparr>sample_rate := x\<rparr>)))
         else if flag = ''-iters'' then
           and_then value (\<lambda>v. and_then (expect_parsed (parse_usize v)) (\<lambda>n. Inr (a\<lparr>iters := n\<rparr>)))
         else if flag = ''-probes'' then
           and_then value (\<lambda>v. and_then (expect_parsed (parse_usize v)) (\<lambda>n. Inr (a\<lparr>default_probes := n\<rparr>)))
         else if flag = ''-seed'' then
           and_then value (\<lambda>v. and_then (expect_parsed (parse_usize v)) (\<lambda>n. Inr (a\<lparr>seed := n\<rparr>)))
         else Inl ProcessExit)"

function parse_loop :: "string list \<Rightarrow> nat \<Rightarrow> args \<Rightarrow> args outcome" where
  "parse_loop raw i a =
     (if i < length raw then and_then (parse_flag raw i a) (\<lambda>a. parse_loop raw (i + 2) a) else Inr a)"
  by pat_completeness auto
termination by (relation "measure (\<lambda>(raw, i, _). length raw - i)") auto

declare parse_loop.simps [simp del]

definition parse_args :: "string list \<Rightarrow> args outcome" where
  "parse_args raw = parse_loop raw 1 default_args"

section \<open>The loop\<close>

definition known_flags :: "string list" where
  "known_flags = [''-in'', ''-out'', ''-centroids'', ''-sample'', ''-iters'', ''-probes'', ''-seed'']"

text \<open>What one flag with its value does.\<close>

definition set_arg :: "string \<Rightarrow> string \<Rightarrow> args \<Rightarrow> args outcome" where
  "set_arg flag v a = parse_flag [flag, v] 0 a"

lemma parse_flag_at:
  assumes "i < length raw"
  shows "parse_flag raw i a =
    (if raw ! i \<notin> set known_flags then Inl ProcessExit
     else if i + 1 < length raw then set_arg (raw ! i) (raw ! (i + 1)) a else Inl IndexPanic)"
  using assms
  by (simp add: parse_flag_def set_arg_def known_flags_def at_index_def Let_def)

interpretation builder_flags: flag_loop known_flags set_arg parse_flag parse_loop
  by unfold_locales (rule parse_flag_at parse_loop.simps, assumption?)+

section \<open>Properties\<close>

text \<open>The arguments as a command line; the sample rate is any text that parses to it.\<close>

definition render_args :: "string \<Rightarrow> args \<Rightarrow> string list" where
  "render_args rate a =
     [''-in'', in_path a, ''-out'', out_path a, ''-centroids'', decimal (unat (num_centroids a)),
      ''-sample'', rate, ''-iters'', decimal (unat (iters a)),
      ''-probes'', decimal (unat (default_probes a)), ''-seed'', decimal (unat (seed a))]"

lemma parse_usize_unat [simp]: "parse_usize (decimal (unat (n :: 64 word))) = Some n"
  using parse_usize_decimal [of "unat n"] unsigned_less [of n] by simp

text \<open>C29: Parsing inverts printing: a command line that sets every flag, numbers in decimal, is
  parsed to exactly those arguments.\<close>

theorem parse_args_roundtrip:
  assumes "parse_f64 rate = Some (sample_rate a)"
  shows "parse_args (prog # render_args rate a) = Inr a"
  using assms
  by (cases a) (simp add: parse_args_def builder_flags.loop_step render_args_def parse_flag_def at_index_def
      expect_parsed_def Let_def default_args_def)

theorem parse_args_roundtrip_witness:
  "parse_args (''buildindex'' # render_args ''0.1'' default_args) = Inr default_args"
proof (rule parse_args_roundtrip)
  show "parse_f64 ''0.1'' = Some (sample_rate default_args)"
    by (simp add: parse_f64_def split_sign_def to_ascii_lower_def digit_of_def default_args_def
        parse_exponent_def digits_value_def fl_of_decimal_def f64_lit_def fl_of_ratio_def Let_def)
qed

text \<open>After settings that parse, another setting overrides what its flag had before; a known
  flag without a value is an index out of range, a value that is not a number panics, and an
  unknown flag ends the process whatever follows it.\<close>

theorem parse_args_continues:
  assumes "parse_args (prog # settings) = Inr a"
  shows "(flag \<in> set known_flags \<longrightarrow>
      parse_args (prog # settings @ [flag, v]) = set_arg flag v a \<and>
      parse_args (prog # settings @ [flag]) = Inl IndexPanic) \<and>
    (flag \<notin> set known_flags \<longrightarrow> parse_args (prog # settings @ flag # rest) = Inl ProcessExit) \<and>
    (parse_usize v = None \<longrightarrow> flag \<in> {''-centroids'', ''-iters'', ''-probes'', ''-seed''} \<longrightarrow>
      parse_args (prog # settings @ flag # v # rest) = Inl UnwrapPanic)"
proof -
  have loop: "parse_loop (prog # settings) 1 default_args = Inr a" using assms by (simp add: parse_args_def)
  note last = builder_flags.loop_next [OF loop, folded parse_args_def]
  have stop: "and_then m (\<lambda>b. parse_loop (prog # settings @ [flag, v]) (length settings + 3) b) = m" for m
    by (cases m) (simp_all add: builder_flags.loop_step)
  have bad: "flag \<in> {''-centroids'', ''-iters'', ''-probes'', ''-seed''} \<Longrightarrow> parse_usize v = None \<Longrightarrow>
      flag \<in> set known_flags \<and> set_arg flag v a = Inl UnwrapPanic"
    by (auto simp: set_arg_def parse_flag_def expect_parsed_def known_flags_def Let_def)
  show ?thesis
    using last [of flag "[v]"] last [of flag "[]"] last [of flag rest] last [of flag "v # rest"] bad
    by (simp only: stop list.sel list.distinct if_True if_False) (auto split: if_splits)
qed

theorem parse_args_continues_witness:
  "parse_args [''buildindex'', ''-iters'', decimal 5, ''-iters'', decimal 7] = Inr (default_args\<lparr>iters := 7\<rparr>) \<and>
   parse_args [''buildindex'', ''-iters'', decimal 5, ''-iters''] = Inl IndexPanic"
proof -
  have n: "parse_usize (decimal 5) = Some 5" "parse_usize (decimal 7) = Some 7"
    using parse_usize_decimal [of 5] parse_usize_decimal [of 7] by simp_all
  have "parse_args [''buildindex'', ''-iters'', decimal 5] = Inr (default_args\<lparr>iters := 5\<rparr>)"
    by (simp add: parse_args_def parse_loop.simps parse_flag_def n expect_parsed_def Let_def)
  from parse_args_continues [OF this, of "''-iters''" "decimal 7"] show ?thesis
    by (simp add: known_flags_def set_arg_def parse_flag_def n expect_parsed_def Let_def default_args_def)
qed

end
