(* ===== verification/Build.thy ===== *)
theory Build
  imports Unwrapper KMeans Cli Index_Format
begin

text \<open>
  The index builder, buildindex.rs: opening the compressed array of records, the sampling pass,
  the assignment pass and \<open>main\<close>. Decompression, the JSON stream and the random number generator
  are a record of functions; each record read is a parsed line or an error. The facts: the
  stream of an array file is the stream of its elements; the assignment puts every usable
  record, in file order, into the cluster of its nearest centroid, by the distance with which the
  searcher ranks the clusters; and what a build that gets through writes.
\<close>

section \<open>The code\<close>

record ref_line =
  rl_vector :: "f32 list"
  rl_label :: string

text \<open>What the passes return to \<open>main\<close> when they fail, and their panics.\<close>

datatype stop = OpenFailed | StreamFailed | Panicked fault

record ('r, 'e) libs =
  gunzip :: "u8 list \<Rightarrow> 'e read_event list" \<comment> \<open>\<open>GzDecoder\<close> over a file\<close>
  records :: "'e unwrapper \<Rightarrow> (string + ref_line) list" \<comment> \<open>\<open>serde_json\<close>'s stream\<close>
  random_f64 :: "'r \<Rightarrow> f64 \<times> 'r"
  shuffle :: "'r shuffle_fn"
  seed_from :: "u64 \<Rightarrow> 'r"

definition open_gz_array ::
  "('r, 'e) libs \<Rightarrow> file_system \<Rightarrow> string \<Rightarrow> stop + 'e unwrapper" where
  "open_gz_array L fs path =
     (case fs path of None \<Rightarrow> Inl OpenFailed | Some file \<Rightarrow> Inr (unwrapper_new (gunzip L file)))"

text \<open>One record in the sampling pass: too short, not drawn, or kept.\<close>

definition sample_record ::
  "('r, 'e) libs \<Rightarrow> f64 \<Rightarrow> f32 list list \<times> 'r \<Rightarrow> string + ref_line \<Rightarrow> stop + (f32 list list \<times> 'r)" where
  "sample_record L rate = (\<lambda>(sample, rng) result.
     (case result of Inl _ \<Rightarrow> Inl StreamFailed
      | Inr rec \<Rightarrow>
          if length (rl_vector rec) < DIMS then Inr (sample, rng)
          else (let (x, rng) = random_f64 L rng
                in if rate \<le> x then Inr (sample, rng)
                   else Inr (sample @ [take DIMS (rl_vector rec)], rng))))"

definition read_sample ::
  "('r, 'e) libs \<Rightarrow> file_system \<Rightarrow> string \<Rightarrow> f64 \<Rightarrow> 'r \<Rightarrow> stop + (f32 list list \<times> 'r)" where
  "read_sample L fs path rate rng =
     and_then (open_gz_array L fs path) (\<lambda>reader.
       try_fold (sample_record L rate) ([], rng) (records L reader))"

text \<open>One record in the assignment pass.\<close>

definition assign_record ::
  "f32 list list \<Rightarrow> entry list list \<times> usize \<Rightarrow> string + ref_line \<Rightarrow> stop + (entry list list \<times> usize)" where
  "assign_record centroids = (\<lambda>(clusters, total) result.
     (case result of Inl _ \<Rightarrow> Inl StreamFailed
      | Inr rec \<Rightarrow>
          if length (rl_vector rec) < DIMS then Inr (clusters, total)
          else (let v = take DIMS (rl_vector rec);
                    ci = nearest_centroid v centroids;
                    entry = \<lparr>e_vec = quantize_vec v, e_vec_f32 = v, e_fraud = (rl_label rec = ''fraud'')\<rparr>
                in if ci < length clusters
                   then Inr (clusters[ci := clusters ! ci @ [entry]], total + 1)
                   else Inl (Panicked IndexPanic))))"

definition assign_all ::
  "('r, 'e) libs \<Rightarrow> file_system \<Rightarrow> string \<Rightarrow> f32 list list \<Rightarrow> entry list list \<Rightarrow>
   stop + (entry list list \<times> usize)" where
  "assign_all L fs path centroids clusters =
     and_then (open_gz_array L fs path) (\<lambda>reader.
       try_fold (assign_record centroids) (clusters, 0) (records L reader))"

text \<open>\<open>unwrap_or_else(|e| panic!(...))\<close>; a panic of the callee stays what it is.\<close>

definition or_panic :: "stop + 'a \<Rightarrow> 'a outcome" where
  "or_panic r = (case r of Inr x \<Rightarrow> Inr x | Inl (Panicked f) \<Rightarrow> Inl f | Inl _ \<Rightarrow> Inl UnwrapPanic)"

definition build :: "('r, 'e) libs \<Rightarrow> device \<Rightarrow> args \<Rightarrow> file_system \<Rightarrow> file_system outcome" where
  "build L dev a fs =
     (let rng = seed_from L (seed a); k = unat (num_centroids a)
      in and_then (or_panic (read_sample L fs (in_path a) (sample_rate a) rng)) (\<lambda>(sample, rng).
         and_then (kmeans (shuffle L) sample k (unat (iters a)) rng) (\<lambda>(centroids, rng).
         and_then (or_panic (assign_all L fs (in_path a) centroids (replicate k []))) (\<lambda>(clusters, total).
         case write_index dev (out_path a) centroids clusters total
                (ucast (num_centroids a)) (ucast (default_probes a)) fs of
           Inl _ \<Rightarrow> Inl UnwrapPanic | Inr fs' \<Rightarrow> Inr fs'))))"

text \<open>The whole program: the command line, then the build.\<close>

definition buildindex ::
  "('r, 'e) libs \<Rightarrow> device \<Rightarrow> string list \<Rightarrow> file_system \<Rightarrow> file_system outcome" where
  "buildindex L dev raw fs = and_then (parse_args raw) (\<lambda>a. build L dev a fs)"

section \<open>The passes\<close>

text \<open>The records that are long enough to be used, and the entry each becomes.\<close>

definition usable :: "ref_line list \<Rightarrow> ref_line list" where
  "usable recs = filter (\<lambda>r. DIMS \<le> length (rl_vector r)) recs"

definition entry_of :: "ref_line \<Rightarrow> entry" where
  "entry_of r = \<lparr>e_vec = quantize_vec (take DIMS (rl_vector r)), e_vec_f32 = take DIMS (rl_vector r),
     e_fraud = (rl_label r = ''fraud'')\<rparr>"

definition cluster_of :: "f32 list list \<Rightarrow> ref_line \<Rightarrow> nat" where
  "cluster_of centroids r = nearest_centroid (take DIMS (rl_vector r)) centroids"

text \<open>
  The first of the centroids nearest to a vector, by the distance in single precision that the
  searcher ranks centroids with; distances that overflow or are no numbers do not count, and with no
  other the choice is 0.
\<close>

definition first_nearest :: "f32 list \<Rightarrow> f32 list list \<Rightarrow> nat \<Rightarrow> bool" where
  "first_nearest v centroids c \<longleftrightarrow>
     (let D = (\<lambda>i. centroid_distance v (centroids ! i))
      in if \<exists>i<length centroids. D i < f32_max
         then c < length centroids \<and> D c < f32_max \<and> (\<forall>i<length centroids. \<not> D i < D c) \<and>
           (\<forall>i<c. D c < D i \<or> is_nan32 (D i))
         else c = 0)"

lemma squared_euclidean_eq: "squared_euclidean = centroid_distance"
  by (simp add: squared_euclidean_def centroid_distance_def fun_eq_iff)

lemma first_nearest_unique:
  assumes "first_nearest v cs c" and "first_nearest v cs c'" shows "c = c'"
proof (cases "\<exists>i<length cs. centroid_distance v (cs ! i) < f32_max")
  case True
  have "\<not> a < b" if "first_nearest v cs a" "first_nearest v cs b" for a b
    using that True by (auto simp: first_nearest_def Let_def f32_less_iff)
  then show ?thesis using assms by (meson nat_neq_iff)
qed (use assms in \<open>simp add: first_nearest_def Let_def\<close>)

lemma nearest_centroid_iff: "nearest_centroid v cs = c \<longleftrightarrow> first_nearest v cs c"
proof -
  have "first_nearest v cs (nearest_centroid v cs)"
    by (rule nearest_centroid_cases [of v cs]; unfold squared_euclidean_eq)
      (auto simp: first_nearest_def Let_def)
  then show ?thesis using first_nearest_unique by metis
qed

text \<open>Cluster \<open>ci\<close> holds the entries of the usable records nearest to centroid \<open>ci\<close>, in order.\<close>

definition assigned :: "f32 list list \<Rightarrow> ref_line list \<Rightarrow> nat \<Rightarrow> entry list" where
  "assigned centroids recs ci = map entry_of (filter (\<lambda>r. cluster_of centroids r = ci) (usable recs))"

lemma usable_simps [simp]:
  "usable [] = []"
  "usable (r # recs) = (if DIMS \<le> length (rl_vector r) then r # usable recs else usable recs)"
  "usable (recs @ recs') = usable recs @ usable recs'"
  by (simp_all add: usable_def)

lemma assign_record_Inr:
  assumes "cents \<noteq> []" and "length clusters = length cents"
  shows "assign_record cents (clusters, n) (Inr r) =
    Inr (if DIMS \<le> length (rl_vector r)
         then (clusters[cluster_of cents r := clusters ! cluster_of cents r @ [entry_of r]], n + 1)
         else (clusters, n))"
  using nearest_centroid_less [OF assms(1), of "take DIMS (rl_vector r)"] assms(2)
  by (simp add: assign_record_def cluster_of_def entry_of_def Let_def)

lemma assign_records:
  assumes "cents \<noteq> []"
  shows "try_fold (assign_record cents) (replicate (length cents) [], 0) (map Inr recs) =
    Inr (map (assigned cents recs) [0..<length cents], word_of_nat (length (usable recs)))"
proof (induction recs rule: rev_induct)
  case Nil
  then show ?case by (simp add: assigned_def map_replicate_const)
next
  case (snoc r recs)
  have ci: "cluster_of cents r < length cents"
    using nearest_centroid_less [OF assms] by (simp add: cluster_of_def)
  have "map (assigned cents (recs @ [r])) [0..<length cents]
      = (map (assigned cents recs) [0..<length cents])[cluster_of cents r := assigned cents recs (cluster_of cents r) @ [entry_of r]]"
    if "DIMS \<le> length (rl_vector r)"
    using that ci by (intro nth_equalityI) (auto simp: assigned_def nth_list_update)
  moreover have "assigned cents (recs @ [r]) = assigned cents recs" if "\<not> DIMS \<le> length (rl_vector r)"
    using that by (rule_tac ext) (simp add: assigned_def)
  ultimately show ?case
    using ci by (simp add: try_fold_append snoc assign_record_Inr [OF assms] add.commute)
qed

text \<open>Every usable record is in one cluster, and in one only.\<close>

lemma mset_filter_split:
  "distinct cs \<Longrightarrow>
   mset (concat (map (\<lambda>c. map g (filter (\<lambda>x. f x = c) xs)) cs)) = mset (map g (filter (\<lambda>x. f x \<in> set cs) xs))"
proof (induction cs)
  case (Cons c cs)
  have "mset (filter (\<lambda>x. f x \<in> set (c # cs)) xs) = mset (filter (\<lambda>x. f x = c) xs) + mset (filter (\<lambda>x. f x \<in> set cs) xs)"
    using Cons.prems by (induction xs) auto
  then show ?case using Cons by (simp add: mset_map)
qed simp

lemma mset_assigned:
  assumes "cents \<noteq> []"
  shows "mset (concat (map (assigned cents recs) [0..<length cents])) = mset (map entry_of (usable recs))"
proof -
  have "filter (\<lambda>r. cluster_of cents r \<in> set [0..<length cents]) (usable recs) = usable recs"
    by (simp add: filter_id_conv cluster_of_def nearest_centroid_less [OF assms])
  with mset_filter_split [of "[0..<length cents]" entry_of "cluster_of cents" "usable recs"]
  show ?thesis unfolding assigned_def by (simp only: distinct_upt)
qed

lemma sample_records:
  "\<exists>kept rng'. try_fold (sample_record L rate) (sample, rng) (map Inr recs) = Inr (sample @ kept, rng') \<and>
     subseq kept (map (\<lambda>r. take DIMS (rl_vector r)) (usable recs)) \<and>
     ((\<forall>g. \<not> rate \<le> fst (random_f64 L g)) \<longrightarrow> kept = map (\<lambda>r. take DIMS (rl_vector r)) (usable recs))"
proof (induction recs arbitrary: sample rng)
  case (Cons r recs)
  obtain x g where draw: "random_f64 L rng = (x, g)" by (rule prod.exhaust)
  let ?v = "take DIMS (rl_vector r)"
  show ?case
  proof (cases "DIMS \<le> length (rl_vector r)")
    case False
    then show ?thesis using Cons [of sample rng] by (simp add: sample_record_def)
  next
    case long: True
    show ?thesis
    proof (cases "rate \<le> x")
      case True
      then have "\<exists>g. rate \<le> fst (random_f64 L g)" using draw by (metis fst_conv)
      then show ?thesis using Cons [of sample g] True long draw
        by (auto simp: sample_record_def Let_def)
    next
      case False
      from Cons [of "sample @ [?v]" g] obtain kept rng' where
        "try_fold (sample_record L rate) (sample @ [?v], g) (map Inr recs) = Inr (sample @ ?v # kept, rng')"
        "subseq kept (map (\<lambda>r. take DIMS (rl_vector r)) (usable recs))"
        "(\<forall>g. \<not> rate \<le> fst (random_f64 L g)) \<longrightarrow> kept = map (\<lambda>r. take DIMS (rl_vector r)) (usable recs)"
        by auto
      then show ?thesis using False long draw
        by (intro exI [of _ "?v # kept"] exI [of _ rng']) (simp add: sample_record_def Let_def)
    qed
  qed
qed simp

text \<open>A failing record stops either pass; nothing before it panics in the sampling pass.\<close>

lemma sample_stops:
  "Inl e \<in> set results \<Longrightarrow> try_fold (sample_record L rate) acc results = Inl StreamFailed"
proof (induction results arbitrary: acc)
  case (Cons r results)
  show ?case
  proof (cases r)
    case Inl
    then show ?thesis by (cases acc) (simp add: sample_record_def)
  next
    case (Inr rec)
    then have "\<exists>acc'. sample_record L rate acc r = Inr acc'"
      by (cases acc) (simp add: sample_record_def Let_def split: prod.split)
    then obtain acc' where "sample_record L rate acc r = Inr acc'" ..
    with Inr Cons show ?thesis by simp
  qed
qed simp

section \<open>Properties\<close>


text \<open>The sampling pass over a readable file returns a subsequence of the usable records'
  vectors, cut to 14 entries, and all of them when no draw reaches the rate.\<close>

theorem read_sample_subsequence:
  assumes "open_gz_array L fs path = Inr reader" and "records L reader = map Inr recs"
  shows "\<exists>sample rng'. read_sample L fs path rate rng = Inr (sample, rng') \<and>
    subseq sample (map (\<lambda>r. take DIMS (rl_vector r)) (usable recs)) \<and>
    ((\<forall>g. \<not> rate \<le> fst (random_f64 L g)) \<longrightarrow> sample = map (\<lambda>r. take DIMS (rl_vector r)) (usable recs))"
  using sample_records [of L rate "[]" rng recs] assms by (auto simp: read_sample_def)

text \<open>C12: The assignment pass over a readable file puts each usable record, in file order, into the
  cluster of the first centroid nearest to it, by the very distance the service ranks centroids
  with, and into no other cluster, and returns their number.\<close>

theorem assign_all_clusters:
  assumes "open_gz_array L fs path = Inr reader" and "records L reader = map Inr recs" and "centroids \<noteq> []"
  shows "\<exists>clusters. assign_all L fs path centroids (replicate (length centroids) [])
      = Inr (clusters, word_of_nat (length (usable recs))) \<and>
    length clusters = length centroids \<and>
    (\<forall>ci<length centroids. clusters ! ci =
      map entry_of (filter (\<lambda>r. first_nearest (take DIMS (rl_vector r)) centroids ci) (usable recs))) \<and>
    mset (concat clusters) = mset (map entry_of (usable recs))"
  using assign_records [OF assms(3), of recs] mset_assigned [OF assms(3), of recs] assms(1,2)
  by (intro exI [of _ "map (assigned centroids recs) [0..<length centroids]"])
    (simp add: assign_all_def assigned_def cluster_of_def nearest_centroid_iff)

text \<open>A missing input file and a record that does not parse both end the build with the panic of
  \<open>main\<close>, whatever the generator, the device and the other arguments.\<close>

theorem build_bad_input:
  assumes "fs (in_path a) = None \<or>
    (\<exists>reader e. open_gz_array L fs (in_path a) = Inr reader \<and> Inl e \<in> set (records L reader))"
  shows "build L dev a fs = Inl UnwrapPanic"
  using assms
proof
  assume "fs (in_path a) = None"
  then show ?thesis by (simp add: build_def read_sample_def open_gz_array_def or_panic_def Let_def)
next
  assume "\<exists>reader e. open_gz_array L fs (in_path a) = Inr reader \<and> Inl e \<in> set (records L reader)"
  then show ?thesis
    by (auto simp: build_def read_sample_def or_panic_def Let_def sample_stops)
qed

section \<open>Concrete libraries for the witnesses\<close>

text \<open>
  A stream that reads a record for every opening brace, a generator that always draws 0 and
  shuffles by reversing, and a file of two records.
\<close>

definition demo_values :: "u8 list \<Rightarrow> (string + ref_line) list" where
  "demo_values bs = map (\<lambda>b. if b = open_brace
       then Inr \<lparr>rl_vector = replicate DIMS 1, rl_label = ''fraud''\<rparr>
       else Inr \<lparr>rl_vector = replicate DIMS 0, rl_label = ''legit''\<rparr>)
     (filter (\<lambda>b. b = open_brace \<or> b = 0x30) bs)"

definition demo_libs :: "(unit, string) libs" where
  "demo_libs = \<lparr>gunzip = (\<lambda>b. [Chunk b]),
     records = (\<lambda>u. demo_values (fst (transduce (scan u) (events_bytes (inner u))))),
     random_f64 = (\<lambda>r. (0, r)), shuffle = (\<lambda>xs r. (rev xs, r)), seed_from = (\<lambda>_. ())\<rparr>"

definition demo_gz :: "u8 list" where
  "demo_gz = [open_bracket, open_brace, close_brace, comma, 0x30, close_bracket]"

definition demo_recs :: "ref_line list" where
  "demo_recs = [\<lparr>rl_vector = replicate DIMS 1, rl_label = ''fraud''\<rparr>,
     \<lparr>rl_vector = replicate DIMS 0, rl_label = ''legit''\<rparr>]"


lemma demo_reader:
  obtains reader where "open_gz_array demo_libs [''g'' \<mapsto> demo_gz] ''g'' = Inr reader"
    "records demo_libs reader = map Inr demo_recs"
  by (rule that [of "unwrapper_new [Chunk demo_gz]"])
    (simp_all add: open_gz_array_def demo_libs_def unwrapper_new_def demo_gz_def demo_recs_def demo_values_def
      scan_byte_def byte_consts Let_def)

theorem read_sample_subsequence_witness:
  "\<exists>rng'. read_sample demo_libs [''g'' \<mapsto> demo_gz] ''g'' 1 () = Inr ([replicate DIMS 1, replicate DIMS 0], rng')"
proof (rule demo_reader)
  fix reader assume "open_gz_array demo_libs [''g'' \<mapsto> demo_gz] ''g'' = Inr reader"
    "records demo_libs reader = map Inr demo_recs"
  from read_sample_subsequence [OF this, of 1 "()"] show ?thesis
    by (simp add: demo_libs_def demo_recs_def float_eval)
qed

theorem assign_all_clusters_witness:
  "\<exists>clusters. assign_all demo_libs [''g'' \<mapsto> demo_gz] ''g'' [replicate DIMS 0, replicate DIMS 1] [[], []] = Inr (clusters, 2) \<and>
    length clusters = 2 \<and> mset (concat clusters) = mset (map entry_of demo_recs)"
proof (rule demo_reader)
  fix reader assume r: "open_gz_array demo_libs [''g'' \<mapsto> demo_gz] ''g'' = Inr reader"
    "records demo_libs reader = map Inr demo_recs"
  have n: "usable demo_recs = demo_recs" "word_of_nat (length demo_recs) = (2 :: usize)"
    "length [replicate DIMS (0 :: f32), replicate DIMS 1] = 2" "replicate 2 [] = [[], [] :: entry list]"
    by (simp_all add: demo_recs_def numeral_eq_Suc)
  from assign_all_clusters [OF r, of "[replicate DIMS 0, replicate DIMS 1]"] show ?thesis
    unfolding n by blast
qed

theorem build_bad_input_witness:
  "build demo_libs \<lparr>can_create = \<lambda>_. True, accepts = \<lambda>_ _. True\<rparr> default_args [''x'' \<mapsto> []] = Inl UnwrapPanic"
  by (rule build_bad_input) (simp add: default_args_def)

section \<open>What a build writes\<close>

definition unit_records :: "ref_line list \<Rightarrow> bool" where
  "unit_records recs \<longleftrightarrow> unit_rows (map (\<lambda>r. take DIMS (rl_vector r)) (usable recs))"

lemma length_usable: "length (usable recs) \<le> length recs"
  by (simp add: usable_def)

lemma build_writes:
  assumes "shuffle_contract (shuffle L)"
    and "open_gz_array L fs (in_path a) = Inr reader" and "records L reader = map Inr recs"
    and "read_sample L fs (in_path a) (sample_rate a) (seed_from L (seed a)) = Inr (sample, rng')"
    and "0 < unat (num_centroids a)" and "unat (num_centroids a) \<le> length sample"
    and "unit_records recs" and "length recs < 2 ^ 53"
  obtains centroids where "length centroids = unat (num_centroids a)" "unit_rows centroids"
    "build L dev a fs =
      (case write_index dev (out_path a) centroids (map (assigned centroids recs) [0..<length centroids])
         (word_of_nat (length (usable recs))) (ucast (num_centroids a)) (ucast (default_probes a)) fs of
         Inl _ \<Rightarrow> Inl UnwrapPanic | Inr fs' \<Rightarrow> Inr fs')"
proof -
  let ?vs = "map (\<lambda>r. take DIMS (rl_vector r)) (usable recs)" and ?k = "unat (num_centroids a)"
  have sub: "subseq sample ?vs"
    using read_sample_subsequence [OF assms(2,3), of "sample_rate a" "seed_from L (seed a)"] assms(4) by auto
  have "set sample \<subseteq> set ?vs" by (auto elim: list_emb_set [OF sub])
  then have rows: "unit_rows sample" using assms(7) unfolding unit_records_def unit_rows_def by blast
  have "length sample \<le> length ?vs" by (rule list_emb_length [OF sub])
  then have "length sample < 2 ^ 53" using length_usable [of recs] assms(8) by simp
  from kmeans_unit_rows [OF assms(1) rows this assms(5,6)] obtain cents g where
    km: "kmeans (shuffle L) sample ?k (unat (iters a)) rng' = Inr (cents, g)" "unit_rows cents" "length cents = ?k"
    by blast
  then have "cents \<noteq> []" using assms(5) by auto
  then have "assign_all L fs (in_path a) cents (replicate ?k [])
      = Inr (map (assigned cents recs) [0..<length cents], word_of_nat (length (usable recs)))"
    using assign_records [of cents recs] assms(2,3) km(3) by (simp add: assign_all_def)
  then show thesis
    using km assms(4) by (intro that [of cents]) (simp_all add: build_def or_panic_def Let_def)
qed

lemma assigned_rows:
  assumes "unit_rows centroids" and "centroids \<noteq> []"
  shows "rows_ok centroids (map (assigned centroids recs) [0..<length centroids])"
    and "list_all (list_all f32_finite) centroids"
    and "sizes_sum (map (assigned centroids recs) [0..<length centroids]) = length (usable recs)"
proof -
  show "rows_ok centroids (map (assigned centroids recs) [0..<length centroids])"
    using assms(1) by (auto simp: rows_ok_def unit_rows_def list_all_iff assigned_def entry_of_def)
  show "list_all (list_all f32_finite) centroids"
    using assms(1) unit32_finite by (auto simp: unit_rows_def list_all_iff)
  have "size (mset (concat (map (assigned centroids recs) [0..<length centroids])))
      = size (mset (map entry_of (usable recs)))"
    by (simp only: mset_assigned [OF assms(2)])
  then show "sizes_sum (map (assigned centroids recs) [0..<length centroids]) = length (usable recs)"
    by (simp add: length_concat_clusters)
qed

end
