(* ===== verification/Vectorize.thy ===== *)
theory Vectorize
  imports Quantize
begin

text \<open>
  Feature extraction, vectorize.rs: the request as the JSON gives it, and \<open>vectorize\<close>, which
  turns it into the 14 numbers the index is searched with. The RFC 3339 parser of chrono is a
  parameter; the calendar arithmetic the code asks of chrono (hour, weekday, whole seconds
  between two times, leap seconds included) is modelled on a day number and a time of day.
\<close>

section \<open>Times\<close>

text \<open>\<open>NaiveDateTime\<close>, with the date as the number of days since 1970-01-01. A leap second has
  \<open>frac\<close> at or above \<open>10^9\<close>.\<close>

record naive_datetime =
  nd_days :: int
  nd_secs :: nat
  nd_frac :: nat

definition epoch :: naive_datetime where
  "epoch = \<lparr>nd_days = 0, nd_secs = 0, nd_frac = 0\<rparr>"

definition hour :: "naive_datetime \<Rightarrow> nat" where
  "hour t = nd_secs t div 3600"

text \<open>1970-01-01 was a Thursday.\<close>

definition num_days_from_monday :: "naive_datetime \<Rightarrow> nat" where
  "num_days_from_monday t = nat ((nd_days t + 3) mod 7)"

definition num_seconds_between :: "naive_datetime \<Rightarrow> naive_datetime \<Rightarrow> int" where
  "num_seconds_between a b =
     (let secs = int (nd_secs a) - int (nd_secs b);
          frac = int (nd_frac a) - int (nd_frac b);
          secs = (if nd_secs b < nd_secs a \<and> 1000000000 \<le> nd_frac b then secs + 1
                  else if nd_secs a < nd_secs b \<and> 1000000000 \<le> nd_frac a then secs - 1
                  else secs);
          total = (nd_days a - nd_days b) * 86400 + secs + frac div 1000000000;
          nanos = frac mod 1000000000
      in if total < 0 \<and> 0 < nanos then total + 1 else total)"

type_synonym rfc3339 = "string \<Rightarrow> naive_datetime option"

text \<open>What the code relies on: the constant it falls back to parses, and times are in range.\<close>

definition rfc3339_contract :: "rfc3339 \<Rightarrow> bool" where
  "rfc3339_contract parse \<longleftrightarrow>
     parse ''1970-01-01T00:00:00Z'' = Some epoch \<and>
     (\<forall>s t. parse s = Some t \<longrightarrow> nd_secs t < 86400 \<and> nd_frac t < 2000000000)"

section \<open>The request\<close>

type_synonym mcc_risk = "string \<rightharpoonup> f32"

record normalization =
  max_amount :: f32
  max_installments :: f32
  amount_vs_avg_ratio :: f32
  max_minutes :: f32
  max_km :: f32
  max_tx_count_24h :: f32
  max_merchant_avg_amount :: f32

record transaction =
  t_amount :: f32
  t_installments :: i32
  t_requested_at :: string

record customer =
  cu_avg_amount :: f32
  cu_tx_count_24h :: i32
  cu_known_merchants :: "string list"

record merchant =
  m_id :: string
  m_mcc :: string
  m_avg_amount :: f32

record terminal =
  te_is_online :: bool
  te_card_present :: bool
  te_km_from_home :: f32

record last_tx =
  l_timestamp :: string
  l_km_from_current :: f32

record request =
  r_id :: string
  r_transaction :: transaction
  r_customer :: customer
  r_merchant :: merchant
  r_terminal :: terminal
  r_last_tx :: "last_tx option"

section \<open>\<open>vectorize\<close>\<close>

definition DEFAULT_MCC_RISK :: f32 where "DEFAULT_MCC_RISK = F32 0x3f000000" \<comment> \<open>0.5\<close>

definition clamp :: "f32 \<Rightarrow> f32" where
  "clamp v = f32_clamp 0 1 v"

definition bool_f :: "bool \<Rightarrow> f32" where
  "bool_f b = (if b then 1 else 0)"

definition tx_time_of :: "rfc3339 \<Rightarrow> string \<Rightarrow> naive_datetime outcome" where
  "tx_time_of parse s =
     (case parse s of Some t \<Rightarrow> Inr t
      | None \<Rightarrow> (case parse ''1970-01-01T00:00:00Z'' of Some t \<Rightarrow> Inr t | None \<Rightarrow> Inl UnwrapPanic))"

definition vectorize ::
  "rfc3339 \<Rightarrow> request \<Rightarrow> normalization \<Rightarrow> mcc_risk \<Rightarrow> f32 list outcome" where
  "vectorize parse req nrm mcc =
     (let tx = r_transaction req; cu = r_customer req; me = r_merchant req; te = r_terminal req;
          v = replicate DIMS 0;
          v = v[0 := clamp (t_amount tx / max_amount nrm)];
          v = v[1 := clamp (f32_of_int (sint (t_installments tx)) / max_installments nrm)];
          v = (if cu_avg_amount cu > 0
               then v[2 := clamp ((t_amount tx / cu_avg_amount cu) / amount_vs_avg_ratio nrm)] else v)
      in and_then (tx_time_of parse (t_requested_at tx)) (\<lambda>naive.
     let v = v[3 := f32_of_int (int (hour naive)) / f32_of_int 23];
         v = v[4 := f32_of_int (int (num_days_from_monday naive)) / f32_of_int 6];
         v = (case r_last_tx req of
                None \<Rightarrow> v[5 := - 1, 6 := - 1]
              | Some prev \<Rightarrow>
                  (let last_time = (case parse (l_timestamp prev) of Some t \<Rightarrow> t | None \<Rightarrow> naive);
                       minutes = f32_of_int (num_seconds_between naive last_time) / f32_of_int 60
                   in v[5 := clamp (minutes / max_minutes nrm),
                        6 := clamp (l_km_from_current prev / max_km nrm)]));
         v = v[7 := clamp (te_km_from_home te / max_km nrm)];
         v = v[8 := clamp (f32_of_int (sint (cu_tx_count_24h cu)) / max_tx_count_24h nrm)];
         v = v[9 := bool_f (te_is_online te)];
         v = v[10 := bool_f (te_card_present te)];
         v = v[11 := bool_f (\<not> list_ex (\<lambda>m. m = m_id me) (cu_known_merchants cu))];
         v = v[12 := (case mcc (m_mcc me) of Some r \<Rightarrow> r | None \<Rightarrow> DEFAULT_MCC_RISK)];
         v = v[13 := clamp (m_avg_amount me / max_merchant_avg_amount nrm)]
     in Inr v))"

section \<open>Division and clamping\<close>

definition f32_positive :: "f32 \<Rightarrow> bool" where
  "f32_positive x \<longleftrightarrow> f32_finite x \<and> 0 < x"

lemma f32_positive_iff: "f32_positive x \<longleftrightarrow> f32_finite x \<and> \<not> neg (unpack32 x) \<and> 0 < mag (unpack32 x)"
  using f32_finite_not_nan [of x]
  by (auto simp: f32_positive_def f32_less_iff f32_key_def fl_key_def)

lemma clamp_range: "\<not> is_nan32 x \<Longrightarrow> 0 \<le> clamp x \<and> clamp x \<le> 1"
  by (auto simp: clamp_def f32_clamp_def Let_def f32_less_iff f32_less_eq_iff is_nan32_iff [of 1]
      f32_key_def [of 1] fl_key_def)

lemma div_not_nan:
  assumes "\<not> is_nan32 x" and "f32_positive y"
  shows "\<not> is_nan32 (x / y)"
  using assms mag_fl_round [of binary32]
  by (auto simp: f32_positive_iff f32_finite_iff is_nan32_iff unpack32_ops fl_div_def fl_is_nan_def
      fl_is_inf_def Let_def not_less)

lemma of_int_not_nan: "\<not> is_nan32 (f32_of_int i)"
  using mag_fl_round [of binary32] by (simp add: is_nan32_iff unpack32_ops fl_of_int_def not_less)

lemma clamp_div_range:
  "\<not> is_nan32 x \<Longrightarrow> f32_positive y \<Longrightarrow> 0 \<le> clamp (x / y) \<and> clamp (x / y) \<le> 1"
  by (intro clamp_range div_not_nan)

text \<open>Small integers are exact, and a quotient of two of them is at most 1 when the first is
  at most the second.\<close>

lemma unpack32_of_nat:
  assumes "n < 2 ^ 24"
  shows "\<not> neg (unpack32 (f32_of_int (int n)))" "f32_finite (f32_of_int (int n))"
    "mag_units binary32 (mag (unpack32 (f32_of_int (int n)))) = n * 2 ^ 149"
proof -
  have u: "unpack32 (f32_of_int (int n)) = Fl False (round_mag binary32 (n * 2 ^ 149) 1)"
    by (simp add: unpack32_ops fl_of_int_def fl_round_def)
  have "n \<le> 2 ^ 24" using assms by simp
  then have lt: "round_mag binary32 (n * 2 ^ 149) 1 \<le> 1266679808"
    by (intro round_mag_le) (simp_all add: mag_units_def)
  then show "\<not> neg (unpack32 (f32_of_int (int n)))" "f32_finite (f32_of_int (int n))"
    by (simp_all add: u f32_finite_iff)
  show "mag_units binary32 (mag (unpack32 (f32_of_int (int n)))) = n * 2 ^ 149"
    unfolding u using mag_units_round_exact [of binary32 n 149] assms lt by simp
qed

lemma of_nat_div:
  assumes "a < 2 ^ 24" and "b < 2 ^ 24" and "0 < b"
  shows "unpack32 (f32_of_int (int a) / f32_of_int (int b))
    = Fl False (round_mag binary32 (a * 2 ^ 149) b)"
proof -
  let ?x = "unpack32 (f32_of_int (int a))" and ?y = "unpack32 (f32_of_int (int b))"
  note x = unpack32_of_nat [OF assms(1)] and y = unpack32_of_nat [OF assms(2)]
  have "mag ?y \<noteq> 0" using y(3) assms(3) by (intro notI) simp
  then have "unpack32 (f32_of_int (int a) / f32_of_int (int b))
      = fl_round binary32 False (a * 2 ^ 149 * 2 ^ 149) (b * 2 ^ 149)"
    using x y by (simp add: unpack32_ops(4) fl_div_def fl_is_nan_def fl_is_inf_def f32_finite_iff Let_def)
  then show ?thesis using round_mag_scale [of "2 ^ 149" binary32 "a * 2 ^ 149" b]
    by (simp add: fl_round_def)
qed

lemma zero_div: "f32_positive y \<Longrightarrow> 0 / y = 0"
proof (rule unpack32_inj)
  assume y: "f32_positive y"
  then have "0 < mag_units binary32 (mag (unpack32 y))"
    using mag_units_less_iff [of 0 binary32 "mag (unpack32 y)"] by (simp add: f32_positive_iff f32_finite_iff)
  with y round_mag_exact [of 0 binary32] show "unpack32 (0 / y) = unpack32 0"
    by (simp add: f32_positive_iff f32_finite_iff unpack32_ops(4) fl_div_def fl_is_nan_def fl_is_inf_def
        fl_round_def Let_def)
qed

lemma mag_units_one [simp]: "mag_units binary32 1065353216 = 2 ^ 149"
  by (simp add: mag_units_def)

lemma of_nat_div_range:
  assumes "a \<le> b" and "b < 2 ^ 24" and "0 < b"
  shows "0 \<le> f32_of_int (int a) / f32_of_int (int b) \<and> f32_of_int (int a) / f32_of_int (int b) \<le> 1"
proof -
  have a: "a < 2 ^ 24" using assms by simp
  have "round_mag binary32 (a * 2 ^ 149) b \<le> 1065353216"
    using assms by (intro round_mag_le) simp_all
  then show ?thesis using of_nat_div [OF a assms(2,3)]
    by (simp add: f32_less_eq_iff is_nan32_iff f32_key_def fl_key_def)
qed

lemma of_nat_div_ends:
  assumes "b < 2 ^ 24" and "0 < b"
  shows "f32_of_int 0 / f32_of_int (int b) = 0" "f32_of_int (int b) / f32_of_int (int b) = 1"
proof -
  have "round_mag binary32 0 b = 0" using round_mag_exact [of 0 binary32 b] assms by simp
  then show "f32_of_int 0 / f32_of_int (int b) = 0"
    using of_nat_div [of 0 b] assms by (intro unpack32_inj) simp
  have "round_mag binary32 (b * 2 ^ 149) b = 1065353216"
    using round_mag_exact [of 1065353216 binary32 b] assms by (simp add: ac_simps)
  then show "f32_of_int (int b) / f32_of_int (int b) = 1"
    using of_nat_div [of b b] assms by (intro unpack32_inj) simp
qed

section \<open>The vector as a whole\<close>

text \<open>The recency and distance features, with the sentinel -1 when there is no last transaction.\<close>

definition minutes_dim :: "rfc3339 \<Rightarrow> request \<Rightarrow> normalization \<Rightarrow> naive_datetime \<Rightarrow> f32" where
  "minutes_dim parse req nrm naive =
     (case r_last_tx req of None \<Rightarrow> - 1
      | Some prev \<Rightarrow> clamp (f32_of_int (num_seconds_between naive
           (case parse (l_timestamp prev) of Some t \<Rightarrow> t | None \<Rightarrow> naive)) / f32_of_int 60 / max_minutes nrm))"

definition km_dim :: "request \<Rightarrow> normalization \<Rightarrow> f32" where
  "km_dim req nrm =
     (case r_last_tx req of None \<Rightarrow> - 1 | Some prev \<Rightarrow> clamp (l_km_from_current prev / max_km nrm))"

definition avg_dim :: "request \<Rightarrow> normalization \<Rightarrow> f32" where
  "avg_dim req nrm =
     (if cu_avg_amount (r_customer req) > 0
      then clamp ((t_amount (r_transaction req) / cu_avg_amount (r_customer req)) / amount_vs_avg_ratio nrm)
      else 0)"

lemma vectorize_eq:
  assumes "tx_time_of parse (t_requested_at (r_transaction req)) = Inr naive"
  shows "vectorize parse req nrm mcc = Inr
    [clamp (t_amount (r_transaction req) / max_amount nrm),
     clamp (f32_of_int (sint (t_installments (r_transaction req))) / max_installments nrm),
     avg_dim req nrm,
     f32_of_int (int (hour naive)) / f32_of_int 23,
     f32_of_int (int (num_days_from_monday naive)) / f32_of_int 6,
     minutes_dim parse req nrm naive,
     km_dim req nrm,
     clamp (te_km_from_home (r_terminal req) / max_km nrm),
     clamp (f32_of_int (sint (cu_tx_count_24h (r_customer req))) / max_tx_count_24h nrm),
     bool_f (te_is_online (r_terminal req)),
     bool_f (te_card_present (r_terminal req)),
     bool_f (m_id (r_merchant req) \<notin> set (cu_known_merchants (r_customer req))),
     (case mcc (m_mcc (r_merchant req)) of Some r \<Rightarrow> r | None \<Rightarrow> DEFAULT_MCC_RISK),
     clamp (m_avg_amount (r_merchant req) / max_merchant_avg_amount nrm)]"
proof -
  have zeros: "replicate DIMS 0 = [0, 0, 0, 0, 0, 0, 0, 0, 0, 0, 0, 0, 0, 0 :: f32]"
    by (simp add: DIMS_def numeral_eq_Suc)
  have known: "list_ex (\<lambda>m. m = x) xs \<longleftrightarrow> x \<in> set xs" for x and xs :: "string list"
    by (auto simp: list_ex_iff)
  show ?thesis
    unfolding vectorize_def Let_def assms and_then_simps zeros known
    by (cases "r_last_tx req")
      (simp_all add: minutes_dim_def km_dim_def avg_dim_def numeral_eq_Suc)
qed

lemma tx_time_of_ok:
  assumes "rfc3339_contract parse"
  obtains t where "tx_time_of parse s = Inr t" "nd_secs t < 86400"
    "t = (case parse s of Some t \<Rightarrow> t | None \<Rightarrow> epoch)"
  using assms by (cases "parse s") (auto simp: rfc3339_contract_def tx_time_of_def epoch_def)

section \<open>Properties\<close>

text \<open>Positive finite constants, finite request numbers and risks between 0 and 1.\<close>

definition norm_ok :: "normalization \<Rightarrow> bool" where
  "norm_ok n \<longleftrightarrow> list_all f32_positive
     [max_amount n, max_installments n, amount_vs_avg_ratio n, max_minutes n, max_km n,
      max_tx_count_24h n, max_merchant_avg_amount n]"

definition request_finite :: "request \<Rightarrow> bool" where
  "request_finite req \<longleftrightarrow> list_all f32_finite
     [t_amount (r_transaction req), cu_avg_amount (r_customer req), m_avg_amount (r_merchant req),
      te_km_from_home (r_terminal req)] \<and>
     (case r_last_tx req of None \<Rightarrow> True | Some l \<Rightarrow> f32_finite (l_km_from_current l))"

definition risk_ok :: "mcc_risk \<Rightarrow> bool" where
  "risk_ok mcc \<longleftrightarrow> (\<forall>r\<in>ran mcc. 0 \<le> r \<and> r \<le> 1)"

lemma sixty_positive: "f32_positive (f32_of_int 60)"
proof -
  have "mag (unpack32 (f32_of_int (int 60))) \<noteq> 0" using unpack32_of_nat(3) [of 60] by (intro notI) simp
  then show ?thesis using unpack32_of_nat(1,2) [of 60] by (simp add: f32_positive_iff)
qed

lemma minus_one_key: "f32_key (- 1) = - 1065353216" "\<not> is_nan32 (- 1)"
proof -
  have "unpack32 (- 1 :: f32) = Fl True 1065353216"
    by (simp add: uminus_f32_def unpack_pack32 fl_neg_def)
  then show "f32_key (- 1) = - 1065353216" "\<not> is_nan32 (- 1)"
    by (simp_all add: f32_key_def fl_key_def is_nan32_iff)
qed

lemma one_range [simp]: "(0 :: f32) \<le> 0" "(0 :: f32) \<le> 1" "(1 :: f32) \<le> 1"
  by (simp_all add: f32_less_eq_iff is_nan32_iff f32_key_def fl_key_def)

lemma half_range: "0 \<le> DEFAULT_MCC_RISK" "DEFAULT_MCC_RISK \<le> 1"
  by (simp_all add: DEFAULT_MCC_RISK_def float_eval)

text \<open>For every request \<open>vectorize\<close> returns 14 numbers: a time that does not parse never
  panics, since the fallback does parse.\<close>

theorem vectorize_total:
  assumes "rfc3339_contract parse"
  shows "\<exists>v. vectorize parse req nrm mcc = Inr v \<and> length v = DIMS"
proof -
  obtain t where "tx_time_of parse (t_requested_at (r_transaction req)) = Inr t"
    by (rule tx_time_of_ok [OF assms])
  from vectorize_eq [OF this] show ?thesis by (simp add: DIMS_def)
qed

text \<open>A parser of two strings, for the witnesses: the fallback and a Monday at 23:00.\<close>

definition demo_parse :: rfc3339 where
  "demo_parse = [''1970-01-01T00:00:00Z'' \<mapsto> epoch,
     ''2026-03-23T23:00:00Z'' \<mapsto> \<lparr>nd_days = 20535, nd_secs = 82800, nd_frac = 0\<rparr>]"

definition demo_norm :: normalization where
  "demo_norm = \<lparr>max_amount = 1, max_installments = 1, amount_vs_avg_ratio = 1, max_minutes = 1,
     max_km = 1, max_tx_count_24h = 1, max_merchant_avg_amount = 1\<rparr>"

definition demo_request :: "string \<Rightarrow> last_tx option \<Rightarrow> request" where
  "demo_request ts0 prev =
     \<lparr>r_id = ''r'', r_transaction = \<lparr>t_amount = 1, t_installments = 0, t_requested_at = ts0\<rparr>,
      r_customer = \<lparr>cu_avg_amount = 1, cu_tx_count_24h = 0, cu_known_merchants = [''m'']\<rparr>,
      r_merchant = \<lparr>m_id = ''m'', m_mcc = ''0000'', m_avg_amount = 1\<rparr>,
      r_terminal = \<lparr>te_is_online = True, te_card_present = False, te_km_from_home = 0\<rparr>,
      r_last_tx = prev\<rparr>"

lemma demo_request_ok:
  "rfc3339_contract demo_parse" "norm_ok demo_norm" "risk_ok Map.empty"
  "request_finite (demo_request ts0 None)"
  "request_finite (demo_request ts0 (Some \<lparr>l_timestamp = ts, l_km_from_current = 0\<rparr>))"
  by (auto simp: rfc3339_contract_def demo_parse_def epoch_def norm_ok_def demo_norm_def f32_positive_iff
      f32_finite_iff risk_ok_def request_finite_def demo_request_def split: if_splits)

theorem vectorize_total_witness:
  "\<exists>v. vectorize demo_parse (demo_request ''yesterday'' None) demo_norm Map.empty = Inr v \<and> length v = 14"
  using vectorize_total [OF demo_request_ok(1)] by (simp add: DIMS_def)

lemma vectorize_range_aux:
  assumes "rfc3339_contract parse" and "norm_ok nrm" and "request_finite req" and "risk_ok mcc"
    and "vectorize parse req nrm mcc = Inr v" and "i < DIMS"
  shows "0 \<le> v ! i \<and> v ! i \<le> 1 \<or> (i = 5 \<or> i = 6) \<and> r_last_tx req = None \<and> v ! i = - 1"
proof -
  obtain t where t: "tx_time_of parse (t_requested_at (r_transaction req)) = Inr t" "nd_secs t < 86400"
    by (rule tx_time_of_ok [OF assms(1)])
  note fin = assms(3) [unfolded request_finite_def, simplified]
  note pos = assms(2) [unfolded norm_ok_def, simplified]
  note nan = f32_finite_not_nan
  let ?unit = "\<lambda>x :: f32. 0 \<le> x \<and> x \<le> 1"
  have 2: "?unit (avg_dim req nrm)"
  proof (cases "cu_avg_amount (r_customer req) > 0")
    case True
    then have "f32_positive (cu_avg_amount (r_customer req))" using fin by (simp add: f32_positive_def)
    with True show ?thesis using fin pos nan by (simp add: avg_dim_def clamp_div_range div_not_nan)
  qed (simp add: avg_dim_def)
  have 3: "?unit (f32_of_int (int (hour t)) / f32_of_int 23)"
    using of_nat_div_range [of "hour t" 23] t(2) by (simp add: hour_def)
  have 4: "?unit (f32_of_int (int (num_days_from_monday t)) / f32_of_int 6)"
    using of_nat_div_range [of "num_days_from_monday t" 6] by (simp add: num_days_from_monday_def nat_le_iff)
  have 5: "?unit (minutes_dim parse req nrm t) \<or> r_last_tx req = None \<and> minutes_dim parse req nrm t = - 1"
    using pos sixty_positive
    by (cases "r_last_tx req") (simp_all add: minutes_dim_def clamp_div_range div_not_nan of_int_not_nan)
  have 6: "?unit (km_dim req nrm) \<or> r_last_tx req = None \<and> km_dim req nrm = - 1"
    using fin pos nan by (cases "r_last_tx req") (auto simp: km_dim_def intro!: clamp_div_range)
  have 12: "?unit (case mcc (m_mcc (r_merchant req)) of Some r \<Rightarrow> r | None \<Rightarrow> DEFAULT_MCC_RISK)"
    using assms(4) half_range by (auto simp: risk_ok_def ran_def split: option.split)
  have div: "?unit (clamp (t_amount (r_transaction req) / max_amount nrm))"
    "?unit (clamp (f32_of_int (sint (t_installments (r_transaction req))) / max_installments nrm))"
    "?unit (clamp (te_km_from_home (r_terminal req) / max_km nrm))"
    "?unit (clamp (f32_of_int (sint (cu_tx_count_24h (r_customer req))) / max_tx_count_24h nrm))"
    "?unit (clamp (m_avg_amount (r_merchant req) / max_merchant_avg_amount nrm))"
    using fin pos nan by (auto intro!: clamp_div_range of_int_not_nan)
  have flag: "?unit (bool_f b)" for b by (simp add: bool_f_def)
  have "i \<in> {0, 1, 2, 3, 4, 5, 6, 7, 8, 9, 10, 11, 12, 13}" using assms(6) unfolding DIMS_def insert_iff empty_iff by presburger
  then show ?thesis
    using assms(5) [unfolded vectorize_eq [OF t(1)]] 2 3 4 5 6 12 div flag
    by (elim insertE) (simp_all add: eq_commute [of _ v])
qed

text \<open>C10: With positive finite normalization constants, finite request numbers and risks in
  \<open>[0, 1]\<close>, every feature is a number in \<open>[0, 1]\<close>, never a NaN or an infinity, but for the
  sentinel -1 of the two features about the last transaction when there is none.\<close>

theorem vectorize_range:
  assumes "rfc3339_contract parse" and "norm_ok nrm" and "request_finite req" and "risk_ok mcc"
    and "vectorize parse req nrm mcc = Inr v" and "i < DIMS"
  shows "0 \<le> v ! i \<and> v ! i \<le> 1 \<or> (i = 5 \<or> i = 6) \<and> r_last_tx req = None \<and> v ! i = - 1"
  using assms by (rule vectorize_range_aux)

theorem vectorize_range_witness:
  "\<exists>v. vectorize demo_parse (demo_request ''yesterday'' None) demo_norm Map.empty = Inr v \<and>
    0 \<le> v ! 3 \<and> v ! 3 \<le> 1"
proof -
  obtain t where "tx_time_of demo_parse (t_requested_at (r_transaction (demo_request ''yesterday'' None))) = Inr t"
    by (rule tx_time_of_ok [OF demo_request_ok(1)])
  from vectorize_eq [OF this] obtain v where
    v: "vectorize demo_parse (demo_request ''yesterday'' None) demo_norm Map.empty = Inr v" by blast
  with vectorize_range [OF demo_request_ok(1,2,4,3) v, of 3] show ?thesis by (auto simp: DIMS_def)
qed

text \<open>C36: The calendar features are exact at both ends: at 00:xx UTC feature 3 is 0 and at 23:xx it
  is 1; feature 4 is 0 on a Monday and 1 on a Sunday, as the specification of the features asks.\<close>

theorem vectorize_calendar:
  assumes "parse (t_requested_at (r_transaction req)) = Some t"
    and "vectorize parse req nrm mcc = Inr v"
  shows "(nd_secs t < 3600 \<longrightarrow> v ! 3 = 0) \<and> (82800 \<le> nd_secs t \<and> nd_secs t < 86400 \<longrightarrow> v ! 3 = 1) \<and>
    (nd_days t mod 7 = 4 \<longrightarrow> v ! 4 = 0) \<and> (nd_days t mod 7 = 3 \<longrightarrow> v ! 4 = 1)"
proof -
  have "tx_time_of parse (t_requested_at (r_transaction req)) = Inr t"
    using assms(1) by (simp add: tx_time_of_def)
  from vectorize_eq [OF this] assms(2) have
    v3: "v ! 3 = f32_of_int (int (hour t)) / f32_of_int 23" and
    v4: "v ! 4 = f32_of_int (int (num_days_from_monday t)) / f32_of_int 6" by auto
  have "hour t = 0" if "nd_secs t < 3600" using that by (simp add: hour_def)
  moreover have "hour t = 23" if "82800 \<le> nd_secs t" "nd_secs t < 86400"
    using that by (simp add: hour_def)
  moreover have "num_days_from_monday t = 0" if "nd_days t mod 7 = 4"
  proof -
    have "(nd_days t + 3) mod 7 = 0" using that by presburger
    then show ?thesis by (simp add: num_days_from_monday_def)
  qed
  moreover have "num_days_from_monday t = 6" if "nd_days t mod 7 = 3"
  proof -
    have "(nd_days t + 3) mod 7 = 6" using that by presburger
    then show ?thesis by (simp add: num_days_from_monday_def)
  qed
  ultimately show ?thesis
    using v3 v4 of_nat_div_ends [of 23] of_nat_div_ends [of 6] by auto
qed

text \<open>2026-03-23 is a Monday.\<close>

theorem vectorize_calendar_witness:
  "\<exists>v. vectorize demo_parse (demo_request ''2026-03-23T23:00:00Z'' None) demo_norm Map.empty = Inr v \<and>
    v ! 3 = 1 \<and> v ! 4 = 0"
proof -
  let ?t = "\<lparr>nd_days = 20535, nd_secs = 82800, nd_frac = 0\<rparr>"
  have p: "demo_parse (t_requested_at (r_transaction (demo_request ''2026-03-23T23:00:00Z'' None))) = Some ?t"
    by (simp add: demo_parse_def demo_request_def)
  then have "tx_time_of demo_parse (t_requested_at (r_transaction (demo_request ''2026-03-23T23:00:00Z'' None)))
      = Inr ?t" by (simp add: tx_time_of_def)
  from vectorize_eq [OF this] obtain v where
    v: "vectorize demo_parse (demo_request ''2026-03-23T23:00:00Z'' None) demo_norm Map.empty = Inr v" by blast
  with vectorize_calendar [OF p v] show ?thesis by simp
qed

text \<open>A transaction time that does not parse is treated as midnight of 1970-01-01, and a last
  transaction whose time does not parse as one at the moment of the request: feature 5 is then 0,
  as for a transaction made just now.\<close>

theorem vectorize_bad_times:
  assumes "rfc3339_contract parse" and "norm_ok nrm" and "vectorize parse req nrm mcc = Inr v"
    and "r_last_tx req = Some prev" and "parse (l_timestamp prev) = None"
  shows "v ! 5 = 0 \<and> (parse (t_requested_at (r_transaction req)) = None \<longrightarrow>
    v ! 3 = 0 \<and> v ! 4 = f32_of_int 3 / f32_of_int 6)"
proof -
  obtain t where t: "tx_time_of parse (t_requested_at (r_transaction req)) = Inr t"
    "t = (case parse (t_requested_at (r_transaction req)) of Some t \<Rightarrow> t | None \<Rightarrow> epoch)"
    by (rule tx_time_of_ok [OF assms(1)])
  from vectorize_eq [OF t(1)] assms(3) have
    v3: "v ! 3 = f32_of_int (int (hour t)) / f32_of_int 23" and
    v4: "v ! 4 = f32_of_int (int (num_days_from_monday t)) / f32_of_int 6" and
    v5: "v ! 5 = minutes_dim parse req nrm t" by auto
  have "num_seconds_between t t = 0" by (simp add: num_seconds_between_def)
  then have "minutes_dim parse req nrm t = clamp (f32_of_int 0 / f32_of_int 60 / max_minutes nrm)"
    using assms(4,5) by (simp add: minutes_dim_def)
  also have "f32_of_int 0 / f32_of_int 60 = 0" using of_nat_div_ends(1) [of 60] by simp
  also have "0 / max_minutes nrm = 0" using assms(2) by (simp add: norm_ok_def zero_div)
  also have "clamp 0 = 0" by (simp add: clamp_def f32_clamp_def f32_less_iff f32_key_def fl_key_def)
  finally have "v ! 5 = 0" using v5 by simp
  moreover have "v ! 3 = 0 \<and> v ! 4 = f32_of_int 3 / f32_of_int 6"
    if "parse (t_requested_at (r_transaction req)) = None"
    using that v3 v4 t(2) of_nat_div_ends(1) [of 23]
    by (simp add: epoch_def hour_def num_days_from_monday_def)
  ultimately show ?thesis by blast
qed

theorem vectorize_bad_times_witness:
  "\<exists>v. vectorize demo_parse (demo_request ''?'' (Some \<lparr>l_timestamp = ''?'', l_km_from_current = 0\<rparr>))
      demo_norm Map.empty = Inr v \<and> v ! 5 = 0 \<and> v ! 3 = 0"
proof -
  let ?r = "demo_request ''?'' (Some \<lparr>l_timestamp = ''?'', l_km_from_current = 0\<rparr>)"
  obtain t where "tx_time_of demo_parse (t_requested_at (r_transaction ?r)) = Inr t"
    by (rule tx_time_of_ok [OF demo_request_ok(1)])
  from vectorize_eq [OF this] obtain v where v: "vectorize demo_parse ?r demo_norm Map.empty = Inr v" by blast
  moreover have "demo_parse ''?'' = None" by (simp add: demo_parse_def)
  ultimately show ?thesis
    using vectorize_bad_times [OF demo_request_ok(1,2) v] by (auto simp: demo_request_def)
qed

text \<open>C35: After quantization the sentinel stays apart from every real value: the level of feature 5
  and of feature 6 is -127 when there is no last transaction and between 0 and 127 when there is.\<close>

theorem sentinel_level_separate:
  assumes "rfc3339_contract parse" and "norm_ok nrm" and "request_finite req"
    and "vectorize parse req nrm mcc = Inr v" and "i = 5 \<or> i = 6"
  shows "if r_last_tx req = None then sint (quantize (v ! i)) = - 127
         else 0 \<le> sint (quantize (v ! i)) \<and> sint (quantize (v ! i)) \<le> 127"
proof -
  obtain t where t: "tx_time_of parse (t_requested_at (r_transaction req)) = Inr t"
    by (rule tx_time_of_ok [OF assms(1)])
  from vectorize_eq [OF t] assms(4) have
    v: "v ! 5 = minutes_dim parse req nrm t" "v ! 6 = km_dim req nrm" by auto
  show ?thesis
  proof (cases "r_last_tx req")
    case None
    have "quant_level 1065353216 = 127"
      using round_mag_exact [of 1123942400 binary32 1] by (simp add: quant_level_def)
    then have "sint (quantize (- 1)) = - 127"
      by (simp add: sint_quantize minus_one_key uminus_f32_def unpack_pack32 fl_neg_def is_nan32_iff)
    then show ?thesis using None v assms(5) by (auto simp: minutes_dim_def km_dim_def)
  next
    case (Some prev)
    have pos: "f32_positive (max_minutes nrm)" "f32_positive (max_km nrm)"
      using assms(2) by (simp_all add: norm_ok_def)
    have "f32_finite (l_km_from_current prev)" using assms(3) Some by (simp add: request_finite_def)
    then have "0 \<le> v ! i"
      using Some v assms(5) pos sixty_positive
      by (auto simp: minutes_dim_def km_dim_def f32_finite_not_nan clamp_div_range div_not_nan of_int_not_nan)
    from quantize_mono_aux [OF this] have "0 \<le> sint (quantize (v ! i))" by (simp add: sint_quantize)
    then show ?thesis using Some quantize_range(2) by simp
  qed
qed

theorem sentinel_level_separate_witness:
  "\<exists>v. vectorize demo_parse (demo_request ''?'' None) demo_norm Map.empty = Inr v \<and>
    sint (quantize (v ! 5)) = - 127"
proof -
  let ?r = "demo_request ''?'' None"
  obtain t where "tx_time_of demo_parse (t_requested_at (r_transaction ?r)) = Inr t"
    by (rule tx_time_of_ok [OF demo_request_ok(1)])
  from vectorize_eq [OF this] obtain v where v: "vectorize demo_parse ?r demo_norm Map.empty = Inr v" by blast
  moreover have "r_last_tx ?r = None" by (simp add: demo_request_def)
  ultimately show ?thesis using sentinel_level_separate [OF demo_request_ok(1,2,4) v, of 5] by simp
qed

end
