(* ===== verification/Timing.thy ===== *)
theory Timing
  imports Ieee
begin

text \<open>
  The timing histograms, timing.rs: \<open>PhaseStats\<close> with its 64-bit atomic counters, \<open>record\<close> as
  one call and as its three separate atomic steps, the percentile estimate and the metrics
  page. The page is modelled as the data it prints; the padding of its columns is not.
\<close>

section \<open>\<open>PhaseStats\<close>\<close>

definition BOUNDS :: "u64 list" where
  "BOUNDS = [10, 50, 100, 250, 500, 1000, 5000]"

definition N :: nat where "N = 8"

text \<open>The labels as UTF-8 bytes: the micro sign and the sign for greater or equal.\<close>

abbreviation micro :: string where "micro \<equiv> [CHR 0xC2, CHR 0xB5, CHR ''s'']"
abbreviation at_least :: string where "at_least \<equiv> [CHR 0xE2, CHR 0x89, CHR 0xA5]"

definition LABELS :: "string list" where
  "LABELS = [''<10'' @ micro, ''<50'' @ micro, ''<100'' @ micro, ''<250'' @ micro, ''<500'' @ micro,
     ''<1ms'', ''<5ms'', at_least @ ''5ms'']"

record phase_stats =
  ps_name :: string
  sum_us :: u64
  ps_count :: u64
  buckets :: "u64 list"

definition phase_stats_new :: "string \<Rightarrow> phase_stats" where
  "phase_stats_new nm = \<lparr>ps_name = nm, sum_us = 0, ps_count = 0, buckets = replicate N 0\<rparr>"

text \<open>\<open>BOUNDS.iter().position(|&b| us < b).unwrap_or(N - 1)\<close>.\<close>

fun position :: "('a \<Rightarrow> bool) \<Rightarrow> 'a list \<Rightarrow> nat option" where
  "position p [] = None"
| "position p (x # xs) = (if p x then Some 0 else map_option Suc (position p xs))"

definition bucket_index :: "u64 \<Rightarrow> nat" where
  "bucket_index us = (case position (\<lambda>b. us < b) BOUNDS of Some i \<Rightarrow> i | None \<Rightarrow> N - 1)"

text \<open>The three atomic additions of \<open>record\<close>; \<open>fetch_add\<close> wraps around.\<close>

definition add_sum :: "u64 \<Rightarrow> phase_stats \<Rightarrow> phase_stats" where
  "add_sum us st = st\<lparr>sum_us := sum_us st + us\<rparr>"
definition add_count :: "phase_stats \<Rightarrow> phase_stats" where
  "add_count st = st\<lparr>ps_count := ps_count st + 1\<rparr>"
definition add_bucket :: "u64 \<Rightarrow> phase_stats \<Rightarrow> phase_stats" where
  "add_bucket us st = st\<lparr>buckets := (buckets st)[bucket_index us := buckets st ! bucket_index us + 1]\<rparr>"

definition record_us :: "u64 \<Rightarrow> phase_stats \<Rightarrow> phase_stats" where
  "record_us us st = add_bucket us (add_count (add_sum us st))"

section \<open>The report\<close>

definition pct_target :: "u64 \<Rightarrow> f64 \<Rightarrow> u64" where
  "pct_target n pct = f64_to_u64 (f64_of_int (uint n) * pct)"

text \<open>The loop over the cumulative counts, from bucket \<open>i\<close> on.\<close>

fun pct_loop :: "u64 \<Rightarrow> u64 \<Rightarrow> nat \<Rightarrow> u64 list \<Rightarrow> nat" where
  "pct_loop target cum i [] = N - 1"
| "pct_loop target cum i (b # bs) =
     (let cum = cum + b in if cum \<ge> target then i else pct_loop target cum (i + 1) bs)"

definition pct_label :: "phase_stats \<Rightarrow> f64 \<Rightarrow> string" where
  "pct_label st pct = LABELS ! pct_loop (pct_target (ps_count st) pct) 0 0 (buckets st)"

datatype phase_report =
    NoData string
  | PhaseReport (rep_name: string) (rep_n: u64) (rep_avg: u64) (rep_p50: string) (rep_p99: string)
      (rep_counts: "(string \<times> u64) list")

definition P50 :: f64 where "P50 = f64_lit 50 100"
definition P99 :: f64 where "P99 = f64_lit 99 100"

definition report :: "phase_stats \<Rightarrow> phase_report" where
  "report st =
     (let n = ps_count st
      in if n = 0 then NoData (ps_name st)
         else PhaseReport (ps_name st) n (sum_us st div n) (pct_label st P50) (pct_label st P99)
           (filter (\<lambda>(l, c). c > 0) (zip LABELS (buckets st))))"

section \<open>The metrics page\<close>

record metrics =
  mt_enabled :: bool
  mt_parse :: phase_stats
  mt_vectorize :: phase_stats
  mt_search :: phase_stats
  mt_total :: phase_stats

definition metrics_new :: "bool \<Rightarrow> metrics" where
  "metrics_new on =
     \<lparr>mt_enabled = on, mt_parse = phase_stats_new ''parse'', mt_vectorize = phase_stats_new ''vectorize'',
      mt_search = phase_stats_new ''search'', mt_total = phase_stats_new ''total''\<rparr>"

text \<open>\<open>str::lines\<close>: split at line feeds, a carriage return before one dropped, no empty last line.\<close>

definition strip_cr :: "string \<Rightarrow> string" where
  "strip_cr l = (if l \<noteq> [] \<and> last l = CHR 0x0D then butlast l else l)"

fun lines_from :: "string \<Rightarrow> string \<Rightarrow> string list" where
  "lines_from acc [] = (if acc = [] then [] else [acc])"
| "lines_from acc (c # cs) =
     (if c = CHR 0x0A then strip_cr acc # lines_from [] cs else lines_from (acc @ [c]) cs)"

definition lines :: "string \<Rightarrow> string list" where
  "lines s = lines_from [] s"

definition starts_with :: "string \<Rightarrow> string \<Rightarrow> bool" where
  "starts_with s pre = (take (length pre) s = pre)"

definition cfs_paths :: "string list" where
  "cfs_paths = [''/sys/fs/cgroup/cpu.stat'', ''/sys/fs/cgroup/cpu,cpuacct/cpu.stat'']"

definition cfs_diagnostic :: "string \<Rightarrow> bool" where
  "cfs_diagnostic line = (starts_with line ''nr_throttled'' \<or> starts_with line ''throttled_usec'' \<or>
     starts_with line ''nr_periods'' \<or> starts_with line ''nr_burst'' \<or> starts_with line ''burst_usec'')"

datatype cfs_report =
    CfsNotFound
  | CfsCounters string "(bool \<times> string) list" \<comment> \<open>the path, and each line with its tag\<close>

fun cfs_scan :: "(string \<rightharpoonup> string) \<Rightarrow> string list \<Rightarrow> cfs_report" where
  "cfs_scan fs [] = CfsNotFound"
| "cfs_scan fs (p # ps) =
     (case fs p of
        Some content \<Rightarrow> CfsCounters p (map (\<lambda>line. (cfs_diagnostic line, line)) (lines content))
      | None \<Rightarrow> cfs_scan fs ps)"

definition cfs_stats :: "(string \<rightharpoonup> string) \<Rightarrow> cfs_report" where
  "cfs_stats fs = cfs_scan fs cfs_paths"

datatype metrics_page = MetricsDisabled | MetricsPage "phase_report list" cfs_report

definition report_all :: "(string \<rightharpoonup> string) \<Rightarrow> metrics \<Rightarrow> metrics_page" where
  "report_all fs m =
     (if \<not> mt_enabled m then MetricsDisabled
      else MetricsPage [report (mt_parse m), report (mt_vectorize m), report (mt_search m), report (mt_total m)]
        (cfs_stats fs))"

section \<open>Histograms of recorded values\<close>

lemma bucket_index_less [simp]: "bucket_index us < N"
  by (simp add: bucket_index_def BOUNDS_def N_def split: option.split)

text \<open>The statistics after recording a list of values, in closed form.\<close>

definition hist :: "u64 list \<Rightarrow> nat \<Rightarrow> nat" where
  "hist xs i = length (filter (\<lambda>us. bucket_index us = i) xs)"

definition stats_of :: "string \<Rightarrow> u64 list \<Rightarrow> phase_stats" where
  "stats_of nm xs =
     \<lparr>ps_name = nm, sum_us = sum_list xs, ps_count = word_of_nat (length xs),
      buckets = map (\<lambda>i. word_of_nat (hist xs i)) [0..<N]\<rparr>"

lemma stats_of_Nil: "stats_of nm [] = phase_stats_new nm"
  by (simp add: stats_of_def phase_stats_new_def hist_def map_replicate_const)

lemma hist_Cons: "hist (us # xs) i = (if bucket_index us = i then hist xs i + 1 else hist xs i)"
  by (simp add: hist_def)

lemma buckets_add:
  "(map (\<lambda>i. word_of_nat (hist xs i) :: u64) [0..<N])[bucket_index us := word_of_nat (hist xs (bucket_index us)) + 1]
    = map (\<lambda>i. word_of_nat (hist (us # xs) i)) [0..<N]"
  by (rule nth_equalityI) (auto simp: nth_list_update hist_Cons)

lemma record_us_stats_of: "record_us us (stats_of nm xs) = stats_of nm (us # xs)"
  using bucket_index_less [of us] buckets_add [of xs us]
  by (simp add: record_us_def add_sum_def add_count_def add_bucket_def stats_of_def add.commute
      del: bucket_index_less)

lemma hist_sum: "(\<Sum>i<N. hist xs i) = length xs"
proof (induction xs)
  case (Cons us xs)
  have "(\<Sum>i<N. hist (us # xs) i) = (\<Sum>i<N. hist xs i + (if bucket_index us = i then 1 else 0))"
    by (intro sum.cong) (auto simp: hist_Cons)
  also have "\<dots> = (\<Sum>i<N. hist xs i) + 1" by (simp add: sum.distrib)
  finally show ?case using Cons by simp
qed (simp add: hist_def)

section \<open>Concurrent recording\<close>

text \<open>
  Handlers run on several threads and \<open>record\<close> is three relaxed additions, so another thread may
  run between any two of them. A thread is idle, or has added to the sum, or to the sum and the
  count. A step that begins a call carries the value it records.
\<close>

datatype pc = Idle | Summed u64 | Counted u64

type_synonym shared = "phase_stats \<times> pc list"

inductive record_step :: "u64 option \<Rightarrow> shared \<Rightarrow> shared \<Rightarrow> bool" where
  rec_sum: "i < length pcs \<Longrightarrow> pcs ! i = Idle \<Longrightarrow>
    record_step (Some us) (st, pcs) (add_sum us st, pcs[i := Summed us])"
| rec_count: "i < length pcs \<Longrightarrow> pcs ! i = Summed us \<Longrightarrow>
    record_step None (st, pcs) (add_count st, pcs[i := Counted us])"
| rec_bucket: "i < length pcs \<Longrightarrow> pcs ! i = Counted us \<Longrightarrow>
    record_step None (st, pcs) (add_bucket us st, pcs[i := Idle])"

text \<open>A run of \<open>n\<close> threads, with the values of all calls begun in it, the last one first.\<close>

inductive recording :: "string \<Rightarrow> nat \<Rightarrow> u64 list \<Rightarrow> shared \<Rightarrow> bool" for nm n where
  init: "recording nm n [] (phase_stats_new nm, replicate n Idle)"
| begins: "recording nm n xs s \<Longrightarrow> record_step (Some us) s s' \<Longrightarrow> recording nm n (us # xs) s'"
| goes_on: "recording nm n xs s \<Longrightarrow> record_step None s s' \<Longrightarrow> recording nm n xs s'"

text \<open>The value of a call under way, and whether it is before its addition to the count.\<close>

fun pc_value :: "pc \<Rightarrow> u64 list" where
  "pc_value Idle = []" | "pc_value (Summed us) = [us]" | "pc_value (Counted us) = [us]"

fun uncounted :: "pc \<Rightarrow> nat" where
  "uncounted Idle = 0" | "uncounted (Summed us) = 1" | "uncounted (Counted us) = 0"

definition under_way :: "pc list \<Rightarrow> u64 list" where
  "under_way pcs = concat (map pc_value pcs)"

text \<open>
  All calls begun are in the sum; all but those before their second addition are in the count; and
  the buckets hold the calls that are done, which with those under way are the calls begun.
\<close>

definition record_inv :: "string \<Rightarrow> nat \<Rightarrow> u64 list \<Rightarrow> shared \<Rightarrow> u64 list \<Rightarrow> bool" where
  "record_inv nm n xs s finished \<longleftrightarrow> (let (st, pcs) = s in
     length pcs = n \<and> ps_name st = nm \<and> mset xs = mset finished + mset (under_way pcs) \<and>
     sum_us st = sum_list xs \<and>
     ps_count st + word_of_nat (sum_list (map uncounted pcs)) = word_of_nat (length xs) \<and>
     buckets st = map (\<lambda>i. word_of_nat (hist finished i)) [0..<N])"

lemma sum_list_replace:
  fixes f :: "'a \<Rightarrow> 'b::comm_monoid_add"
  shows "i < length xs \<Longrightarrow> sum_list (map f (xs[i := y])) + f (xs ! i) = sum_list (map f xs) + f y"
proof (induction xs arbitrary: i)
  case (Cons x xs)
  then show ?case
  proof (cases i)
    case (Suc j)
    with Cons.IH [of j] Cons.prems show ?thesis by (simp add: add.assoc)
  qed (simp add: ac_simps)
qed simp

lemma under_way_update:
  assumes "i < length pcs"
  shows "mset (under_way (pcs[i := p])) + mset (pc_value (pcs ! i)) = mset (under_way pcs) + mset (pc_value p)"
proof -
  have "mset (under_way ps) = sum_list (map (mset \<circ> pc_value) ps)" for ps
    by (induction ps) (simp_all add: under_way_def)
  then show ?thesis using sum_list_replace [OF assms, of "mset \<circ> pc_value" p] by simp
qed

text \<open>The facts about an updated thread that the three kinds of step share.\<close>

lemma record_inv_begins:
  assumes "record_step (Some us) s s'" and "record_inv nm n xs s finished"
  shows "record_inv nm n (us # xs) s' finished"
proof -
  obtain st pcs where s: "s = (st, pcs)" by (cases s)
  note inv = assms(2) [unfolded s record_inv_def, simplified]
  from assms(1) [unfolded s] show ?thesis
  proof cases
    case (rec_sum i)
    with under_way_update [of i pcs "Summed us"] sum_list_replace [of i pcs uncounted "Summed us"] inv
    show ?thesis by (simp add: record_inv_def add_sum_def algebra_simps)
  qed
qed

lemma record_inv_goes_on:
  assumes "record_step None s s'" and "record_inv nm n xs s finished"
  shows "\<exists>finished'. record_inv nm n xs s' finished'"
proof -
  obtain st pcs where s: "s = (st, pcs)" by (cases s)
  note inv = assms(2) [unfolded s record_inv_def, simplified]
  from assms(1) [unfolded s] show ?thesis
  proof cases
    case (rec_count i us)
    have "sum_list (map uncounted pcs) = sum_list (map uncounted (pcs[i := Counted us])) + 1"
      using rec_count sum_list_replace [of i pcs uncounted "Counted us"] by simp
    with rec_count under_way_update [of i pcs "Counted us"] inv
    have "record_inv nm n xs s' finished" by (simp add: record_inv_def add_count_def algebra_simps)
    then show ?thesis ..
  next
    case (rec_bucket i us)
    with under_way_update [of i pcs Idle] sum_list_replace [of i pcs uncounted Idle] inv buckets_add [of finished us]
    have "record_inv nm n xs s' (us # finished)" by (simp add: record_inv_def add_bucket_def)
    then show ?thesis ..
  qed
qed

lemma record_inv_recording:
  assumes "recording nm n xs s" shows "\<exists>finished. record_inv nm n xs s finished"
  using assms
proof induction
  case init
  have "record_inv nm n [] (phase_stats_new nm, replicate n Idle) []"
    by (simp add: record_inv_def phase_stats_new_def hist_def map_replicate_const sum_list_replicate under_way_def)
  then show ?case ..
qed (use record_inv_begins record_inv_goes_on in blast)+

text \<open>The counters do not depend on the order of the values.\<close>

lemma stats_of_mset:
  assumes "mset xs = mset ys" shows "stats_of nm xs = stats_of nm ys"
proof -
  have "hist xs i = hist ys i" for i
    unfolding hist_def using assms by (metis mset_filter size_mset)
  moreover have "sum_list xs = sum_list ys" using assms by (metis sum_mset_sum_list)
  ultimately show ?thesis using mset_eq_length [OF assms] by (simp add: stats_of_def)
qed

lemma all_idle:
  "\<forall>p\<in>set pcs. p = Idle \<Longrightarrow> under_way pcs = [] \<and> sum_list (map uncounted pcs) = 0"
  by (induction pcs) (simp_all add: under_way_def)

section \<open>The median\<close>

lemma unpack64_P50: "unpack64 P50 = Fl False 4602678819172646912"
proof -
  have "mag_units binary64 4602678819172646912 = 2 ^ 1073" by (simp add: mag_units_def)
  then have "round_mag binary64 (50 * 2 ^ 1074) 100 = 4602678819172646912"
    using round_mag_exact [of 4602678819172646912 binary64 100] by simp
  then show ?thesis by (simp add: P50_def f64_lit_def fl_of_ratio_def unpack_pack64 fl_round_def)
qed

text \<open>With fewer than \<open>2^53\<close> records the target of the median is half their number, rounded down.\<close>

lemma pct_target_P50:
  assumes "unat n < 2 ^ 53"
  shows "unat (pct_target n P50) = unat n div 2"
proof -
  let ?n = "unat n"
  define M where "M = round_mag binary64 (?n * 2 ^ 1074) 1"
  have M_le: "M \<le> 4845873199050653696"
    unfolding M_def using assms by (intro round_mag_le) (simp_all add: mag_units_def)
  then have M: "mag_units binary64 M = ?n * 2 ^ 1074"
    unfolding M_def using mag_units_round_exact [of binary64 ?n 1074] assms by simp
  define H where "H = round_mag binary64 (?n * 2 ^ 1073) 1"
  have H_le: "H \<le> 4845873199050653696"
    unfolding H_def using assms by (intro round_mag_le) (simp_all add: mag_units_def)
  then have H: "mag_units binary64 H = ?n * 2 ^ 1073"
    unfolding H_def using mag_units_round_exact [of binary64 ?n 1073] assms by simp
  have int: "unpack64 (f64_of_int (uint n)) = Fl False M"
  proof -
    have "nat \<bar>uint n\<bar> = ?n" by simp
    then have "f64_of_int (uint n) = pack64 (Fl False M)"
      unfolding f64_of_int_def fl_of_int_def fl_round_def binary64_sel M_def by simp
    then show ?thesis using M_le by (simp add: unpack_pack64)
  qed
  have "unpack64 (f64_of_int (uint n) * P50) = Fl False H"
  proof -
    have "mag_units binary64 4602678819172646912 = 2 ^ 1073" by (simp add: mag_units_def)
    then have "round_mag binary64 (mag_units binary64 M * mag_units binary64 4602678819172646912) (2 ^ 1074) = H"
      using round_mag_scale [of "2 ^ 1074" binary64 "?n * 2 ^ 1073" 1] by (simp add: M H_def ac_simps)
    moreover have "fl_mul binary64 (Fl False M) (Fl False 4602678819172646912) = Fl False
        (round_mag binary64 (mag_units binary64 M * mag_units binary64 4602678819172646912) (2 ^ 1074))"
      using M_le by (simp add: fl_mul_def fl_is_nan_def fl_is_inf_def fl_round_def)
    ultimately show ?thesis using H_le by (simp add: times_f64_def int unpack64_P50 unpack_pack64)
  qed
  then have "pct_target n P50 = word_of_int (int (?n * 2 ^ 1073 div 2 ^ 1074))"
    using H_le assms
    by (simp add: pct_target_def f64_to_u64_def fl_to_int_def fl_is_nan_def fl_is_inf_def Let_def H)
  also have "?n * 2 ^ 1073 div 2 ^ 1074 = ?n div 2" by simp
  finally show ?thesis using assms by (simp add: unat_of_nat)
qed

text \<open>The loop stops at the first bucket whose cumulative count reaches the target.\<close>

lemma pct_loop_spec:
  assumes "c + sum_list ks < 2 ^ 64" and "unat target \<le> c + sum_list ks" and "ks \<noteq> []"
    and "pct_loop target (word_of_nat c) i (map word_of_nat ks) = r"
  shows "i \<le> r \<and> r < i + length ks \<and> unat target \<le> c + sum_list (take (r - i + 1) ks) \<and>
    (\<forall>j<r - i. c + sum_list (take (j + 1) ks) < unat target)"
  using assms
proof (induction ks arbitrary: c i)
  case (Cons k ks)
  have ck: "unat (word_of_nat (c + k) :: u64) = c + k"
    using Cons.prems(1) by (simp add: unat_of_nat del: of_nat_add)
  show ?case
  proof (cases "unat target \<le> c + k")
    case True
    then have "r = i" using Cons.prems(4) ck by (simp add: Let_def word_le_nat_alt)
    then show ?thesis using True by simp
  next
    case False
    then have ks: "ks \<noteq> []" using Cons.prems(2) by (cases ks) auto
    have "pct_loop target (word_of_nat (c + k)) (i + 1) (map word_of_nat ks) = r"
      using False Cons.prems(4) ck by (simp add: Let_def word_le_nat_alt)
    with Cons.IH [of "c + k" "i + 1"] Cons.prems(1,2) ks have
      IH: "i + 1 \<le> r" "r < i + 1 + length ks" "unat target \<le> c + k + sum_list (take (r - (i + 1) + 1) ks)"
      "\<forall>j<r - (i + 1). c + k + sum_list (take (j + 1) ks) < unat target"
      by (simp_all add: add.assoc)
    have "r - i = Suc (r - (i + 1))" using IH(1) by simp
    moreover have "c + sum_list (take (j + 1) (k # ks)) < unat target" if "j < r - i" for j
    proof (cases j)
      case (Suc m)
      then have "m < r - (i + 1)" using that by simp
      with IH(4) Suc show ?thesis by (simp add: add.assoc)
    qed (use False in simp)
    ultimately show ?thesis using IH by (simp add: add.assoc)
  qed
qed simp

lemma foldl_record_us:
  "foldl (\<lambda>st us. record_us us st) (phase_stats_new nm) xs = stats_of nm (rev xs)"
proof -
  have "foldl (\<lambda>st us. record_us us st) (stats_of nm ys) xs = stats_of nm (rev xs @ ys)" for ys
    by (induction xs arbitrary: ys) (simp_all add: record_us_stats_of)
  from this [of "[]"] show ?thesis by (simp add: stats_of_Nil)
qed

lemma bucket_index_cases:
  "bucket_index us = (if us < 10 then 0 else if us < 50 then 1 else if us < 100 then 2
     else if us < 250 then 3 else if us < 500 then 4 else if us < 1000 then 5
     else if us < 5000 then 6 else 7)"
  by (simp add: bucket_index_def BOUNDS_def N_def)

section \<open>Properties\<close>

text \<open>Recording values one after the other from a fresh \<open>PhaseStats\<close> counts them: the sum
  and the count are those of the list (modulo \<open>2^64\<close>), bucket \<open>i\<close> counts the values between the
  bounds \<open>i - 1\<close> and \<open>i\<close>, and the buckets add up to the count.\<close>

theorem record_counts_values:
  assumes "length xs < 2 ^ 64"
  shows "let st = foldl (\<lambda>st us. record_us us st) (phase_stats_new nm) xs in
    sum_us st = sum_list xs \<and> unat (ps_count st) = length xs \<and> length (buckets st) = N \<and>
    (\<forall>i<N. unat (buckets st ! i) = length (filter (\<lambda>us. (i = 0 \<or> BOUNDS ! (i - 1) \<le> us) \<and>
        (i = N - 1 \<or> us < BOUNDS ! i)) xs)) \<and>
    sum_list (map unat (buckets st)) = length xs"
proof -
  have bounds: "bucket_index us = i \<longleftrightarrow> (i = 0 \<or> BOUNDS ! (i - 1) \<le> us) \<and> (i = N - 1 \<or> us < BOUNDS ! i)"
    if "i < N" for us i
  proof -
    have "i \<in> {0, 1, 2, 3, 4, 5, 6, 7}" using that unfolding N_def insert_iff empty_iff by presburger
    then show ?thesis
      by (elim insertE) (simp_all add: bucket_index_cases BOUNDS_def N_def word_less_nat_alt word_le_nat_alt)
  qed
  have small: "hist (rev xs) i < 2 ^ 64" for i
    using length_filter_le [of "\<lambda>us. bucket_index us = i" "rev xs"] assms by (simp add: hist_def)
  have un: "unat (word_of_nat (hist (rev xs) i) :: u64) = hist (rev xs) i" for i
    using small [of i] by (simp add: unat_of_nat)
  have hist: "hist (rev xs) i = length (filter (\<lambda>us. bucket_index us = i) xs)" for i
    by (simp add: hist_def rev_filter [symmetric])
  have sum: "sum_list (map (hist (rev xs)) [0..<N]) = length xs"
    using hist_sum [of "rev xs"] by (simp add: sum_list_distinct_conv_sum_set atLeast0LessThan)
  have B: "map unat (buckets (stats_of nm (rev xs))) = map (hist (rev xs)) [0..<N]"
    unfolding stats_of_def by (simp only: phase_stats.simps map_map comp_def un)
  have nth: "unat (buckets (stats_of nm (rev xs)) ! i) = hist (rev xs) i" if "i < N" for i
    using arg_cong [OF B, of "\<lambda>l. l ! i"] that by (simp add: stats_of_def del: map_map)
  have "filter (\<lambda>us. bucket_index us = i) xs = filter (\<lambda>us. (i = 0 \<or> BOUNDS ! (i - 1) \<le> us) \<and>
      (i = N - 1 \<or> us < BOUNDS ! i)) xs" if "i < N" for i
    using bounds [OF that] by (intro filter_cong) auto
  with nth hist have "\<forall>i<N. unat (buckets (stats_of nm (rev xs)) ! i) = length (filter
      (\<lambda>us. (i = 0 \<or> BOUNDS ! (i - 1) \<le> us) \<and> (i = N - 1 \<or> us < BOUNDS ! i)) xs)"
    by simp
  moreover have "sum_us (stats_of nm (rev xs)) = sum_list xs" by (simp add: stats_of_def sum_list_rev)
  moreover have "unat (ps_count (stats_of nm (rev xs))) = length xs"
    using assms by (simp add: stats_of_def unat_of_nat)
  moreover have "length (buckets (stats_of nm (rev xs))) = N" by (simp add: stats_of_def)
  ultimately show ?thesis unfolding Let_def foldl_record_us B sum by blast
qed

theorem record_counts_values_witness:
  "unat (buckets (foldl (\<lambda>st us. record_us us st) (phase_stats_new ''search'') [7, 60, 9000]) ! 0) = 1"
  using record_counts_values [of "[7, 60, 9000]" "''search''"] by (simp add: Let_def N_def BOUNDS_def)

text \<open>C22: Under any interleaving of the atomic steps of any number of threads no update is lost.
  Let \<open>xs\<close> be the values of all calls begun: at any moment the sum is theirs (modulo \<open>2^64\<close>),
  the count lacks exactly the threads between their first and second addition, and the buckets
  count the values of the calls that are done, which with the values under way are \<open>xs\<close>. Once every
  thread is idle the counters are those of recording the values \<open>xs\<close> one call after the other.\<close>

theorem record_interleaved:
  assumes "recording nm n xs (st, pcs)"
  shows "sum_us st = sum_list xs \<and>
    ps_count st + word_of_nat (length (filter (\<lambda>p. \<exists>us. p = Summed us) pcs)) = word_of_nat (length xs) \<and>
    (\<exists>finished. mset xs = mset finished + mset (under_way pcs) \<and>
      buckets st = map (\<lambda>i. word_of_nat (length (filter (\<lambda>us. bucket_index us = i) finished))) [0..<N]) \<and>
    ((\<forall>p\<in>set pcs. p = Idle) \<longrightarrow>
      st = foldl (\<lambda>st us. record_us us st) (phase_stats_new nm) (rev xs))"
proof -
  obtain finished where inv: "record_inv nm n xs (st, pcs) finished" using record_inv_recording [OF assms] by blast
  have "sum_list (map uncounted pcs) = length (filter (\<lambda>p. \<exists>us. p = Summed us) pcs)"
  proof (induction pcs)
    case (Cons p pcs)
    then show ?case by (cases p) auto
  qed simp
  moreover have "st = foldl (\<lambda>st us. record_us us st) (phase_stats_new nm) (rev xs)" if "\<forall>p\<in>set pcs. p = Idle"
  proof -
    have same: "mset xs = mset finished" using inv all_idle [OF that] by (simp add: record_inv_def)
    then have "length xs = length finished" "sum_list xs = sum_list finished"
      by (metis mset_eq_length) (metis same sum_mset_sum_list)
    then have "st = stats_of nm finished" using inv all_idle [OF that]
      by (simp add: record_inv_def stats_of_def del: sum_mset_sum_list)
    note this same
    then show ?thesis using stats_of_mset [of xs finished] by (simp add: foldl_record_us)
  qed
  ultimately show ?thesis using inv by (auto simp: record_inv_def hist_def)
qed

text \<open>Two threads, the second of which begins while the first is between its additions.\<close>

theorem record_interleaved_witness:
  "\<exists>st. recording ''search'' 2 [60, 7] (st, [Idle, Idle]) \<and> sum_us st = 67 \<and>
    st = foldl (\<lambda>st us. record_us us st) (phase_stats_new ''search'') [7, 60]"
proof -
  let ?fresh = "phase_stats_new ''search''"
  let ?s = "add_bucket 7 (add_bucket 60 (add_count (add_count (add_sum 60 (add_sum 7 ?fresh)))))"
  have "recording ''search'' 2 [] (?fresh, [Idle, Idle])"
    using recording.init [of "''search''" 2] by (simp add: numeral_eq_Suc)
  from begins [OF this rec_sum [of 0 _ 7]]
  have "recording ''search'' 2 [7] (add_sum 7 ?fresh, [Summed 7, Idle])" by simp
  from begins [OF this rec_sum [of 1 _ 60]]
  have "recording ''search'' 2 [60, 7] (add_sum 60 (add_sum 7 ?fresh), [Summed 7, Summed 60])" by simp
  from goes_on [OF goes_on [OF this rec_count [of 1 _ 60]] rec_count [of 0 _ 7]]
  have "recording ''search'' 2 [60, 7]
      (add_count (add_count (add_sum 60 (add_sum 7 ?fresh))), [Counted 7, Counted 60])" by simp
  from goes_on [OF goes_on [OF this rec_bucket [of 1 _ 60]] rec_bucket [of 0 _ 7]]
  have r: "recording ''search'' 2 [60, 7] (?s, [Idle, Idle])" by simp
  note counted = record_interleaved [OF r]
  have "sum_us ?s = 67" using counted [THEN conjunct1] by simp
  moreover have "?s = foldl (\<lambda>st us. record_us us st) ?fresh [7, 60]"
    using counted [THEN conjunct2, THEN conjunct2, THEN conjunct2] by simp
  ultimately show ?thesis using r by blast
qed

text \<open>C40: The median that the metrics page prints for \<open>n\<close> recorded values, \<open>n\<close> below \<open>2^53\<close>, is the label of
  the first bucket whose cumulative count reaches \<open>n div 2\<close>, through the conversion to \<open>f64\<close>, the
  product with 0.5 and the conversion back.\<close>

theorem median_label:
  assumes "length xs < 2 ^ 53"
  shows "\<exists>r<N. pct_label (foldl (\<lambda>st us. record_us us st) (phase_stats_new nm) xs) P50 = LABELS ! r \<and>
    length xs div 2 \<le> length (filter (\<lambda>us. bucket_index us \<le> r) xs) \<and>
    (\<forall>j<r. length (filter (\<lambda>us. bucket_index us \<le> j) xs) < length xs div 2)"
proof -
  have cum: "sum_list (take m (map (hist (rev xs)) [0..<N])) = length (filter (\<lambda>us. bucket_index us < m) xs)"
    if "m \<le> N" for m
    using that
  proof (induction m)
    case (Suc m)
    have "length (filter (\<lambda>us. bucket_index us < Suc m) xs)
        = length (filter (\<lambda>us. bucket_index us < m) xs) + hist (rev xs) m"
      by (induction xs) (auto simp: hist_def less_Suc_eq)
    with Suc show ?case by (simp add: take_Suc_conv_app_nth)
  qed simp
  have n: "unat (ps_count (stats_of nm (rev xs))) = length xs"
    using assms by (simp add: stats_of_def unat_of_nat)
  then have target: "unat (pct_target (ps_count (stats_of nm (rev xs))) P50) = length xs div 2"
    using pct_target_P50 [of "ps_count (stats_of nm (rev xs))"] assms by simp
  let ?ks = "map (hist (rev xs)) [0..<N]"
  have all: "sum_list ?ks = length xs" using cum [of N] by simp
  define r where "r = pct_loop (pct_target (ps_count (stats_of nm (rev xs))) P50) 0 0 (buckets (stats_of nm (rev xs)))"
  have "buckets (stats_of nm (rev xs)) = map word_of_nat ?ks" by (simp add: stats_of_def)
  with pct_loop_spec [of 0 ?ks "pct_target (ps_count (stats_of nm (rev xs))) P50" 0 r] all target assms
  have "r < N \<and> length xs div 2 \<le> sum_list (take (r + 1) ?ks) \<and>
      (\<forall>j<r. sum_list (take (j + 1) ?ks) < length xs div 2)"
    by (simp add: r_def N_def)
  with cum show ?thesis
    by (intro exI [of _ r]) (auto simp: foldl_record_us pct_label_def r_def less_Suc_eq_le)
qed

theorem median_label_witness:
  "\<exists>r<N. pct_label (foldl (\<lambda>st us. record_us us st) (phase_stats_new ''total'') [9000, 9000]) P50 = LABELS ! r"
  using median_label [of "[9000, 9000]" "''total''"] by auto

text \<open>So the median printed for a single record is the fastest bucket, however long the one
  request took.\<close>

theorem median_of_one_record:
  "pct_label (record_us us (phase_stats_new nm)) P50 = ''<10'' @ micro"
proof -
  have st: "record_us us (phase_stats_new nm) = stats_of nm [us]"
    by (simp add: record_us_stats_of flip: stats_of_Nil)
  have "ps_count (stats_of nm [us]) = 1" by (simp add: stats_of_def)
  then have "unat (pct_target (ps_count (stats_of nm [us])) P50) = 0" using pct_target_P50 [of 1] by simp
  then have "pct_target (ps_count (stats_of nm [us])) P50 = 0" by (simp add: unat_eq_0)
  moreover obtain b bs where "buckets (stats_of nm [us]) = b # bs"
    by (cases "buckets (stats_of nm [us])") (auto simp: stats_of_def N_def)
  ultimately show ?thesis by (simp add: st pct_label_def LABELS_def Let_def)
qed

text \<open>The report never divides by zero and shows exactly the buckets that are not empty; the
  metrics page shows the four phases in order, and nothing when metrics are off.\<close>

theorem report_all_pages:
  "report_all fs (metrics_new False) = MetricsDisabled \<and>
   (\<forall>nm. report (phase_stats_new nm) = NoData nm) \<and>
   (\<forall>m. mt_enabled m \<longrightarrow> (\<exists>c. report_all fs m =
      MetricsPage (map report [mt_parse m, mt_vectorize m, mt_search m, mt_total m]) c)) \<and>
   (\<forall>st i. ps_count st \<noteq> 0 \<longrightarrow> length (buckets st) = N \<longrightarrow> i < N \<longrightarrow>
      ((LABELS ! i, buckets st ! i) \<in> set (rep_counts (report st)) \<longleftrightarrow> buckets st ! i \<noteq> 0))"
proof -
  have "length LABELS = N" by (simp add: LABELS_def N_def)
  then have "(LABELS ! i, buckets st ! i) \<in> set (zip LABELS (buckets st))" if "length (buckets st) = N" "i < N" for st i
    using that by (auto simp: in_set_zip)
  then show ?thesis
    by (auto simp: report_all_def metrics_new_def report_def phase_stats_new_def Let_def word_neq_0_conv)
qed

theorem report_all_pages_witness:
  "\<exists>c. report_all Map.empty (metrics_new True) =
     MetricsPage [NoData ''parse'', NoData ''vectorize'', NoData ''search'', NoData ''total''] c"
proof -
  have "mt_enabled (metrics_new True)" by (simp add: metrics_new_def)
  with report_all_pages [of Map.empty] obtain c where
    "report_all Map.empty (metrics_new True) = MetricsPage (map report [mt_parse (metrics_new True),
       mt_vectorize (metrics_new True), mt_search (metrics_new True), mt_total (metrics_new True)]) c"
    by blast
  with report_all_pages [of Map.empty] show ?thesis by (simp add: metrics_new_def)
qed

end
