(* ===== verification/Handler.thy ===== *)
theory Handler
  imports Vectorize Demo_Index Timing Std_Text
begin

text \<open>
  The HTTP service, main.rs: the six precomputed answers, the \<open>fraud_score\<close> handler from the
  request body to the response, and the start-up of \<open>main\<close> from the environment to the state and
  the listener it chooses. JSON parsing is a parameter; sockets and the accept loop are in the
  theory Server.
\<close>

section \<open>The answers\<close>

definition json_string :: "string \<Rightarrow> string" where
  "json_string s = [CHR 0x22] @ s @ [CHR 0x22]"

definition response_body :: "string \<Rightarrow> string \<Rightarrow> string" where
  "response_body approved score =
     ''{'' @ json_string ''approved'' @ '':'' @ approved @ '','' @
     json_string ''fraud_score'' @ '':'' @ score @ ''}''"

definition RESPONSES :: "string list" where
  "RESPONSES =
     [response_body ''true'' ''0.0'',
      response_body ''true'' ''0.2'',
      response_body ''true'' ''0.4'',
      response_body ''false'' ''0.6'',
      response_body ''false'' ''0.8'',
      response_body ''false'' ''1.0'']"

datatype http_response =
    Status nat \<comment> \<open>a bare status code\<close>
  | Json string \<comment> \<open>200 with content type application/json\<close>

section \<open>The handler\<close>

record app_state =
  a_searcher :: searcher
  a_norm :: normalization
  a_mcc_risk :: mcc_risk

text \<open>What a request changes: the metrics all threads share and the buffer of its thread.\<close>

record worker =
  w_metrics :: metrics
  w_buf :: search_buffer

text \<open>The elapsed microseconds the clock returns, when it is asked.\<close>

record elapsed =
  el_parse :: u64
  el_vectorize :: u64
  el_search :: u64
  el_total :: u64

definition ready :: http_response where "ready = Status 200"

definition metrics_endpoint :: "(string \<rightharpoonup> string) \<Rightarrow> worker \<Rightarrow> metrics_page" where
  "metrics_endpoint fs w = report_all fs (w_metrics w)"

definition record_parse :: "u64 \<Rightarrow> metrics \<Rightarrow> metrics" where
  "record_parse us m = (if mt_enabled m then m\<lparr>mt_parse := record_us us (mt_parse m)\<rparr> else m)"
definition record_vectorize :: "u64 \<Rightarrow> metrics \<Rightarrow> metrics" where
  "record_vectorize us m = (if mt_enabled m then m\<lparr>mt_vectorize := record_us us (mt_vectorize m)\<rparr> else m)"
definition record_search :: "u64 \<Rightarrow> metrics \<Rightarrow> metrics" where
  "record_search us m = (if mt_enabled m then m\<lparr>mt_search := record_us us (mt_search m)\<rparr> else m)"
definition record_total :: "u64 \<Rightarrow> metrics \<Rightarrow> metrics" where
  "record_total us m = (if mt_enabled m then m\<lparr>mt_total := record_us us (mt_total m)\<rparr> else m)"

definition fraud_score ::
  "cent_dist select_fn \<Rightarrow> cent_dist sort_fn \<Rightarrow> rfc3339 \<Rightarrow> (u8 list \<Rightarrow> request option) \<Rightarrow>
   app_state \<Rightarrow> elapsed \<Rightarrow> u8 list \<Rightarrow> worker \<Rightarrow> (http_response \<times> worker) outcome" where
  "fraud_score sel srt parse_time from_slice state el body w =
     (case from_slice body of
        None \<Rightarrow> Inr (Status 400, w)
      | Some req \<Rightarrow>
          let m = record_parse (el_parse el) (w_metrics w)
          in and_then (vectorize parse_time req (a_norm state) (a_mcc_risk state)) (\<lambda>query.
             let m = record_vectorize (el_vectorize el) m
             in and_then (search sel srt (a_searcher state) query 5 (w_buf w)) (\<lambda>(neighbors, buf).
                let m = record_search (el_search el) m;
                    fraud_count = length (filter n_fraud neighbors);
                    m = record_total (el_total el) m
                in and_then (at_index RESPONSES fraud_count)
                     (\<lambda>b. Inr (Json b, \<lparr>w_metrics = m, w_buf = buf\<rparr>)))))"

section \<open>Start-up\<close>

definition env_var :: "(string \<rightharpoonup> string) \<Rightarrow> string \<Rightarrow> string \<Rightarrow> string" where
  "env_var env key dflt = (case env key of Some v \<Rightarrow> v | None \<Rightarrow> dflt)"

definition expect :: "'a option \<Rightarrow> 'a outcome" where
  "expect x = (case x of Some y \<Rightarrow> Inr y | None \<Rightarrow> Inl UnwrapPanic)"

text \<open>Where the service listens: a Unix socket with a health port beside it, or TCP alone.\<close>

datatype listener = Uds string string | Tcp string

definition startup ::
  "(string \<rightharpoonup> string) \<Rightarrow> (string \<rightharpoonup> u8 list) \<Rightarrow> (u8 list \<Rightarrow> normalization option) \<Rightarrow>
   (u8 list \<Rightarrow> mcc_risk option) \<Rightarrow> (app_state \<times> metrics \<times> listener) outcome" where
  "startup env fs norm_from_str mcc_from_str =
     and_then (expect (fs (env_var env ''NORM_PATH'' ''/data/normalization.json''))) (\<lambda>data.
     and_then (expect (norm_from_str data)) (\<lambda>nrm.
     and_then (expect (fs (env_var env ''MCC_RISK_PATH'' ''/data/mcc_risk.json''))) (\<lambda>data.
     and_then (expect (mcc_from_str data)) (\<lambda>mcc.
     and_then (expect (parse_usize (env_var env ''IVF_PROBES'' ''75''))) (\<lambda>n_probes.
     and_then (case load fs (env_var env ''INDEX_PATH'' ''/data/index.ivf.bin'') n_probes of
         Inl e \<Rightarrow> Inl UnwrapPanic | Inr s \<Rightarrow> Inr s) (\<lambda>s.
     let metrics_on = eq_ignore_ascii_case (env_var env ''METRICS'' ''false'') ''true'';
         socket_path = env_var env ''SOCKET_PATH'' [];
         addr = ''0.0.0.0:'' @ env_var env ''PORT'' ''9999''
     in Inr (\<lparr>a_searcher = s, a_norm = nrm, a_mcc_risk = mcc\<rparr>, metrics_new metrics_on,
             if socket_path \<noteq> [] then Uds socket_path addr else Tcp addr)))))))"

section \<open>Facts about the handler\<close>

lemma length_RESPONSES [simp]: "length RESPONSES = 6"
  by (simp add: RESPONSES_def)

text \<open>Whatever \<open>search\<close> returns, the count indexes the table.\<close>

lemma fraud_score_Inr:
  assumes "from_slice body = Some req" and "vectorize parse_time req (a_norm state) (a_mcc_risk state) = Inr query"
    and "search sel srt (a_searcher state) query 5 (w_buf w) = Inr (ns, buf')"
  shows "length (filter n_fraud ns) \<le> 5"
    "\<exists>w'. fraud_score sel srt parse_time from_slice state el body w
      = Inr (Json (RESPONSES ! length (filter n_fraud ns)), w') \<and> w_buf w' = buf'"
proof -
  show c: "length (filter n_fraud ns) \<le> 5"
    using length_filter_le search_length_le [OF assms(3)] by (rule order_trans)
  then show "\<exists>w'. fraud_score sel srt parse_time from_slice state el body w
      = Inr (Json (RESPONSES ! length (filter n_fraud ns)), w') \<and> w_buf w' = buf'"
    by (simp add: fraud_score_def assms Let_def)
qed

lemma startup_serves_aux:
  assumes "startup env fs norm_from_str mcc_from_str = Inr (state, m, l)"
  shows "\<exists>n_probes. parse_usize (env_var env ''IVF_PROBES'' ''75'') = Some n_probes \<and>
    load fs (env_var env ''INDEX_PATH'' ''/data/index.ivf.bin'') n_probes = Inr (a_searcher state) \<and>
    (n_probes \<noteq> 0 \<longrightarrow> probes (a_searcher state) = n_probes) \<and>
    m = metrics_new (mt_enabled m) \<and>
    ((\<exists>p a. l = Uds p a) \<longleftrightarrow> (\<exists>p. env ''SOCKET_PATH'' = Some p \<and> p \<noteq> []))"
proof -
  have split: "expect x = Inr y \<longleftrightarrow> x = Some y" for x :: "'z option" and y
    by (cases x) (simp_all add: expect_def)
  have probes: "load f p r = Inr s \<Longrightarrow> r \<noteq> 0 \<Longrightarrow> probes s = r" for f p r s
    by (auto simp: load_def Let_def word_neq_0_conv split: option.splits if_splits)
  have loaded: "(case r of Inl e \<Rightarrow> Inl UnwrapPanic | Inr s \<Rightarrow> Inr s) = Inr y \<longleftrightarrow> r = Inr y"
    for r :: "load_error + searcher" and y by (cases r) simp_all
  from assms [unfolded startup_def and_then_eq_Inr split loaded Let_def] obtain n_probes s nrm mcc on where
    *: "parse_usize (env_var env ''IVF_PROBES'' ''75'') = Some n_probes"
    "load fs (env_var env ''INDEX_PATH'' ''/data/index.ivf.bin'') n_probes = Inr s"
    "state = \<lparr>a_searcher = s, a_norm = nrm, a_mcc_risk = mcc\<rparr>" "m = metrics_new on"
    "l = (if env_var env ''SOCKET_PATH'' [] \<noteq> []
          then Uds (env_var env ''SOCKET_PATH'' []) (''0.0.0.0:'' @ env_var env ''PORT'' ''9999'')
          else Tcp (''0.0.0.0:'' @ env_var env ''PORT'' ''9999''))"
    by auto
  moreover have "(\<exists>p a. l = Uds p a) \<longleftrightarrow> (\<exists>p. env ''SOCKET_PATH'' = Some p \<and> p \<noteq> [])"
    unfolding *(5) by (simp add: env_var_def split: option.split)
  moreover have "m = metrics_new (mt_enabled m)" using *(4) by (simp add: metrics_new_def)
  ultimately show ?thesis using probes [OF *(2)] by (intro exI [of _ n_probes]) simp
qed

lemma fraud_score_answers_aux:
  assumes "select_contract sel" and "sort_contract srt" and "rfc3339_contract parse_time"
    and "views (a_searcher state) v" and "ivf_ok v" and "0 < unat (probes (a_searcher state))"
    and "from_slice body = Some req"
  shows "\<exists>query near cands w'.
    vectorize parse_time req (a_norm state) (a_mcc_risk state) = Inr query \<and>
    nearest_clusters v query (min (unat (probes (a_searcher state))) (length (i_cents v))) near \<and>
    k_smallest cand_key 5 (mset (scanned v query near)) (mset cands) \<and>
    length (filter c_fraud cands) < length RESPONSES \<and>
    fraud_score sel srt parse_time from_slice state el body w
      = Inr (Json (RESPONSES ! length (filter c_fraud cands)), w')"
proof -
  obtain t where "tx_time_of parse_time (t_requested_at (r_transaction req)) = Inr t"
    by (rule tx_time_of_ok [OF assms(3)])
  from vectorize_eq [OF this] obtain query where
    q: "vectorize parse_time req (a_norm state) (a_mcc_risk state) = Inr query" by blast
  from search_spec [OF assms(1,2,4,5), of 5 query "w_buf w"] assms(6) obtain near cands buf' where
    s: "search sel srt (a_searcher state) query 5 (w_buf w) = Inr (map (\<lambda>c. \<lparr>n_fraud = c_fraud c\<rparr>) cands, buf')"
    "nearest_clusters v query (min (unat (probes (a_searcher state))) (length (i_cents v))) near"
    "k_smallest cand_key 5 (mset (scanned v query near)) (mset cands)" by auto
  have c: "length (filter n_fraud (map (\<lambda>c. \<lparr>n_fraud = c_fraud c\<rparr>) cands)) = length (filter c_fraud cands)"
    by (simp add: filter_map comp_def)
  from fraud_score_Inr(2) [where from_slice = from_slice and body = body and parse_time = parse_time and el = el,
      OF assms(7) q s(1)] obtain w' where
    "fraud_score sel srt parse_time from_slice state el body w
      = Inr (Json (RESPONSES ! length (filter c_fraud cands)), w')"
    unfolding c by blast
  moreover have "length (filter c_fraud cands) \<le> 5"
    using fraud_score_Inr(1) [where from_slice = from_slice and body = body and parse_time = parse_time,
      OF assms(7) q s(1)] unfolding c .
  ultimately show ?thesis using q s(2,3)
    by (intro exI [of _ query] exI [of _ near] exI [of _ cands] exI [of _ w']) simp
qed

section \<open>Properties\<close>

text \<open>The table holds, at the number \<open>c\<close> of fraudulent neighbours out of five, the score
  \<open>c / 5\<close> with one decimal, and approves exactly below the threshold of 0.6.\<close>

theorem responses_table:
  "length RESPONSES = 6 \<and>
   (\<forall>c<6. RESPONSES ! c = response_body (if 10 * c < 6 * 5 then ''true'' else ''false'')
      [char_of (48 + c * 2 div 10), CHR ''.'', char_of (48 + c * 2 mod 10)])"
proof -
  have "RESPONSES ! c = response_body (if 10 * c < 6 * 5 then ''true'' else ''false'')
      [char_of (48 + c * 2 div 10), CHR ''.'', char_of (48 + c * 2 mod 10)]" if "c < 6" for c :: nat
  proof -
    have "c \<in> {0, 1, 2, 3, 4, 5}" using that unfolding insert_iff empty_iff by presburger
    then show ?thesis by (elim insertE) (simp_all add: RESPONSES_def char_of_def bit_0)
  qed
  then show ?thesis by simp
qed

theorem responses_table_witness:
  "RESPONSES ! 2 = response_body ''true'' ''0.4'' \<and> RESPONSES ! 3 = response_body ''false'' ''0.6''"
  using responses_table [THEN conjunct2, THEN spec, of 2] responses_table [THEN conjunct2, THEN spec, of 3]
  by (simp add: char_of_def bit_0)

text \<open>A body that does not parse as a request is answered 400, with no search and no metrics
  recorded; only such a body is.\<close>

theorem fraud_score_bad_request:
  "fraud_score sel srt parse_time from_slice state el body w = Inr (Status 400, w) \<longleftrightarrow>
   from_slice body = None"
  by (auto simp: fraud_score_def and_then_eq_Inr Let_def split: option.splits)

text \<open>For a well-formed index every request that parses is answered, never with a panic: the
  index into the six answers is the number of fraudulent labels among at most five vectors, which
  are five nearest ones of the clusters probed.\<close>

theorem fraud_score_answers:
  assumes "select_contract sel" and "sort_contract srt" and "rfc3339_contract parse_time"
    and "views (a_searcher state) v" and "ivf_ok v" and "0 < unat (probes (a_searcher state))"
    and "from_slice body = Some req"
  shows "\<exists>query near cands w'.
    vectorize parse_time req (a_norm state) (a_mcc_risk state) = Inr query \<and>
    nearest_clusters v query (min (unat (probes (a_searcher state))) (length (i_cents v))) near \<and>
    k_smallest cand_key 5 (mset (scanned v query near)) (mset cands) \<and>
    length (filter c_fraud cands) < length RESPONSES \<and>
    fraud_score sel srt parse_time from_slice state el body w
      = Inr (Json (RESPONSES ! length (filter c_fraud cands)), w')"
  using assms by (rule fraud_score_answers_aux)

theorem fraud_score_answers_witness:
  "\<exists>s c w'. load (demo_files 1) ''i'' 0 = Inr s \<and> c < 6 \<and>
    fraud_score insertion_select insertion_sort demo_parse (\<lambda>_. Some (demo_request ''yesterday'' None))
      \<lparr>a_searcher = s, a_norm = demo_norm, a_mcc_risk = Map.empty\<rparr>
      \<lparr>el_parse = 1, el_vectorize = 1, el_search = 1, el_total = 3\<rparr> [1]
      \<lparr>w_metrics = metrics_new True, w_buf = \<lparr>buf_cent_dists = [], buf_cands = []\<rparr>\<rparr>
      = Inr (Json (RESPONSES ! c), w')"
proof (rule demo_load [of 1 0])
  fix s assume s: "load (demo_files 1) ''i'' 0 = Inr s" "views s (ivf_of demo_cents demo_clusters)"
    "probes s = (if 0 < (0::usize) then 0 else ucast (1::u32))" "ivf_ok (ivf_of demo_cents demo_clusters)"
  let ?st = "\<lparr>a_searcher = s, a_norm = demo_norm, a_mcc_risk = Map.empty\<rparr> :: app_state"
  have "views (a_searcher ?st) (ivf_of demo_cents demo_clusters)" "0 < unat (probes (a_searcher ?st))"
    using s(2,3) by simp_all
  from fraud_score_answers [OF insertion_contracts demo_request_ok(1) this(1) s(4) this(2),
      of "\<lambda>_. Some (demo_request ''yesterday'' None)" "[1]" "demo_request ''yesterday'' None"
      "\<lparr>el_parse = 1, el_vectorize = 1, el_search = 1, el_total = 3\<rparr>"
      "\<lparr>w_metrics = metrics_new True, w_buf = \<lparr>buf_cent_dists = [], buf_cands = []\<rparr>\<rparr>"] s(1)
  show ?thesis unfolding length_RESPONSES by blast
qed

text \<open>Metrics: when they are off a request leaves them as they are; when they are on, an
  answered request records one value in each of the four phases.\<close>

theorem fraud_score_metrics:
  assumes "fraud_score sel srt parse_time from_slice state el body w = Inr (Json b, w')"
  shows "w_metrics w' =
    (if mt_enabled (w_metrics w)
     then (w_metrics w)\<lparr>mt_parse := record_us (el_parse el) (mt_parse (w_metrics w)),
        mt_vectorize := record_us (el_vectorize el) (mt_vectorize (w_metrics w)),
        mt_search := record_us (el_search el) (mt_search (w_metrics w)),
        mt_total := record_us (el_total el) (mt_total (w_metrics w))\<rparr>
     else w_metrics w)"
  using assms
  by (auto simp: fraud_score_def and_then_eq_Inr Let_def record_parse_def record_vectorize_def
      record_search_def record_total_def split: option.splits)

theorem fraud_score_metrics_witness:
  "\<exists>s b w'. load (demo_files 1) ''i'' 0 = Inr s \<and>
    fraud_score insertion_select insertion_sort demo_parse (\<lambda>_. Some (demo_request ''yesterday'' None))
      \<lparr>a_searcher = s, a_norm = demo_norm, a_mcc_risk = Map.empty\<rparr>
      \<lparr>el_parse = 1, el_vectorize = 1, el_search = 1, el_total = 3\<rparr> [1]
      \<lparr>w_metrics = metrics_new False, w_buf = \<lparr>buf_cent_dists = [], buf_cands = []\<rparr>\<rparr> = Inr (Json b, w') \<and>
    w_metrics w' = metrics_new False"
proof (rule demo_load [of 1 0])
  fix s assume s: "load (demo_files 1) ''i'' 0 = Inr s" "views s (ivf_of demo_cents demo_clusters)"
    "probes s = (if 0 < (0::usize) then 0 else ucast (1::u32))" "ivf_ok (ivf_of demo_cents demo_clusters)"
  let ?st = "\<lparr>a_searcher = s, a_norm = demo_norm, a_mcc_risk = Map.empty\<rparr> :: app_state"
  let ?req = "demo_request ''yesterday'' None"
  let ?w = "\<lparr>w_metrics = metrics_new False, w_buf = \<lparr>buf_cent_dists = [], buf_cands = []\<rparr>\<rparr>"
  let ?el = "\<lparr>el_parse = 1, el_vectorize = 1, el_search = 1, el_total = 3\<rparr>"
  obtain t where "tx_time_of demo_parse (t_requested_at (r_transaction ?req)) = Inr t"
    by (rule tx_time_of_ok [OF demo_request_ok(1)])
  from vectorize_eq [OF this] obtain query where
    q: "vectorize demo_parse ?req (a_norm ?st) (a_mcc_risk ?st) = Inr query" by blast
  from search_spec [OF insertion_contracts s(2,4), of 5 query "w_buf ?w"] s(3) obtain ns buf' where
    "search insertion_select insertion_sort (a_searcher ?st) query 5 (w_buf ?w) = Inr (ns, buf')" by auto
  from fraud_score_Inr(2) [where from_slice = "\<lambda>_. Some ?req" and body = "[1]" and parse_time = demo_parse
      and el = ?el, OF refl q this] obtain w' where
    w': "fraud_score insertion_select insertion_sort demo_parse (\<lambda>_. Some ?req) ?st ?el [1] ?w
      = Inr (Json (RESPONSES ! length (filter n_fraud ns)), w')" by blast
  have "w_metrics w' = metrics_new False" using fraud_score_metrics [OF w'] by (simp add: metrics_new_def)
  with w' s(1) show ?thesis by blast
qed

text \<open>A start that succeeds serves the loaded index with the probe count of \<open>IVF_PROBES\<close>, or
  with the one of the index file when that is 0; it panics when the probe count is not a number;
  and it listens on the Unix socket exactly when \<open>SOCKET_PATH\<close> is set and not empty.\<close>

theorem startup_serves:
  assumes "startup env fs norm_from_str mcc_from_str = Inr (state, m, l)"
  shows "\<exists>n_probes. parse_usize (env_var env ''IVF_PROBES'' ''75'') = Some n_probes \<and>
    load fs (env_var env ''INDEX_PATH'' ''/data/index.ivf.bin'') n_probes = Inr (a_searcher state) \<and>
    (n_probes \<noteq> 0 \<longrightarrow> probes (a_searcher state) = n_probes) \<and>
    m = metrics_new (mt_enabled m) \<and>
    ((\<exists>p a. l = Uds p a) \<longleftrightarrow> (\<exists>p. env ''SOCKET_PATH'' = Some p \<and> p \<noteq> []))"
  by (rule startup_serves_aux [OF assms])

theorem startup_serves_witness:
  "\<exists>state m l. startup [''INDEX_PATH'' \<mapsto> ''i'', ''IVF_PROBES'' \<mapsto> decimal 3]
      ((demo_files 1)(''/data/normalization.json'' \<mapsto> [], ''/data/mcc_risk.json'' \<mapsto> []))
      (\<lambda>_. Some demo_norm) (\<lambda>_. Some Map.empty) = Inr (state, m, l) \<and>
    probes (a_searcher state) = 3"
proof (rule demo_load [of 1 3])
  let ?env = "[''INDEX_PATH'' \<mapsto> ''i'', ''IVF_PROBES'' \<mapsto> decimal 3]"
  let ?fs = "(demo_files 1)(''/data/normalization.json'' \<mapsto> [], ''/data/mcc_risk.json'' \<mapsto> [])"
  fix s assume s: "load (demo_files 1) ''i'' 3 = Inr s"
  have load: "load ?fs ''i'' 3 = Inr s" using s by (simp add: load_def)
  have "parse_usize (decimal 3) = Some 3"
    using parse_digits_decimal [of 3] decimal_hd [of 3] by (simp add: parse_usize_def)
  then have env: "parse_usize (env_var ?env ''IVF_PROBES'' ''75'') = Some 3"
    "env_var ?env ''INDEX_PATH'' ''/data/index.ivf.bin'' = ''i''"
    "env_var ?env ''NORM_PATH'' ''/data/normalization.json'' = ''/data/normalization.json''"
    "env_var ?env ''MCC_RISK_PATH'' ''/data/mcc_risk.json'' = ''/data/mcc_risk.json''"
    by (simp_all add: env_var_def)
  have "\<exists>state m l. startup ?env ?fs (\<lambda>_. Some demo_norm) (\<lambda>_. Some Map.empty) = Inr (state, m, l)"
    unfolding startup_def env expect_def Let_def by (simp add: load)
  then obtain state m l where st: "startup ?env ?fs (\<lambda>_. Some demo_norm) (\<lambda>_. Some Map.empty) = Inr (state, m, l)"
    by blast
  from startup_serves [OF st] env(1) have "probes (a_searcher state) = 3" by auto
  with st show ?thesis by blast
qed

end
