(* ===== verification/Classify.thy ===== *)
theory Classify
  imports Diag_Spec Build Handler
begin

text \<open>
  The classifier of mismatches, classify_mismatches.rs: its command line, the reference corpus,
  the decision that explains one mismatch, and the loop that classifies all of them and keeps
  the counts and histograms of the summary. The facts: the counts are those of the records
  written; the class of a record follows from its other fields; and the comparison of scanned
  vectors with true neighbours mixes two numberings.
\<close>

section \<open>The command line\<close>

record diag_args =
  mismatches_path :: string
  index_path :: string
  refs_path :: string
  norm_path :: string
  mcc_path :: string
  output_path :: string

definition default_diag_args :: diag_args where
  "default_diag_args =
     \<lparr>mismatches_path = ''../test/diag-mismatches.jsonl'', index_path = ''../data/index.ivf.bin'',
      refs_path = ''../data/references.json.gz'', norm_path = ''../data/normalization.json'',
      mcc_path = ''../data/mcc_risk.json'', output_path = ''../test/diag-classified.jsonl''\<rparr>"

definition diag_flag :: "string list \<Rightarrow> nat \<Rightarrow> diag_args \<Rightarrow> diag_args outcome" where
  "diag_flag raw i a =
     (let flag = raw ! i; value = at_index raw (i + 1)
      in if flag = ''--mismatches'' then and_then value (\<lambda>v. Inr (a\<lparr>mismatches_path := v\<rparr>))
         else if flag = ''--index'' then and_then value (\<lambda>v. Inr (a\<lparr>index_path := v\<rparr>))
         else if flag = ''--refs'' then and_then value (\<lambda>v. Inr (a\<lparr>refs_path := v\<rparr>))
         else if flag = ''--norm'' then and_then value (\<lambda>v. Inr (a\<lparr>norm_path := v\<rparr>))
         else if flag = ''--mcc'' then and_then value (\<lambda>v. Inr (a\<lparr>mcc_path := v\<rparr>))
         else if flag = ''--output'' then and_then value (\<lambda>v. Inr (a\<lparr>output_path := v\<rparr>))
         else Inl ProcessExit)"

function diag_loop :: "string list \<Rightarrow> nat \<Rightarrow> diag_args \<Rightarrow> diag_args outcome" where
  "diag_loop raw i a =
     (if i < length raw then and_then (diag_flag raw i a) (\<lambda>a. diag_loop raw (i + 2) a) else Inr a)"
  by pat_completeness auto
termination by (relation "measure (\<lambda>(raw, i, _). length raw - i)") auto

declare diag_loop.simps [simp del]

definition diag_parse_args :: "string list \<Rightarrow> diag_args outcome" where
  "diag_parse_args raw = diag_loop raw 1 default_diag_args"

section \<open>The reference corpus\<close>

definition add_reference ::
  "(f32 list \<times> bool) list \<Rightarrow> string + ref_line \<Rightarrow> stop + (f32 list \<times> bool) list" where
  "add_reference refs result =
     (case result of Inl _ \<Rightarrow> Inl StreamFailed
      | Inr rec \<Rightarrow>
          if length (rl_vector rec) < DIMS then Inr refs
          else Inr (refs @ [(take DIMS (rl_vector rec), rl_label rec = ''fraud'')]))"

definition load_references ::
  "('r, 'e) libs \<Rightarrow> file_system \<Rightarrow> string \<Rightarrow> stop + (f32 list \<times> bool) list" where
  "load_references L fs path =
     and_then (open_gz_array L fs path) (\<lambda>reader. try_fold add_reference [] (records L reader))"

section \<open>One mismatch\<close>

record 'j mismatch =
  m_idx :: nat
  m_id :: string
  m_expected_approved :: bool
  m_actual_approved :: bool
  m_actual_fraud_score :: f32
  m_transaction :: 'j

datatype classification = TieFlip | ProbeMiss | Vectorize | Other

text \<open>\<open>i32::abs\<close> of a difference.\<close>

definition abs_diff :: "i32 \<Rightarrow> i32 \<Rightarrow> i32" where
  "abs_diff a b = (let g = a - b in if sint g < 0 then - g else g)"

definition min_dist :: "diag_cand list \<Rightarrow> i32 option" where
  "min_dist cands =
     (case cands of [] \<Rightarrow> None
      | c # cs \<Rightarrow> Some (foldl (\<lambda>m c. if sint (fst (snd c)) < sint m then fst (snd c) else m) (fst (snd c)) cs))"

definition classify ::
  "ivf_index \<Rightarrow> f32 list \<Rightarrow> diag_result \<Rightarrow> true_nn list \<Rightarrow> nat list \<Rightarrow> bool \<Rightarrow>
   (classification \<times> nat option \<times> i32 option) outcome" where
  "classify x query diag nn ranks expected_approved =
     (let fraud_count_true = length (filter (\<lambda>(_, _, f). f) nn);
          true_approved = (fraud_count_true < 3);
          scanned_set = set (scanned_vector_indices diag);
          idxs = map fst nn
      in if (\<not> true_approved) = expected_approved then Inr (Vectorize, None, None)
         else if \<not> list_all (\<lambda>vi. vi \<in> scanned_set) idxs then
           (let missed = map snd (filter (\<lambda>(vi, _). vi \<notin> scanned_set) (zip idxs ranks))
            in Inr (ProbeMiss, Some (if missed = [] then 999 else Min (set missed)), None))
         else if ivf_fraud_count diag \<noteq> fraud_count_true then
           (let q_int8 = map (\<lambda>j. quantize_diag (query ! j)) [0..<DIMS]
            in and_then (if 4 < length idxs
                         then and_then (at_index (x_vecs x) (idxs ! 4)) (\<lambda>vec. Inr (Some (dist_int8_diag vec q_int8)))
                         else Inr None)
                 (\<lambda>true_5th. Inr (TieFlip, None,
                    Some (case (true_5th, min_dist (returned_neighbors diag)) of
                            (Some a, Some b) \<Rightarrow> abs_diff a b | _ \<Rightarrow> 0))))
         else Inr (Other, None, None))"

record true_neighbor =
  tn_vec_idx :: nat
  tn_float32_dist :: f32
  tn_is_fraud :: bool
  tn_cluster_idx :: nat
  tn_rank :: nat

record classified =
  cr_idx :: nat
  cr_id :: string
  cr_classification :: classification
  cr_expected_approved :: bool
  cr_actual_approved_ivf :: bool
  cr_query_vec :: "f32 list"
  cr_true_5nn :: "true_neighbor list"
  cr_ivf_5nn :: "diag_cand list"
  cr_fraud_count_true :: nat
  cr_fraud_count_ivf :: nat
  cr_clusters_scanned :: "nat list"
  cr_ranks_of_true :: "nat list"
  cr_probe_miss_rank :: "nat option"
  cr_tie_flip_gap :: "i32 option"

text \<open>What the loop gets from outside: the library's sorts, the parsers, the loaded files.\<close>

record 'j diag_env =
  d_select :: "cent_dist select_fn"
  d_sort :: "cent_dist sort_fn"
  d_sort_nn :: "true_nn sort_fn"
  d_parse_time :: rfc3339
  d_from_value :: "'j \<Rightarrow> request option"
  d_norm :: normalization
  d_mcc :: mcc_risk
  d_index :: ivf_index
  d_refs :: "(f32 list \<times> bool) list"

definition true_detail :: "ivf_index \<Rightarrow> true_nn \<times> nat \<Rightarrow> true_neighbor outcome" where
  "true_detail x = (\<lambda>((vi, dist, is_fraud), rank).
     and_then (find_cluster x vi) (\<lambda>ci.
       Inr \<lparr>tn_vec_idx = vi, tn_float32_dist = dist, tn_is_fraud = is_fraud, tn_cluster_idx = ci, tn_rank = rank\<rparr>))"

definition classify_one :: "'j diag_env \<Rightarrow> 'j mismatch \<Rightarrow> classified outcome" where
  "classify_one E m =
     and_then (expect (d_from_value E (m_transaction m))) (\<lambda>req.
     and_then (vectorize (d_parse_time E) req (d_norm E) (d_mcc E)) (\<lambda>query.
     and_then (diagnostic_search (d_select E) (d_sort E) (d_index E) query) (\<lambda>diag.
     and_then (brute_force_5nn (d_sort_nn E) (d_refs E) query) (\<lambda>nn.
     and_then (try_map (cluster_rank_of_vec_in_centroid_order (d_sort E) (d_index E) query) (map fst nn)) (\<lambda>ranks.
     and_then (classify (d_index E) query diag nn ranks (m_expected_approved m)) (\<lambda>(cls, missed_rank, gap).
     and_then (try_map (true_detail (d_index E)) (zip nn ranks)) (\<lambda>true_5nn.
     Inr \<lparr>cr_idx = m_idx m, cr_id = m_id m, cr_classification = cls,
          cr_expected_approved = m_expected_approved m, cr_actual_approved_ivf = m_actual_approved m,
          cr_query_vec = query, cr_true_5nn = true_5nn, cr_ivf_5nn = returned_neighbors diag,
          cr_fraud_count_true = length (filter (\<lambda>(_, _, f). f) nn), cr_fraud_count_ivf = ivf_fraud_count diag,
          cr_clusters_scanned = probed_cluster_indices diag, cr_ranks_of_true = ranks,
          cr_probe_miss_rank = missed_rank, cr_tie_flip_gap = gap\<rparr>)))))))"

section \<open>All mismatches\<close>

record tally =
  count_tie_flip :: nat
  count_probe_miss :: nat
  count_vectorize :: nat
  count_other :: nat
  probe_miss_rank_hist :: "nat \<rightharpoonup> nat"
  tie_flip_gap_hist :: "i32 \<rightharpoonup> nat"

definition tally_new :: tally where
  "tally_new = \<lparr>count_tie_flip = 0, count_probe_miss = 0, count_vectorize = 0, count_other = 0,
     probe_miss_rank_hist = Map.empty, tie_flip_gap_hist = Map.empty\<rparr>"

text \<open>\<open>*hist.entry(key).or_insert(0) += 1\<close>.\<close>

definition bump :: "'k \<Rightarrow> ('k \<rightharpoonup> nat) \<Rightarrow> ('k \<rightharpoonup> nat)" where
  "bump key h = h(key \<mapsto> (case h key of None \<Rightarrow> 0 | Some n \<Rightarrow> n) + 1)"

definition tally_record :: "classified \<Rightarrow> tally \<Rightarrow> tally" where
  "tally_record r t =
     (case cr_classification r of
        Vectorize \<Rightarrow> t\<lparr>count_vectorize := count_vectorize t + 1\<rparr>
      | ProbeMiss \<Rightarrow> t\<lparr>count_probe_miss := count_probe_miss t + 1,
          probe_miss_rank_hist := (case cr_probe_miss_rank r of None \<Rightarrow> probe_miss_rank_hist t
            | Some k \<Rightarrow> bump k (probe_miss_rank_hist t))\<rparr>
      | TieFlip \<Rightarrow> t\<lparr>count_tie_flip := count_tie_flip t + 1,
          tie_flip_gap_hist := (case cr_tie_flip_gap r of None \<Rightarrow> tie_flip_gap_hist t
            | Some g \<Rightarrow> bump g (tie_flip_gap_hist t))\<rparr>
      | Other \<Rightarrow> t\<lparr>count_other := count_other t + 1\<rparr>)"

definition classify_all :: "'j diag_env \<Rightarrow> 'j mismatch list \<Rightarrow> (tally \<times> classified list) outcome" where
  "classify_all E ms =
     try_fold (\<lambda>(t, out) m. and_then (classify_one E m) (\<lambda>r. Inr (tally_record r t, out @ [r])))
       (tally_new, []) ms"

datatype advice = RaiseProbes | Rerank

definition recommendation :: "tally \<Rightarrow> advice" where
  "recommendation t = (if count_probe_miss t > count_tie_flip t then RaiseProbes else Rerank)"

section \<open>Facts about the parts\<close>

definition diag_known :: "string list" where
  "diag_known = [''--mismatches'', ''--index'', ''--refs'', ''--norm'', ''--mcc'', ''--output'']"

definition diag_set :: "string \<Rightarrow> string \<Rightarrow> diag_args \<Rightarrow> diag_args outcome" where
  "diag_set flag v a = diag_flag [flag, v] 0 a"

lemma diag_flag_at:
  assumes "i < length raw"
  shows "diag_flag raw i a =
    (if raw ! i \<notin> set diag_known then Inl ProcessExit
     else if i + 1 < length raw then diag_set (raw ! i) (raw ! (i + 1)) a else Inl IndexPanic)"
  using assms by (simp add: diag_flag_def diag_set_def diag_known_def at_index_def Let_def)

interpretation diag_flags: flag_loop diag_known diag_set diag_flag diag_loop
  by unfold_locales (rule diag_flag_at diag_loop.simps, assumption?)+

lemma add_references:
  "try_fold add_reference refs (map Inr recs)
    = Inr (refs @ map (\<lambda>r. (take DIMS (rl_vector r), rl_label r = ''fraud'')) (usable recs))"
  by (induction recs arbitrary: refs) (simp_all add: add_reference_def)

text \<open>The tally of the records written so far.\<close>

definition class_count :: "classification \<Rightarrow> classified list \<Rightarrow> nat" where
  "class_count c out = length (filter (\<lambda>r. cr_classification r = c) out)"

definition hist_of :: "(classified \<Rightarrow> 'k option) \<Rightarrow> classification \<Rightarrow> classified list \<Rightarrow> ('k \<rightharpoonup> nat)" where
  "hist_of f c out k =
     (let n = length (filter (\<lambda>r. cr_classification r = c \<and> f r = Some k) out)
      in if n = 0 then None else Some n)"

definition tally_of :: "classified list \<Rightarrow> tally" where
  "tally_of out =
     \<lparr>count_tie_flip = class_count TieFlip out, count_probe_miss = class_count ProbeMiss out,
      count_vectorize = class_count Vectorize out, count_other = class_count Other out,
      probe_miss_rank_hist = hist_of cr_probe_miss_rank ProbeMiss out,
      tie_flip_gap_hist = hist_of cr_tie_flip_gap TieFlip out\<rparr>"

lemma tally_of_Nil: "tally_of [] = tally_new"
  by (simp add: tally_of_def tally_new_def class_count_def hist_of_def fun_eq_iff)

lemma hist_of_snoc:
  "hist_of f c (out @ [r]) =
    (if cr_classification r = c then (case f r of None \<Rightarrow> hist_of f c out | Some k \<Rightarrow> bump k (hist_of f c out))
     else hist_of f c out)"
  by (rule ext) (auto simp: hist_of_def bump_def Let_def split: option.split)

lemma tally_of_snoc: "tally_of (out @ [r]) = tally_record r (tally_of out)"
  by (cases "cr_classification r")
    (simp_all add: tally_of_def tally_record_def class_count_def hist_of_snoc split: option.split)

lemma class_count_total: "class_count TieFlip out + class_count ProbeMiss out + class_count Vectorize out + class_count Other out = length out"
proof (induction out)
  case (Cons r out)
  then show ?case by (cases "cr_classification r") (simp_all add: class_count_def)
qed (simp add: class_count_def)

lemma classify_all_fold:
  "try_fold (\<lambda>(t, out) m. and_then (classify_one E m) (\<lambda>r. Inr (tally_record r t, out @ [r])))
      (tally_of out, out) ms
    = and_then (try_map (classify_one E) ms) (\<lambda>rs. Inr (tally_of (out @ rs), out @ rs))"
proof (induction ms arbitrary: out)
  case (Cons m ms)
  show ?case
  proof (cases "classify_one E m")
    case (Inr r)
    then show ?thesis using Cons [of "out @ [r]"] by (simp add: tally_of_snoc and_then_assoc)
  qed simp
qed simp

lemma classify_all_eq:
  "classify_all E ms = and_then (try_map (classify_one E) ms) (\<lambda>rs. Inr (tally_of rs, rs))"
  using classify_all_fold [of E "[]" ms] by (simp add: classify_all_def tally_of_Nil)

section \<open>The classifier does not panic\<close>

text \<open>
  The index holds at least as many vectors as there are references, these are finite, and the
  constants of the feature extraction are sane.
\<close>

definition diag_env_ok :: "'j diag_env \<Rightarrow> f32 list list \<Rightarrow> entry list list \<Rightarrow> bool" where
  "diag_env_ok E centroids clusters \<longleftrightarrow>
     select_contract (d_select E) \<and> sort_contract (d_sort E) \<and> sort_contract (d_sort_nn E) \<and>
     rfc3339_contract (d_parse_time E) \<and> norm_ok (d_norm E) \<and> risk_ok (d_mcc E) \<and>
     diag_views (d_index E) (ivf_of centroids clusters) \<and> ivf_ok (ivf_of centroids clusters) \<and>
     length clusters = length centroids \<and> sizes_sum clusters < 2 ^ 64 \<and>
     finite_refs (d_refs E) \<and> length (d_refs E) \<le> sizes_sum clusters"

definition readable :: "'j diag_env \<Rightarrow> 'j mismatch \<Rightarrow> bool" where
  "readable E m \<longleftrightarrow> (\<exists>req. d_from_value E (m_transaction m) = Some req \<and> request_finite req)"

lemma features_are_numbers:
  assumes "rfc3339_contract parse" and "norm_ok nrm" and "request_finite req" and "risk_ok mcc"
  obtains query where "vectorize parse req nrm mcc = Inr query" "\<forall>j<DIMS. \<not> is_nan32 (query ! j)"
proof -
  obtain t where "tx_time_of parse (t_requested_at (r_transaction req)) = Inr t"
    by (rule tx_time_of_ok [OF assms(1)])
  from vectorize_eq [OF this] obtain query where q: "vectorize parse req nrm mcc = Inr query" by blast
  have one: "\<not> is_nan32 (- 1)" by (simp add: float_eval)
  have "\<not> is_nan32 (query ! j)" if "j < DIMS" for j
    using vectorize_range_aux [OF assms q that] one by (auto simp: f32_less_eq_iff)
  with q that show thesis by blast
qed

lemma position_in_cluster:
  "i < sizes_sum clusters \<Longrightarrow>
   \<exists>ci<length clusters. \<exists>j<length (clusters ! ci). i = sizes_sum (take ci clusters) + j"
proof (induction clusters arbitrary: i)
  case (Cons c cs)
  show ?case
  proof (cases "i < length c")
    case False
    then have "i - length c < sizes_sum cs" using Cons.prems by simp
    from Cons.IH [OF this] obtain ci j where "ci < length cs" "j < length (cs ! ci)"
      "i - length c = sizes_sum (take ci cs) + j" by blast
    with False show ?thesis by (intro exI [of _ "Suc ci"] conjI exI [of _ j]) auto
  qed (auto intro: exI [of _ 0])
qed simp

lemma find_cluster_total:
  assumes "diag_env_ok E centroids clusters" and "i < length (d_refs E)"
  shows "\<exists>c. find_cluster (d_index E) i = Inr c"
proof -
  from assms position_in_cluster [of i clusters] obtain ci j where
    "ci < length clusters" "j < length (clusters ! ci)" "i = sizes_sum (take ci clusters) + j"
    by (auto simp: diag_env_ok_def)
  with find_cluster_written_aux(1) [of "d_index E" centroids clusters ci j] assms(1)
  show ?thesis by (auto simp: diag_env_ok_def)
qed

lemma classify_total:
  assumes "\<And>i. i \<in> fst ` set nn \<Longrightarrow> i < length (x_vecs x)"
  shows "\<exists>c. classify x query diag nn ranks expected = Inr c"
proof -
  have "\<exists>d. at_index (x_vecs x) (map fst nn ! 4) = Inr d" if "4 < length nn"
    using assms [of "fst (nn ! 4)"] that by simp
  then show ?thesis
    by (fastforce simp: classify_def Let_def)
qed

lemma classify_one_total:
  assumes E: "diag_env_ok E centroids clusters" and "readable E m"
  shows "\<exists>r. classify_one E m = Inr r"
proof -
  let ?x = "d_index E" and ?v = "ivf_of centroids clusters"
  note ok = E [unfolded diag_env_ok_def]
  from assms(2) obtain req where req: "d_from_value E (m_transaction m) = Some req" "request_finite req"
    by (auto simp: readable_def)
  obtain query where q: "vectorize (d_parse_time E) req (d_norm E) (d_mcc E) = Inr query"
    "\<forall>j<DIMS. \<not> is_nan32 (query ! j)"
    by (rule features_are_numbers [of "d_parse_time E" "d_norm E" req "d_mcc E"]) (use ok req(2) in auto)
  obtain diag where diag: "diagnostic_search (d_select E) (d_sort E) ?x query = Inr diag"
    using diagnostic_search_spec [of "d_select E" "d_sort E" ?x ?v query] ok by blast
  obtain nn where nn: "brute_force_5nn (d_sort_nn E) (d_refs E) query = Inr nn"
    "k_smallest nn_key 5 (mset (true_candidates (d_refs E) query)) (mset nn)"
    using brute_force_spec [of "d_sort_nn E" "d_refs E" query] ok q(2) by blast
  have "set nn \<subseteq> set (true_candidates (d_refs E) query)"
    using nn(2) set_mset_mono [of "mset nn" "mset (true_candidates (d_refs E) query)"] by (simp add: k_smallest_def)
  then have pos: "i < length (d_refs E)" if "i \<in> fst ` set nn" for i
    using that by (force simp: true_candidates_def in_set_enumerate_eq)
  have find: "\<exists>c. find_cluster ?x i = Inr c" if "i \<in> fst ` set nn" for i
    by (rule find_cluster_total [OF E pos [OF that]])
  have "\<exists>r. cluster_rank_of_vec_in_centroid_order (d_sort E) ?x query i = Inr r" if i: "i \<in> fst ` set nn" for i
  proof -
    obtain c where "find_cluster ?x i = Inr c" using find [OF i] by blast
    with cluster_rank_spec [of "d_sort E" ?x ?v i c query] ok show ?thesis by blast
  qed
  then obtain ranks where ranks: "try_map (cluster_rank_of_vec_in_centroid_order (d_sort E) ?x query) (map fst nn) = Inr ranks"
    using try_map_exists [of "map fst nn" "cluster_rank_of_vec_in_centroid_order (d_sort E) ?x query"] by auto
  have "length (x_vecs ?x) = sizes_sum clusters"
    using ok by (simp add: diag_views_def ivf_of_def length_concat_clusters)
  then obtain c where c: "classify ?x query diag nn ranks (m_expected_approved m) = Inr c"
    using classify_total [of nn ?x] pos ok by fastforce
  have "\<exists>d. true_detail ?x p = Inr d" if "p \<in> set (zip nn ranks)" for p
  proof -
    obtain i d f rank where p: "p = ((i, d, f), rank)" by (metis prod.exhaust)
    then have "i \<in> fst ` set nn" using that set_zip_leftD by force
    then obtain ci where "find_cluster ?x i = Inr ci" using find by blast
    then show ?thesis by (simp add: true_detail_def p)
  qed
  then obtain details where "try_map (true_detail ?x) (zip nn ranks) = Inr details"
    using try_map_exists [of "zip nn ranks"] by blast
  then show ?thesis using req(1) q(1) diag nn(1) ranks c
    by (simp add: classify_one_def expect_def split: prod.split)
qed

section \<open>What a record says\<close>

text \<open>The true neighbours of a record are five nearest references of its features.\<close>

definition nn_of :: "true_neighbor \<Rightarrow> true_nn" where
  "nn_of n = (tn_vec_idx n, tn_float32_dist n, tn_is_fraud n)"

lemma true_detail_nn_of: "true_detail x (n, rank) = Inr d \<Longrightarrow> nn_of d = n"
  by (cases n) (auto simp: true_detail_def and_then_eq_Inr nn_of_def)

lemma true_details_nn_of:
  assumes "try_map (true_detail x) (zip nn ranks) = Inr ds" and "length ranks = length nn"
  shows "map nn_of ds = nn"
proof (rule nth_equalityI)
  note d = try_map_nth [OF assms(1)]
  show len: "length (map nn_of ds) = length nn" using d assms(2) by simp
  fix i assume "i < length (map nn_of ds)"
  then have i: "i < length nn" by (simp only: len)
  have "true_detail x (nn ! i, ranks ! i) = Inr (ds ! i)" using d i assms(2) by simp
  then have "nn_of (ds ! i) = nn ! i" by (rule true_detail_nn_of)
  then show "map nn_of ds ! i = nn ! i" using i d assms(2) by simp
qed

lemma true_detail_spec:
  "true_detail x (n, rank) = Inr d \<Longrightarrow> tn_rank d = rank \<and> find_cluster x (tn_vec_idx d) = Inr (tn_cluster_idx d)"
  by (cases n) (auto simp: true_detail_def and_then_eq_Inr)

lemma true_details_spec:
  assumes "try_map (true_detail x) (zip nn ranks) = Inr ds" and "length ranks = length nn"
  shows "map tn_rank ds = ranks" and "\<forall>t\<in>set ds. find_cluster x (tn_vec_idx t) = Inr (tn_cluster_idx t)"
proof -
  note d = try_map_nth [OF assms(1)]
  have each: "tn_rank (ds ! i) = ranks ! i \<and> find_cluster x (tn_vec_idx (ds ! i)) = Inr (tn_cluster_idx (ds ! i))"
    if "i < length ds" for i
    using d assms(2) that by (intro true_detail_spec [where n = "nn ! i"]) simp
  then show "map tn_rank ds = ranks" using d assms(2) by (intro nth_equalityI) simp_all
  show "\<forall>t\<in>set ds. find_cluster x (tn_vec_idx t) = Inr (tn_cluster_idx t)"
    using each by (metis in_set_conv_nth)
qed

lemma classify_one_true_5nn:
  assumes "diag_env_ok E centroids clusters" and "readable E m" and "classify_one E m = Inr r"
  shows "k_smallest nn_key 5 (mset (true_candidates (d_refs E) (cr_query_vec r))) (mset (map nn_of (cr_true_5nn r)))"
    and "cr_idx r = m_idx m"
proof -
  from assms(3) obtain req query nn ranks details where
    r: "d_from_value E (m_transaction m) = Some req" "vectorize (d_parse_time E) req (d_norm E) (d_mcc E) = Inr query"
      "brute_force_5nn (d_sort_nn E) (d_refs E) query = Inr nn"
      "try_map (cluster_rank_of_vec_in_centroid_order (d_sort E) (d_index E) query) (map fst nn) = Inr ranks"
      "try_map (true_detail (d_index E)) (zip nn ranks) = Inr details"
      "cr_query_vec r = query" "cr_true_5nn r = details" "cr_idx r = m_idx m"
    by (auto simp: classify_one_def and_then_eq_Inr expect_def split: option.splits)
  note ok = assms(1) [unfolded diag_env_ok_def]
  obtain query' where "vectorize (d_parse_time E) req (d_norm E) (d_mcc E) = Inr query'" "\<forall>j<DIMS. \<not> is_nan32 (query' ! j)"
    by (rule features_are_numbers [of "d_parse_time E" "d_norm E" req "d_mcc E"])
      (use ok assms(2) r(1) in \<open>auto simp: readable_def\<close>)
  then have "\<forall>j<DIMS. \<not> is_nan32 (query ! j)" using r(2) by simp
  then obtain nn' where "brute_force_5nn (d_sort_nn E) (d_refs E) query = Inr nn'"
    "k_smallest nn_key 5 (mset (true_candidates (d_refs E) query)) (mset nn')"
    using brute_force_spec [of "d_sort_nn E" "d_refs E" query] ok by blast
  moreover have "map nn_of details = nn"
    using try_map_length [OF r(4)] by (intro true_details_nn_of [OF r(5)]) simp
  ultimately show "k_smallest nn_key 5 (mset (true_candidates (d_refs E) (cr_query_vec r))) (mset (map nn_of (cr_true_5nn r)))"
    using r(3,6,7) by simp
  show "cr_idx r = m_idx m" by (rule r(8))
qed

lemma classify_one_clusters:
  assumes "classify_one E m = Inr r" and "t \<in> set (cr_true_5nn r)"
  shows "find_cluster (d_index E) (tn_vec_idx t) = Inr (tn_cluster_idx t)"
proof -
  from assms(1) obtain query nn ranks where
    ranks: "try_map (cluster_rank_of_vec_in_centroid_order (d_sort E) (d_index E) query) (map fst nn) = Inr ranks"
    and details: "try_map (true_detail (d_index E)) (zip nn ranks) = Inr (cr_true_5nn r)"
    by (auto simp: classify_one_def and_then_eq_Inr)
  have "length ranks = length nn" using try_map_length [OF ranks] by simp
  from true_details_spec(2) [OF details this] assms(2) show ?thesis by blast
qed

text \<open>A position was scanned exactly if the cluster that holds it was probed.\<close>

lemma in_cluster_unique:
  assumes "length clusters = length centroids" and "sizes_sum clusters < 2 ^ 64"
    and "in_cluster (ivf_of centroids clusters) i b" and "in_cluster (ivf_of centroids clusters) i c"
    and "b < length clusters" and "c < length clusters"
  shows "b = c"
proof -
  have "\<not> b < c" if "in_cluster (ivf_of centroids clusters) i b" "in_cluster (ivf_of centroids clusters) i c"
    "c < length clusters" for b c
    using that sizes_sum_take_mono [of "Suc b" c clusters]
    by (cases "b < c") (simp_all add: in_cluster_written [OF assms(1,2)] take_Suc_conv_app_nth)
  then show ?thesis using assms(3-6) by (meson nat_neq_iff)
qed

lemma scanned_iff_probed:
  assumes x: "diag_views x (ivf_of centroids clusters)" "ivf_ok (ivf_of centroids clusters)"
    and len: "length clusters = length centroids" "sizes_sum clusters < 2 ^ 64"
    and near: "set near \<subseteq> {..<length centroids}" and "find_cluster x i = Inr c"
  shows "i \<in> set (concat (map (cluster_range (ivf_of centroids clusters)) near)) \<longleftrightarrow> c \<in> set near"
proof -
  have "in_cluster (ivf_of centroids clusters) i c" "c < length centroids"
    using assms(6) unfolding find_cluster_eq [OF x] by (auto simp: find_Some_iff ivf_of_def split: option.splits)
  moreover have "i \<in> set (cluster_range v b) \<longleftrightarrow> in_cluster v i b" for v b
    by (simp add: cluster_range_def in_cluster_def)
  moreover have "b < length clusters" if "b \<in> set near" for b using that near len(1) by auto
  ultimately show ?thesis
    using in_cluster_unique [OF len] len(1) by (auto simp: set_concat) metis
qed

text \<open>The decision over the details of the record instead of positions and ranks.\<close>

lemma classify_details:
  fixes ds :: "true_neighbor list"
  assumes "classify x query diag nn ranks expected = Inr (c, missed_rank, gap)"
    and ds: "map nn_of ds = nn" "map tn_rank ds = ranks"
    and scan: "\<And>t. t \<in> set ds \<Longrightarrow> tn_vec_idx t \<in> set (scanned_vector_indices diag) \<longleftrightarrow> tn_cluster_idx t \<in> probed"
    and "missed = filter (\<lambda>t. tn_cluster_idx t \<notin> probed) ds" and "n = length (filter tn_is_fraud ds)"
  shows "c = (if (n < 3) \<noteq> expected then Vectorize else if missed \<noteq> [] then ProbeMiss
      else if ivf_fraud_count diag \<noteq> n then TieFlip else Other)"
    and "missed_rank = (if c = ProbeMiss then Some (Min (tn_rank ` set missed)) else None)"
    and "gap = None \<longleftrightarrow> c \<noteq> TieFlip"
proof -
  have n: "length (filter (\<lambda>(_, _, f). f) nn) = n"
    unfolding assms(6) ds(1) [symmetric] by (simp add: filter_map comp_def nn_of_def)
  have idxs: "map fst nn = map tn_vec_idx ds" unfolding ds(1) [symmetric] by (simp add: nn_of_def)
  have "zip (map fst nn) ranks = map (\<lambda>t. (tn_vec_idx t, tn_rank t)) ds"
    unfolding idxs ds(2) [symmetric] by (simp add: zip_map_map zip_same_conv_map)
  moreover have "filter (\<lambda>t. tn_vec_idx t \<notin> set (scanned_vector_indices diag)) ds = missed"
    unfolding assms(5) by (rule filter_cong) (simp_all add: scan)
  ultimately have ranks: "map snd (filter (\<lambda>(vi, _). vi \<notin> set (scanned_vector_indices diag)) (zip (map fst nn) ranks))
      = map tn_rank missed"
    by (simp add: filter_map comp_def)
  have all: "list_all (\<lambda>vi. vi \<in> set (scanned_vector_indices diag)) (map fst nn) \<longleftrightarrow> missed = []"
    unfolding idxs assms(5) using scan by (auto simp: list_all_iff filter_empty_conv)
  note code = assms(1) [unfolded classify_def Let_def n ranks all]
  show "c = (if (n < 3) \<noteq> expected then Vectorize else if missed \<noteq> [] then ProbeMiss
      else if ivf_fraud_count diag \<noteq> n then TieFlip else Other)"
    "missed_rank = (if c = ProbeMiss then Some (Min (tn_rank ` set missed)) else None)"
    "gap = None \<longleftrightarrow> c \<noteq> TieFlip"
    using code by (auto simp: and_then_eq_Inr split: if_splits)
qed

section \<open>Properties\<close>

text \<open>The summary agrees with the file: a run that gets through writes one record per mismatch,
  in order; its four counts are the numbers of records of each class and add up to all of them;
  and each histogram counts, for every rank or gap, the records that have it.\<close>

theorem classify_all_counts:
  assumes "classify_all E ms = Inr (t, out)"
  shows "length out = length ms \<and> (\<forall>i<length ms. classify_one E (ms ! i) = Inr (out ! i)) \<and>
    count_tie_flip t = class_count TieFlip out \<and> count_probe_miss t = class_count ProbeMiss out \<and>
    count_vectorize t = class_count Vectorize out \<and> count_other t = class_count Other out \<and>
    count_tie_flip t + count_probe_miss t + count_vectorize t + count_other t = length ms \<and>
    probe_miss_rank_hist t = hist_of cr_probe_miss_rank ProbeMiss out \<and>
    tie_flip_gap_hist t = hist_of cr_tie_flip_gap TieFlip out"
proof -
  from assms have rs: "try_map (classify_one E) ms = Inr out" "t = tally_of out"
    unfolding classify_all_eq and_then_eq_Inr by auto
  from try_map_nth [OF rs(1)] class_count_total [of out] show ?thesis by (simp add: rs(2) tally_of_def)
qed

text \<open>C37: The line written for a mismatch is consistent. Over a well-formed index that holds at least as
  many vectors as there are references, a readable mismatch gets a record whose class follows from
  the other fields of the record: \<open>Vectorize\<close> if the listed true neighbours do not vote for the
  expected answer; otherwise \<open>ProbeMiss\<close> exactly if the cluster listed for one of them is not among
  the clusters listed as scanned, with the least rank listed for such a neighbour; otherwise \<open>TieFlip\<close>,
  with a gap, exactly if the two fraud counts differ; and \<open>Other\<close> if nothing explains it.\<close>

theorem classified_record_consistent:
  assumes "diag_env_ok E centroids clusters" and "readable E m"
  shows "\<exists>r missed. classify_one E m = Inr r \<and>
    missed = filter (\<lambda>t. tn_cluster_idx t \<notin> set (cr_clusters_scanned r)) (cr_true_5nn r) \<and>
    cr_fraud_count_true r = length (filter tn_is_fraud (cr_true_5nn r)) \<and>
    cr_fraud_count_ivf r = length (filter (\<lambda>(_, _, f). f) (cr_ivf_5nn r)) \<and>
    cr_classification r = (if (cr_fraud_count_true r < 3) \<noteq> m_expected_approved m then Vectorize
      else if missed \<noteq> [] then ProbeMiss
      else if cr_fraud_count_ivf r \<noteq> cr_fraud_count_true r then TieFlip else Other) \<and>
    cr_probe_miss_rank r = (if cr_classification r = ProbeMiss then Some (Min (tn_rank ` set missed)) else None) \<and>
    (cr_tie_flip_gap r = None \<longleftrightarrow> cr_classification r \<noteq> TieFlip)"
proof -
  note ok = assms(1) [unfolded diag_env_ok_def]
  obtain r where r: "classify_one E m = Inr r" using classify_one_total [OF assms] by blast
  then obtain req query diag nn ranks c missed_rank gap details where
    diag: "diagnostic_search (d_select E) (d_sort E) (d_index E) query = Inr diag"
    and ranks: "try_map (cluster_rank_of_vec_in_centroid_order (d_sort E) (d_index E) query) (map fst nn) = Inr ranks"
    and c: "classify (d_index E) query diag nn ranks (m_expected_approved m) = Inr (c, missed_rank, gap)"
    and details: "try_map (true_detail (d_index E)) (zip nn ranks) = Inr details"
    and fields: "cr_classification r = c" "cr_true_5nn r = details" "cr_ivf_5nn r = returned_neighbors diag"
      "cr_fraud_count_true r = length (filter (\<lambda>(_, _, f). f) nn)" "cr_fraud_count_ivf r = ivf_fraud_count diag"
      "cr_clusters_scanned r = probed_cluster_indices diag" "cr_probe_miss_rank r = missed_rank" "cr_tie_flip_gap r = gap"
    by (auto simp: classify_one_def and_then_eq_Inr expect_def split: option.splits)
  obtain diag' where "diagnostic_search (d_select E) (d_sort E) (d_index E) query = Inr diag'"
    "nearest_clusters (ivf_of centroids clusters) query (min 3 (length (i_cents (ivf_of centroids clusters)))) (probed_cluster_indices diag')"
    "scanned_vector_indices diag' = concat (map (cluster_range (ivf_of centroids clusters)) (probed_cluster_indices diag'))"
    "ivf_fraud_count diag' = length (filter (\<lambda>(_, _, f). f) (returned_neighbors diag'))"
    using diagnostic_search_spec [of "d_select E" "d_sort E" "d_index E" "ivf_of centroids clusters" query] ok by blast
  then have near: "set (probed_cluster_indices diag) \<subseteq> {..<length centroids}"
    and scanned: "scanned_vector_indices diag = concat (map (cluster_range (ivf_of centroids clusters)) (probed_cluster_indices diag))"
    and count: "ivf_fraud_count diag = length (filter (\<lambda>(_, _, f). f) (returned_neighbors diag))"
    using diag by (simp_all add: nearest_clusters_def ivf_of_def Let_def)
  have len: "length ranks = length nn" using try_map_length [OF ranks] by simp
  note nn = true_details_nn_of [OF details len] and det = true_details_spec [OF details len]
  have "tn_vec_idx t \<in> set (scanned_vector_indices diag) \<longleftrightarrow> tn_cluster_idx t \<in> set (probed_cluster_indices diag)"
    if "t \<in> set details" for t
    unfolding scanned by (rule scanned_iff_probed [OF _ _ _ _ near]) (use ok det(2) that in auto)
  note cls = classify_details [OF c nn det(1) this refl refl]
  have "length (filter (\<lambda>(_, _, f). f) nn) = length (filter tn_is_fraud details)"
    unfolding nn [symmetric] by (simp add: filter_map comp_def nn_of_def)
  with r fields count cls show ?thesis by (intro exI conjI) (rule r refl | simp)+
qed

lemma count_up:
  "F32 0 + F32 0x3f800000 = F32 0x3f800000"
  "F32 0x3f800000 + F32 0x3f800000 = F32 0x40000000"
  "F32 0x40000000 + F32 0x3f800000 = F32 0x40400000"
  "F32 0x40400000 + F32 0x3f800000 = F32 0x40800000"
  "F32 0x40800000 + F32 0x3f800000 = F32 0x40a00000"
  "F32 0x40a00000 + F32 0x3f800000 = F32 0x40c00000"
  "F32 0x40c00000 + F32 0x3f800000 = F32 0x40e00000"
  "F32 0x40e00000 + F32 0x3f800000 = F32 0x41000000"
  "F32 0x41000000 + F32 0x3f800000 = F32 0x41100000"
  "F32 0x41100000 + F32 0x3f800000 = F32 0x41200000"
  "F32 0x41200000 + F32 0x3f800000 = F32 0x41300000"
  "F32 0x41300000 + F32 0x3f800000 = F32 0x41400000"
  "F32 0x41400000 + F32 0x3f800000 = F32 0x41500000"
  "F32 0x41500000 + F32 0x3f800000 = F32 0x41600000"
  by (simp_all add: float_eval)

lemma demo_distances:
  "centroid_distance (replicate DIMS 1) (replicate DIMS 1) = 0"
  "centroid_distance (replicate DIMS 1) (replicate DIMS 0) = F32 0x41600000"
proof -
  have one: "(1 :: f32) - 1 = 0" "(0 :: f32) * 0 = 0" "(0 :: f32) + 0 = 0" "(1 :: f32) - 0 = 1" "(1 :: f32) * 1 = 1"
    by (simp_all add: float_eval)
  show "centroid_distance (replicate DIMS 1) (replicate DIMS 1) = 0"
    by (simp add: centroid_distance_def DIMS_def Let_def one upt_conv_Cons)
  have "centroid_distance (replicate DIMS 1) (replicate DIMS 0)
      = 0 + 1 + 1 + 1 + 1 + 1 + 1 + 1 + 1 + 1 + 1 + 1 + 1 + 1 + (1 :: f32)"
    by (simp add: centroid_distance_def DIMS_def Let_def one upt_conv_Cons)
  then show "centroid_distance (replicate DIMS 1) (replicate DIMS 0) = F32 0x41600000"
    by (simp add: zero_f32_def one_f32_def count_up)
qed

text \<open>C32: The classifier mixes two numberings. \<open>load_references\<close> keeps the usable records in file
  order, which is not the order of the index, yet positions of the one are looked up in the other:
  over the two-record example, whatever the mismatch, the true neighbours listed include the fraud,
  stored at position 1 in the cluster of the centroid nearest to it, number 1, as a vector of
  cluster 0, because at the position 0 that it has in the file the index holds the legitimate one.\<close>

theorem classifier_mixes_numberings:
  assumes "diag_load (demo_files 1) ''i'' = Inr (Inr (d_index E))"
    and "load_references demo_libs [''g'' \<mapsto> demo_gz] ''g'' = Inr (d_refs E)"
    and "diag_env_ok E demo_cents demo_clusters" and "readable E m"
  shows "\<exists>r t. classify_one E m = Inr r \<and> t \<in> set (cr_true_5nn r) \<and> tn_is_fraud t \<and>
    first_nearest (fst (d_refs E ! tn_vec_idx t)) (x_centroids (d_index E)) 1 \<and> x_labels (d_index E) ! 1 \<and>
    tn_cluster_idx t = 0 \<and> \<not> x_labels (d_index E) ! tn_vec_idx t"
proof -
  have x: "diag_views (d_index E) (ivf_of demo_cents demo_clusters)" "ivf_ok (ivf_of demo_cents demo_clusters)"
    "length demo_clusters = length demo_cents" "sizes_sum demo_clusters < 2 ^ 64"
    using assms(3) by (simp_all add: diag_env_ok_def)
  have refs: "d_refs E = [(replicate DIMS 1, True), (replicate DIMS 0, False)]"
    by (rule demo_reader) (use assms(2) in \<open>simp add: load_references_def add_reference_def demo_recs_def\<close>)
  obtain r where r: "classify_one E m = Inr r" using classify_one_total [OF assms(3,4)] by blast
  let ?cands = "true_candidates (d_refs E) (cr_query_vec r)"
  have "length ?cands = 2" by (simp add: true_candidates_def refs)
  then have "mset (map nn_of (cr_true_5nn r)) = mset ?cands"
    by (intro k_smallest_all [OF classify_one_true_5nn(1) [OF assms(3,4) r]]) (simp only: size_mset)
  then have "nn_of ` set (cr_true_5nn r) = set ?cands" by (metis mset_eq_setD set_map)
  moreover have "(0, centroid_distance (cr_query_vec r) (replicate DIMS 1), True) \<in> set ?cands"
    by (simp add: true_candidates_def refs)
  ultimately obtain t where t: "t \<in> set (cr_true_5nn r)"
    "(0, centroid_distance (cr_query_vec r) (replicate DIMS 1), True) = nn_of t" by (metis imageE)
  then have pos: "tn_vec_idx t = 0" "tn_is_fraud t" by (simp_all add: nn_of_def)
  have "find_cluster (d_index E) 0 = Inr 0"
    using find_cluster_written_aux(1) [OF x, of 0 0] by (simp add: demo_clusters_def)
  then have "tn_cluster_idx t = 0" using classify_one_clusters [OF r t(1)] pos(1) by simp
  moreover have less: "(0 :: f32) < F32 0x41600000" "F32 0x41600000 < f32_max" "(0 :: f32) < f32_max"
    "\<not> F32 0x41600000 < (0 :: f32)" "\<not> (0 :: f32) < 0"
    by (simp_all add: float_eval)
  then have "first_nearest (replicate DIMS 1) demo_cents 1"
    using demo_distances by (auto simp: first_nearest_def demo_cents_def Let_def less_Suc_eq)
  moreover have "x_labels (d_index E) ! 1" "\<not> x_labels (d_index E) ! 0" "x_centroids (d_index E) = demo_cents"
    using x(1) by (simp_all add: diag_views_def ivf_of_def demo_clusters_def)
  ultimately show ?thesis using r t(1) pos refs by (intro exI conjI) (assumption | simp)+
qed

definition demo_diag_env :: "ivf_index \<Rightarrow> unit diag_env" where
  "demo_diag_env x = \<lparr>d_select = insertion_select, d_sort = insertion_sort, d_sort_nn = insertion_sort,
     d_parse_time = demo_parse, d_from_value = (\<lambda>_. Some (demo_request ''yesterday'' None)),
     d_norm = demo_norm, d_mcc = Map.empty, d_index = x,
     d_refs = [(replicate DIMS 1, True), (replicate DIMS 0, False)]\<rparr>"

definition demo_mismatch :: "unit mismatch" where
  "demo_mismatch = \<lparr>m_idx = 0, m_id = ''t'', m_expected_approved = True, m_actual_approved = False,
     m_actual_fraud_score = 1, m_transaction = ()\<rparr>"

lemma demo_env:
  obtains x where "diag_load (demo_files 1) ''i'' = Inr (Inr x)"
    "diag_env_ok (demo_diag_env x) demo_cents demo_clusters" "readable (demo_diag_env x) demo_mismatch"
proof (rule demo_diag)
  fix x assume x: "diag_load (demo_files 1) ''i'' = Inr (Inr x)" "diag_views x (ivf_of demo_cents demo_clusters)"
    "ivf_ok (ivf_of demo_cents demo_clusters)"
  have "length demo_clusters = length demo_cents" "sizes_sum demo_clusters = 2"
    by (simp_all add: demo_clusters_def demo_cents_def)
  then have "diag_env_ok (demo_diag_env x) demo_cents demo_clusters"
    using x(2,3) insertion_contracts insertion.sort demo_request_ok(1-3)
    by (simp add: diag_env_ok_def demo_diag_env_def finite_refs_def f32_finite_iff)
  moreover have "readable (demo_diag_env x) demo_mismatch"
    using demo_request_ok(4) by (simp add: readable_def demo_diag_env_def)
  ultimately show thesis using x(1) that by blast
qed

theorem classify_all_counts_witness:
  "\<exists>x t out. diag_load (demo_files 1) ''i'' = Inr (Inr x) \<and>
    classify_all (demo_diag_env x) [demo_mismatch] = Inr (t, out) \<and>
    count_tie_flip t + count_probe_miss t + count_vectorize t + count_other t = 1"
proof (rule demo_env)
  fix x assume x: "diag_load (demo_files 1) ''i'' = Inr (Inr x)"
    "diag_env_ok (demo_diag_env x) demo_cents demo_clusters" "readable (demo_diag_env x) demo_mismatch"
  from classify_one_total [OF x(2,3)] obtain r where "classify_one (demo_diag_env x) demo_mismatch = Inr r" by blast
  then have r: "classify_all (demo_diag_env x) [demo_mismatch] = Inr (tally_of [r], [r])" by (simp add: classify_all_eq)
  from classify_all_counts [OF r] x(1) r show ?thesis by auto
qed

theorem classified_record_consistent_witness:
  "\<exists>x r. diag_load (demo_files 1) ''i'' = Inr (Inr x) \<and> classify_one (demo_diag_env x) demo_mismatch = Inr r \<and>
    cr_fraud_count_true r = length (filter tn_is_fraud (cr_true_5nn r)) \<and>
    (cr_tie_flip_gap r = None \<longleftrightarrow> cr_classification r \<noteq> TieFlip)"
proof (rule demo_env)
  fix x assume x: "diag_load (demo_files 1) ''i'' = Inr (Inr x)"
    "diag_env_ok (demo_diag_env x) demo_cents demo_clusters" "readable (demo_diag_env x) demo_mismatch"
  from classified_record_consistent [OF x(2,3)] x(1) show ?thesis by metis
qed

theorem classifier_mixes_numberings_witness:
  "\<exists>x r t. diag_load (demo_files 1) ''i'' = Inr (Inr x) \<and> classify_one (demo_diag_env x) demo_mismatch = Inr r \<and>
    t \<in> set (cr_true_5nn r) \<and> tn_is_fraud t \<and> tn_cluster_idx t = 0"
proof (rule demo_env)
  fix x assume x: "diag_load (demo_files 1) ''i'' = Inr (Inr x)"
    "diag_env_ok (demo_diag_env x) demo_cents demo_clusters" "readable (demo_diag_env x) demo_mismatch"
  have "load_references demo_libs [''g'' \<mapsto> demo_gz] ''g'' = Inr (d_refs (demo_diag_env x))"
    by (rule demo_reader) (simp add: load_references_def add_reference_def demo_recs_def demo_diag_env_def)
  moreover have "diag_load (demo_files 1) ''i'' = Inr (Inr (d_index (demo_diag_env x)))"
    using x(1) by (simp add: demo_diag_env_def)
  ultimately show ?thesis using classifier_mixes_numberings [OF _ _ x(2,3)] x(1) by blast
qed

end
