(* ===== verification/Search_Properties.thy ===== *)
theory Search_Properties
  imports Demo_Index
begin

text \<open>
  The properties of the index: loading, searching, and the two together over a written file.
  The witnesses run on the small index of Demo_Index.
\<close>

lemma search_zero_probes_panics_aux:
  assumes "select_contract sel" and "views s v" and "ivf_ok v" and "probes s = 0" and "i_cents v \<noteq> []"
  shows "search sel srt s query k buf = Inl IndexPanic"
proof -
  have n: "unat (num_cents s) = length (i_cents v)" using assms(2) by (simp add: views_def)
  have len: "length (cent_dist_list v query) = length (i_cents v)" by (simp add: cent_dist_list_def)
  have "unat (num_cents s) \<le> unat (- 1 :: usize)" using unat_u64_less [of "num_cents s"] by (simp add: unsigned_minus_1_eq_mask mask_eq_exp_minus_1)
  then have "length (cent_dist_list v query) \<le> unat (0 - 1 :: usize)" using n len by simp
  then have "sel cmp_cent_dist (unat (0 - 1 :: usize)) (cent_dist_list v query) = Inl IndexPanic"
    using assms(1) unfolding select_contract_def by presburger
  then have order: "nearest_first sel srt cmp_cent_dist 0 (cent_dist_list v query) = Inl IndexPanic"
    using assms(5) len by (simp add: nearest_first_def)
  note view = assms(2) [unfolded views_def]
  have loop: "and_then (try_map (\<lambda>i. and_then (sub_slice (concat (i_cents v)) (i * DIMS) ((i + 1) * DIMS))
      (\<lambda>c. Inr \<lparr>cd_idx = i, cd_dist = centroid_distance query c\<rparr>)) [0..<length (i_cents v)])
      (\<lambda>zs. Inr ([] @ zs)) = Inr (cent_dist_list v query)"
    unfolding centroid_scan [OF assms(3)] by simp
  have "min (probes s) (num_cents s) = 0" by (simp add: assms(4) min_def)
  then show ?thesis
    unfolding search_def Let_def view [THEN conjunct1] view [THEN conjunct2, THEN conjunct1]
      view [THEN conjunct2, THEN conjunct2, THEN conjunct1]
      view [THEN conjunct2, THEN conjunct2, THEN conjunct2, THEN conjunct1]
      and_then_simps n try_fold_push vec_clear_def loop by (simp add: order)
qed

section \<open>Searching\<close>

text \<open>C8: On a well-formed index, with at least one probe (or no centroid at all) and \<open>k\<close> positive,
  \<open>search\<close> does not fault for any query, NaN included, and whatever the reused buffer holds: it ranks the centroids, probes \<open>min(probes, num_cents)\<close>
  different clusters, none nearer being left out, and returns the labels of \<open>k\<close> vectors of those
  clusters (all of them, if there are fewer) none of which is farther, in quantized distance, than
  a vector it leaves out. The sort and the selection of the standard library are assumed to do
  what they document. Without a probe every search panics.\<close>

theorem search_returns_k_nearest:
  assumes "select_contract sel" and "sort_contract srt" and "views s v" and "ivf_ok v"
    and "0 < k" and "0 < unat (probes s) \<or> i_cents v = []"
  shows "\<exists>near cands buf'.
    search sel srt s query k buf = Inr (map (\<lambda>c. \<lparr>n_fraud = c_fraud c\<rparr>) cands, buf') \<and>
    nearest_clusters v query (min (unat (probes s)) (length (i_cents v))) near \<and>
    k_smallest cand_key k (mset (scanned v query near)) (mset cands)"
  using assms by (rule search_spec)

theorem search_returns_k_nearest_witness:
  "\<exists>s near cands buf'. load (demo_files 1) ''i'' 0 = Inr s \<and>
    search insertion_select insertion_sort s (replicate DIMS 1) 5 \<lparr>buf_cent_dists = [], buf_cands = []\<rparr>
      = Inr (map (\<lambda>c. \<lparr>n_fraud = c_fraud c\<rparr>) cands, buf') \<and>
    nearest_clusters (ivf_of demo_cents demo_clusters) (replicate DIMS 1) 1 near \<and>
    k_smallest cand_key 5 (mset (scanned (ivf_of demo_cents demo_clusters) (replicate DIMS 1) near)) (mset cands)"
proof (rule demo_load [of 1 0])
  fix s assume s: "load (demo_files 1) ''i'' 0 = Inr s" "views s (ivf_of demo_cents demo_clusters)"
    "probes s = (if 0 < (0::usize) then 0 else ucast (1::u32))" "ivf_ok (ivf_of demo_cents demo_clusters)"
  have "length (i_cents (ivf_of demo_cents demo_clusters)) = 2" by (simp add: ivf_of_def demo_cents_def)
  with search_returns_k_nearest [OF insertion_contracts s(2,4), of 5 "replicate DIMS 1"
      "\<lparr>buf_cent_dists = [], buf_cands = []\<rparr>"] s(1,3)
  show ?thesis by simp
qed

text \<open>C7: Writing an index, loading it and searching it with as many probes as there are
  centroids is exact: the answer holds \<open>k\<close> nearest entries, in quantized distance, of all entries
  of all clusters, as a brute-force scan over them would find.\<close>

theorem written_index_search_exhaustive:
  assumes "select_contract sel" and "sort_contract srt"
    and "write_index dev path centroids clusters nv nc dp fs = Inr fs'"
    and "rows_ok centroids clusters" and "list_all (list_all f32_finite) centroids"
    and "unat nc = length centroids" and "unat nv = sizes_sum clusters"
    and "layout_size (length centroids) (sizes_sum clusters) < 2 ^ 64"
    and "0 < k" and "length centroids \<le> unat (if r > 0 then r else ucast dp :: usize)"
  shows "\<exists>s cands buf'. load fs' path r = Inr s \<and>
    search sel srt s query k buf = Inr (map (\<lambda>c. \<lparr>n_fraud = c_fraud c\<rparr>) cands, buf') \<and>
    k_smallest cand_key k (mset (map (entry_candidate query) (concat clusters))) (mset cands)"
proof -
  have "fs' path = Some (index_bytes centroids clusters nv nc dp)"
    using write_index_Inr_aux [OF assms(3)] by simp
  from load_written [where fs = fs' and path = path and r = r, OF this assms(4,6,7,8)] obtain s where
    s: "load fs' path r = Inr s" "views s (ivf_of centroids clusters)"
    "probes s = (if r > 0 then r else ucast dp)" by blast
  have "sizes_sum clusters < 2 ^ 64" using assms(8) by (simp add: layout_size_def)
  from search_exhaustive [OF assms(1,2) s(2) assms(4,5) this assms(9)] s(1,3) assms(10)
  show ?thesis by auto
qed

theorem written_index_search_exhaustive_witness:
  "\<exists>fs' s cands buf'. write_index demo_device ''i'' demo_cents demo_clusters 2 2 1 Map.empty = Inr fs' \<and>
    load fs' ''i'' 2 = Inr s \<and>
    search insertion_select insertion_sort s (replicate DIMS 1) 1 \<lparr>buf_cent_dists = [], buf_cands = []\<rparr>
      = Inr (map (\<lambda>c. \<lparr>n_fraud = c_fraud c\<rparr>) cands, buf') \<and>
    k_smallest cand_key 1 (mset (map (entry_candidate (replicate DIMS 1)) (concat demo_clusters))) (mset cands)"
proof -
  have "length demo_cents \<le> unat (if 0 < (2::usize) then 2 else ucast (1::u32) :: usize)"
    by (simp add: demo_cents_def)
  from written_index_search_exhaustive [OF insertion_contracts demo_write demo_ok(1-5) zero_less_one this,
      of Map.empty "replicate DIMS 1" "\<lparr>buf_cent_dists = [], buf_cands = []\<rparr>"] demo_write [of Map.empty]
  show ?thesis by blast
qed

text \<open>The answer of \<open>search\<close> does not depend on what an earlier search left in the
  thread-local buffer, and neither does the buffer it leaves behind.\<close>

theorem search_buffer_independent:
  "search sel srt s query k buf = search sel srt s query k \<lparr>buf_cent_dists = [], buf_cands = []\<rparr>"
  by (simp add: search_def vec_clear_def)

text \<open>\<open>search\<close> never returns more than \<open>k\<close> neighbours, on any mapping, corrupted ones
  included, and whatever order the library's sort produces.\<close>

theorem search_at_most_k:
  assumes "search sel srt s query k buf = Inr (ns, buf')"
  shows "length ns \<le> k"
  using assms by (rule search_length_le)

theorem search_at_most_k_witness:
  "\<exists>s ns buf'. load (demo_files 1) ''i'' 0 = Inr s \<and>
    search insertion_select insertion_sort s (replicate DIMS 1) 1 \<lparr>buf_cent_dists = [], buf_cands = []\<rparr>
      = Inr (ns, buf') \<and> length ns \<le> 1"
proof (rule demo_load [of 1 0])
  fix s assume s: "load (demo_files 1) ''i'' 0 = Inr s" "views s (ivf_of demo_cents demo_clusters)"
    "probes s = (if 0 < (0::usize) then 0 else ucast (1::u32))" "ivf_ok (ivf_of demo_cents demo_clusters)"
  from search_spec [OF insertion_contracts s(2,4), of 1 "replicate DIMS 1"
      "\<lparr>buf_cent_dists = [], buf_cands = []\<rparr>"] s(3)
  obtain ns buf' where "search insertion_select insertion_sort s (replicate DIMS 1) 1
      \<lparr>buf_cent_dists = [], buf_cands = []\<rparr> = Inr (ns, buf')" by auto
  with s(1) search_at_most_k [OF this] show ?thesis by blast
qed

text \<open>With a probe count of zero, from the caller and from the header alike, \<open>probes - 1\<close>
  wraps around and \<open>search\<close> panics on every query of every index that has a centroid.\<close>

theorem search_zero_probes_panics:
  assumes "select_contract sel" and "views s v" and "ivf_ok v" and "probes s = 0" and "i_cents v \<noteq> []"
  shows "search sel srt s query k buf = Inl IndexPanic"
  using assms by (rule search_zero_probes_panics_aux)

theorem search_zero_probes_panics_witness:
  "\<exists>s. load (demo_files 0) ''i'' 0 = Inr s \<and>
    search insertion_select insertion_sort s (replicate DIMS 1) 5 \<lparr>buf_cent_dists = [], buf_cands = []\<rparr>
      = Inl IndexPanic"
proof (rule demo_load [of 0 0])
  fix s assume s: "load (demo_files 0) ''i'' 0 = Inr s" "views s (ivf_of demo_cents demo_clusters)"
    "probes s = (if 0 < (0::usize) then 0 else ucast (0::u32))" "ivf_ok (ivf_of demo_cents demo_clusters)"
  have "i_cents (ivf_of demo_cents demo_clusters) \<noteq> []" by (simp add: ivf_of_def demo_cents_def)
  with search_zero_probes_panics [OF insertion_contracts(1) s(2,4)] s(1,3) show ?thesis by simp
qed

section \<open>Loading and writing\<close>

text \<open>\<open>load\<close> accepts exactly the files whose header and length are right: 32 bytes of header
  with the magic, version 1 and 14 dimensions, and enough bytes for the four sections (in \<open>usize\<close>
  arithmetic, which wraps around). The probe count is the caller's unless that is zero.\<close>

theorem load_accepts:
  "load fs path r = Inr s \<longleftrightarrow>
     (\<exists>m nv nc. fs path = Some m \<and> 32 \<le> length m \<and> take 4 m = MAGIC \<and>
        u32_from_le_bytes (field m 4 8) = 1 \<and> nv = u64_from_le_bytes (field m 8 16) \<and>
        nc = ucast (u32_from_le_bytes (field m 16 20)) \<and>
        (ucast (u32_from_le_bytes (field m 20 24)) :: usize) = dims_usize \<and>
        unat (32 + nc * 56 + (nc + 1) * 8 + nv * 15) \<le> length m \<and>
        s = \<lparr>mmap = m, num_cents = nc, num_vecs = nv,
             probes = (if r = 0 then ucast (u32_from_le_bytes (field m 24 28)) else r), cent_off = 32,
             offset_off = 32 + nc * 56, vec_off = 32 + nc * 56 + (nc + 1) * 8,
             label_off = 32 + nc * 56 + (nc + 1) * 8 + nv * 14\<rparr>)"
proof -
  have pos: "(0 < r) = (r \<noteq> 0)" for r :: usize by (simp add: word_neq_0_conv)
  have "32 + nc * dims_usize * 4 + (nc + 1) * 8 + nv * dims_usize + nv
      = 32 + nc * 56 + (nc + 1) * 8 + nv * 15" for nc nv :: usize
    by (simp add: DIMS_def algebra_simps)
  then show ?thesis
    by (auto simp: load_def Let_def field_def DIMS_def pos not_less algebra_simps
        split: option.splits if_splits)
qed

text \<open>C21: After \<open>load\<close>, every typed view that \<open>search\<close> takes of the mapping lies inside it, provided
  the file size computed from the header does not wrap around at 64 bits.\<close>

theorem load_sections_in_file:
  assumes "load fs path r = Inr s"
    and "layout_size (unat (num_cents s)) (unat (num_vecs s)) < 2 ^ 64"
  shows "\<exists>cents offsets vecs labels.
    raw_slice 4 f32_from_le_bytes (mmap s) (unat (cent_off s)) (unat (num_cents s * dims_usize)) = Inr cents \<and>
    raw_slice 8 u64_from_le_bytes (mmap s) (unat (offset_off s)) (unat (num_cents s + 1)) = Inr offsets \<and>
    raw_slice 1 byte_from (mmap s) (unat (vec_off s)) (unat (num_vecs s * dims_usize)) = Inr vecs \<and>
    sub_slice (mmap s) (unat (label_off s)) (unat (label_off s + num_vecs s)) = Inr labels \<and>
    length cents = unat (num_cents s) * DIMS \<and> length offsets = unat (num_cents s) + 1 \<and>
    length vecs = unat (num_vecs s) * DIMS \<and> length labels = unat (num_vecs s)"
proof -
  note lay = load_layout [OF assms(1) refl refl assms(2)]
  have room: "32 + unat (num_cents s) * 56 + (unat (num_cents s) + 1) * 8 + unat (num_vecs s) * 14 +
      unat (num_vecs s) \<le> length (mmap s)"
    using lay(9) by (simp add: layout_size_def DIMS_def)
  obtain cents where "raw_slice 4 f32_from_le_bytes (mmap s) 32 (unat (num_cents s) * 14) = Inr cents"
    "length cents = unat (num_cents s) * 14"
    using raw_slice_ok [of 32 "unat (num_cents s) * 14" 4 "mmap s"] room by auto
  moreover obtain offsets where "raw_slice 8 u64_from_le_bytes (mmap s) (32 + unat (num_cents s) * 56)
      (unat (num_cents s) + 1) = Inr offsets" "length offsets = unat (num_cents s) + 1"
    using raw_slice_ok [of "32 + unat (num_cents s) * 56" "unat (num_cents s) + 1" 8 "mmap s"] room by auto
  moreover obtain vecs where "raw_slice 1 byte_from (mmap s) (32 + unat (num_cents s) * 56 +
      (unat (num_cents s) + 1) * 8) (unat (num_vecs s) * 14) = Inr vecs" "length vecs = unat (num_vecs s) * 14"
    using raw_slice_ok [of "32 + unat (num_cents s) * 56 + (unat (num_cents s) + 1) * 8"
        "unat (num_vecs s) * 14" 1 "mmap s"] room by auto
  moreover obtain labels where "sub_slice (mmap s) (32 + unat (num_cents s) * 56 +
      (unat (num_cents s) + 1) * 8 + unat (num_vecs s) * 14)
      (layout_size (unat (num_cents s)) (unat (num_vecs s))) = Inr labels" "length labels = unat (num_vecs s)"
    using lay(9) by (simp add: sub_slice_def layout_size_def DIMS_def)
  ultimately show ?thesis unfolding lay by (auto simp: DIMS_def)
qed

theorem load_sections_in_file_witness:
  "\<exists>s cents. load (demo_files 1) ''i'' 3 = Inr s \<and>
    raw_slice 4 f32_from_le_bytes (mmap s) (unat (cent_off s)) (unat (num_cents s * dims_usize)) = Inr cents"
proof (rule demo_load [of 1 3])
  fix s assume s: "load (demo_files 1) ''i'' 3 = Inr s" "views s (ivf_of demo_cents demo_clusters)"
  have bytes: "demo_files 1 ''i'' = Some (index_bytes demo_cents demo_clusters 2 2 1)"
    by (simp add: demo_files_def)
  obtain s' where s': "load (demo_files 1) ''i'' 3 = Inr s'" "num_vecs s' = 2" "num_cents s' = 2"
    by (rule load_index_bytes [where fs = "demo_files 1" and path = "''i''" and r = 3, OF bytes demo_ok(1,3,4,5)]) auto
  have "layout_size (unat (num_cents s)) (unat (num_vecs s)) < 2 ^ 64"
    using s(1) s' by (simp add: layout_size_def DIMS_def)
  with load_sections_in_file [OF s(1)] s(1) show ?thesis by blast
qed

text \<open>The size check of \<open>load\<close> can be passed by a wrap-around: a 40-byte file whose header
  declares \<open>(2^64 - 1) / 15\<close> vectors is accepted, and the first search then takes a view of the
  vectors that leaves the mapping.\<close>

definition wrapping_index :: "u8 list" where
  "wrapping_index = header_bytes 0x1111111111111111 0 1 @ replicate 8 0"

theorem load_size_check_wraps:
  "\<exists>s. load [''i'' \<mapsto> wrapping_index] ''i'' r = Inr s \<and> length (mmap s) = 40 \<and>
    search sel srt s query k buf = Inl RawOutOfBounds"
proof -
  note fields = header_fields [of "0x1111111111111111" 0 1 "replicate 8 0", folded wrapping_index_def]
  have len: "length wrapping_index = 40" by (simp add: wrapping_index_def)
  let ?s = "\<lparr>mmap = wrapping_index, num_cents = 0, num_vecs = 0x1111111111111111,
      probes = if r > 0 then r else 1, cent_off = 32, offset_off = 32, vec_off = 40,
      label_off = 40 + 0x1111111111111111 * dims_usize\<rparr> :: searcher"
  have "load [''i'' \<mapsto> wrapping_index] ''i'' r = Inr ?s"
    by (simp add: load_def Let_def fields len DIMS_def)
  moreover have "search sel srt ?s query k buf = Inl RawOutOfBounds"
    by (simp add: search_def raw_slice_def len DIMS_def)
  ultimately show ?thesis using len by (intro exI [of _ ?s]) simp
qed

text \<open>C9: Loading inverts writing: the searcher that \<open>load\<close> returns for a file that
  \<open>write_index\<close> wrote holds exactly the centroids, the cluster offsets, the quantized vectors in
  cluster order and the labels that were given to the writer, and the probe count of the header
  unless the caller overrides it.\<close>

theorem write_load_roundtrip:
  assumes "write_index dev path centroids clusters nv nc dp fs = Inr fs'"
    and "rows_ok centroids clusters"
    and "unat nc = length centroids" and "unat nv = sizes_sum clusters"
    and "layout_size (length centroids) (sizes_sum clusters) < 2 ^ 64"
  shows "\<exists>s. load fs' path r = Inr s \<and> views s (ivf_of centroids clusters) \<and>
    num_vecs s = nv \<and> probes s = (if r > 0 then r else ucast dp)"
proof -
  have "fs' path = Some (index_bytes centroids clusters nv nc dp)"
    using write_index_Inr_aux [OF assms(1)] by simp
  from load_written [where fs = fs' and path = path and r = r, OF this assms(2-5)] show ?thesis by blast
qed

theorem write_load_roundtrip_witness:
  "\<exists>fs' s. write_index demo_device ''i'' demo_cents demo_clusters 2 2 1 Map.empty = Inr fs' \<and>
    load fs' ''i'' 0 = Inr s \<and> views s (ivf_of demo_cents demo_clusters) \<and> probes s = 1"
  using write_load_roundtrip [OF demo_write demo_ok(1,3,4,5), of Map.empty 0] demo_write [of Map.empty]
  by auto

text \<open>C33: When \<open>write_index\<close> returns \<open>Ok\<close>, the index file holds the header followed by the four
  sections, the companion file holds the raw vectors, it is a different file, and no other file
  has changed.\<close>

theorem write_index_files:
  assumes "write_index dev path centroids clusters nv nc dp fs = Inr fs'"
  shows "fs' path = Some (index_bytes centroids clusters nv nc dp) \<and>
    fs' (raw_f32_path path) = Some (raw_bytes clusters) \<and> raw_f32_path path \<noteq> path \<and>
    (\<forall>q. q \<noteq> path \<and> q \<noteq> raw_f32_path path \<longrightarrow> fs' q = fs q)"
  using write_index_Inr_aux [OF assms] by simp

theorem write_index_files_witness:
  "\<exists>fs'. write_index demo_device ''i'' demo_cents demo_clusters 2 2 1 [''x'' \<mapsto> [7]] = Inr fs' \<and>
    fs' ''x'' = Some [7]"
proof -
  have "''x'' \<noteq> raw_f32_path ''i''" by (simp add: raw_f32_path_def ends_with_def)
  with write_index_files [OF demo_write [of "[''x'' \<mapsto> [7]]"]] demo_write show ?thesis by fastforce
qed

text \<open>On a device that lets both files be created and takes their bytes, \<open>write_index\<close>
  returns \<open>Ok\<close>.\<close>

theorem write_index_succeeds:
  assumes "can_create dev path" and "can_create dev (raw_f32_path path)"
    and "accepts_upto dev path (length (index_bytes centroids clusters nv nc dp))"
    and "accepts_upto dev (raw_f32_path path) (length (raw_bytes clusters))"
  shows "\<exists>fs'. write_index dev path centroids clusters nv nc dp fs = Inr fs'"
  using write_index_eq [OF assms] by blast

theorem write_index_succeeds_witness:
  "\<exists>fs'. write_index demo_device ''i'' [] [] 0 0 1 Map.empty = Inr fs'"
proof (rule write_index_succeeds)
  have "length (index_bytes [] [] 0 0 1) = 40"
    using length_index_bytes [of "[]" "[]"] by (simp add: rows_ok_def layout_size_def)
  then show "accepts_upto demo_device ''i'' (length (index_bytes [] [] 0 0 1))"
    by (simp add: accepts_upto_def demo_device_def)
qed (simp_all add: demo_device_def accepts_upto_def raw_bytes_def)

text \<open>The offset table is the prefix sums of the cluster sizes: it starts at 0, cluster \<open>i\<close>
  occupies exactly its length between two neighbouring entries, and the last entry is the number
  of vectors; no sum wraps around below \<open>2^64\<close> vectors.\<close>

theorem cluster_offsets_partition:
  assumes "sizes_sum clusters < 2 ^ 64"
  shows "length (cluster_offsets clusters) = length clusters + 1 \<and> cluster_offsets clusters ! 0 = 0 \<and>
    (\<forall>i<length clusters. unat (cluster_offsets clusters ! (i + 1))
        = unat (cluster_offsets clusters ! i) + length (clusters ! i)) \<and>
    unat (cluster_offsets clusters ! length clusters) = length (concat clusters)"
proof -
  have "cluster_offsets clusters ! 0 = 0" by (simp add: cluster_offsets_eq del: upt_Suc)
  with unat_cluster_offset [OF _ assms] show ?thesis
    by (simp add: take_Suc_conv_app_nth length_concat_clusters)
qed

theorem cluster_offsets_partition_witness:
  "length (cluster_offsets demo_clusters) = 3 \<and> unat (cluster_offsets demo_clusters ! 1) = 1"
  using cluster_offsets_partition [OF demo_ok(6)] by (simp add: demo_clusters_def)

end
