(* ===== verification/Pipeline.thy ===== *)
theory Pipeline
  imports Build Search_Properties Handler
begin

text \<open>
  The programs together: a build from an array of records, the index file it leaves, the service
  that loads it. The hypotheses of the pipeline are named here, with the lemmas that chain the
  components; the properties are in the root theory.
\<close>

section \<open>Inputs a build accepts\<close>

text \<open>
  The input file reads as the records \<open>recs\<close>; its usable vectors lie in \<open>[-1, 1]\<close>; the sampling
  pass keeps at least as many vectors as there are clusters; and the cluster number fits the
  header.
\<close>

definition build_input :: "('r, 'e) libs \<Rightarrow> file_system \<Rightarrow> args \<Rightarrow> ref_line list \<Rightarrow> bool" where
  "build_input L fs a recs \<longleftrightarrow>
     (\<exists>reader. open_gz_array L fs (in_path a) = Inr reader \<and> records L reader = map Inr recs) \<and>
     (\<exists>sample rng'. read_sample L fs (in_path a) (sample_rate a) (seed_from L (seed a)) = Inr (sample, rng') \<and>
        unat (num_centroids a) \<le> length sample) \<and>
     0 < unat (num_centroids a) \<and> unat (num_centroids a) < 2 ^ 32 \<and>
     unit_records recs \<and> length recs < 2 ^ 53"

text \<open>The device takes an index of \<open>n\<close> centroids and \<open>m\<close> vectors, and its companion file.\<close>

definition device_takes :: "device \<Rightarrow> string \<Rightarrow> nat \<Rightarrow> nat \<Rightarrow> bool" where
  "device_takes dev path n m \<longleftrightarrow>
     can_create dev path \<and> can_create dev (raw_f32_path path) \<and>
     accepts_upto dev path (layout_size n m) \<and> accepts_upto dev (raw_f32_path path) (m * DIMS * 4)"

text \<open>What a record offers to a query.\<close>

definition record_candidate :: "f32 list \<Rightarrow> ref_line \<Rightarrow> candidate" where
  "record_candidate query r =
     \<lparr>c_dist = dist_int8 (quantize_vec (take DIMS (rl_vector r))) (quantized_query query),
      c_fraud = (rl_label r = ''fraud'')\<rparr>"

lemma entry_candidate_of: "entry_candidate query (entry_of r) = record_candidate query r"
  by (simp add: entry_candidate_def entry_of_def record_candidate_def)

section \<open>The index of a build\<close>

definition built_ivf :: "f32 list list \<Rightarrow> ref_line list \<Rightarrow> ivf" where
  "built_ivf centroids recs = ivf_of centroids (map (assigned centroids recs) [0..<length centroids])"

lemma length_raw_bytes:
  assumes "unit_rows centroids"
  shows "length (raw_bytes (map (assigned centroids recs) [0..<length centroids]))
    = sizes_sum (map (assigned centroids recs) [0..<length centroids]) * DIMS * 4"
proof -
  let ?cl = "map (assigned centroids recs) [0..<length centroids]"
  have "length (concat (map e_vec_f32 (concat ?cl))) = length (concat ?cl) * DIMS"
    by (rule length_concat_const) (auto simp: assigned_def entry_of_def usable_def)
  then show ?thesis
    unfolding raw_bytes_def f32_le.length_encoded length_concat_clusters by simp
qed

lemma build_cases:
  assumes "shuffle_contract (shuffle L)" and "build_input L fs a recs"
  obtains centroids where "length centroids = unat (num_centroids a)" "unit_rows centroids"
    "build L dev a fs =
      (case write_index dev (out_path a) centroids (map (assigned centroids recs) [0..<length centroids])
         (word_of_nat (length (usable recs))) (ucast (num_centroids a)) (ucast (default_probes a)) fs of
         Inl _ \<Rightarrow> Inl UnwrapPanic | Inr fs' \<Rightarrow> Inr fs')"
proof -
  from assms(2) obtain reader sample rng' where
    *: "open_gz_array L fs (in_path a) = Inr reader" "records L reader = map Inr recs"
    "read_sample L fs (in_path a) (sample_rate a) (seed_from L (seed a)) = Inr (sample, rng')"
    "0 < unat (num_centroids a)" "unat (num_centroids a) \<le> length sample" "unit_records recs" "length recs < 2 ^ 53"
    by (auto simp: build_input_def)
  show thesis by (rule build_writes [OF assms(1) *]) (rule that)
qed

text \<open>The sizes of a build never reach the bounds of the format.\<close>

lemma build_sizes:
  assumes "build_input L fs a recs" and "length centroids = unat (num_centroids a)"
    and "unit_rows centroids"
  shows "centroids \<noteq> []" "unat (ucast (num_centroids a) :: u32) = length centroids"
    "sizes_sum (map (assigned centroids recs) [0..<length centroids]) = length (usable recs)"
    "unat (word_of_nat (length (usable recs)) :: u64) = sizes_sum (map (assigned centroids recs) [0..<length centroids])"
    "layout_size (length centroids) (sizes_sum (map (assigned centroids recs) [0..<length centroids])) < 2 ^ 64"
proof -
  have n: "0 < length centroids" "length centroids < 2 ^ 32" "length (usable recs) < 2 ^ 53"
    using assms(1,2) length_usable [of recs] by (auto simp: build_input_def)
  show ne: "centroids \<noteq> []" using n(1) by auto
  note sum = assigned_rows(3) [OF assms(3) ne, of recs]
  show "sizes_sum (map (assigned centroids recs) [0..<length centroids]) = length (usable recs)" by (rule sum)
  show "unat (ucast (num_centroids a) :: u32) = length centroids"
    using n(2) assms(2) by (simp add: unsigned_ucast_eq take_bit_nat_eq_self)
  show "unat (word_of_nat (length (usable recs)) :: u64) = sizes_sum (map (assigned centroids recs) [0..<length centroids])"
    unfolding sum by (rule unat_usize_of_nat) (use n(3) in simp)
  show "layout_size (length centroids) (sizes_sum (map (assigned centroids recs) [0..<length centroids])) < 2 ^ 64"
    unfolding sum layout_size_def using n(2,3) by (simp add: DIMS_def)
qed

text \<open>On a device with room the build gets through.\<close>

lemma build_succeeds:
  assumes "shuffle_contract (shuffle L)" and "build_input L fs a recs"
    and "device_takes dev (out_path a) (unat (num_centroids a)) (length (usable recs))"
  obtains fs' where "build L dev a fs = Inr fs'"
proof -
  obtain centroids where c: "length centroids = unat (num_centroids a)" "unit_rows centroids"
    and b: "build L dev a fs =
      (case write_index dev (out_path a) centroids (map (assigned centroids recs) [0..<length centroids])
         (word_of_nat (length (usable recs))) (ucast (num_centroids a)) (ucast (default_probes a)) fs of
         Inl _ \<Rightarrow> Inl UnwrapPanic | Inr fs' \<Rightarrow> Inr fs')"
    by (rule build_cases [OF assms(1,2)])
  note sizes = build_sizes [OF assms(2) c]
  let ?cl = "map (assigned centroids recs) [0..<length centroids]"
  let ?B = "index_bytes centroids ?cl (word_of_nat (length (usable recs))) (ucast (num_centroids a)) (ucast (default_probes a))"
  have "length ?B = layout_size (unat (num_centroids a)) (length (usable recs))"
    by (subst length_index_bytes [OF assigned_rows(1) [OF c(2) sizes(1)]], subst sizes(3))
      (simp only: c(1))
  moreover have "length (raw_bytes ?cl) = length (usable recs) * DIMS * 4"
    using length_raw_bytes [OF c(2)] by (simp only: sizes(3))
  ultimately have "write_index dev (out_path a) centroids ?cl (word_of_nat (length (usable recs)))
      (ucast (num_centroids a)) (ucast (default_probes a)) fs
    = Inr (fs(out_path a \<mapsto> ?B, raw_f32_path (out_path a) \<mapsto> raw_bytes ?cl))"
    using assms(3) by (intro write_index_eq) (simp_all add: device_takes_def)
  with b show thesis by (intro that) simp
qed

text \<open>A build that gets through leaves the bytes of its centroids and clusters, which load as these.\<close>

lemma build_bytes:
  assumes "shuffle_contract (shuffle L)" and "build_input L fs a recs" and "build L dev a fs = Inr fs'"
  obtains centroids where "length centroids = unat (num_centroids a)" "unit_rows centroids"
    "fs' (out_path a) = Some (index_bytes centroids (map (assigned centroids recs) [0..<length centroids])
      (word_of_nat (length (usable recs))) (ucast (num_centroids a)) (ucast (default_probes a)))"
proof -
  obtain centroids where c: "length centroids = unat (num_centroids a)" "unit_rows centroids"
    and "build L dev a fs =
      (case write_index dev (out_path a) centroids (map (assigned centroids recs) [0..<length centroids])
         (word_of_nat (length (usable recs))) (ucast (num_centroids a)) (ucast (default_probes a)) fs of
         Inl _ \<Rightarrow> Inl UnwrapPanic | Inr fs' \<Rightarrow> Inr fs')"
    by (rule build_cases [OF assms(1,2)])
  with assms(3) have "write_index dev (out_path a) centroids (map (assigned centroids recs) [0..<length centroids])
      (word_of_nat (length (usable recs))) (ucast (num_centroids a)) (ucast (default_probes a)) fs = Inr fs'"
    by (auto split: sum.splits)
  from write_index_Inr_aux [OF this] c show thesis by (intro that [of centroids]) simp_all
qed

lemma build_loads:
  assumes "shuffle_contract (shuffle L)" and "build_input L fs a recs" and "build L dev a fs = Inr fs'"
  obtains centroids s where "length centroids = unat (num_centroids a)" "unit_rows centroids"
    "load fs' (out_path a) r = Inr s" "views s (built_ivf centroids recs)"
    "probes s = (if r > 0 then r else ucast (ucast (default_probes a) :: u32))"
proof -
  obtain centroids where c: "length centroids = unat (num_centroids a)" "unit_rows centroids"
    and bytes: "fs' (out_path a) = Some (index_bytes centroids (map (assigned centroids recs) [0..<length centroids])
      (word_of_nat (length (usable recs))) (ucast (num_centroids a)) (ucast (default_probes a)))"
    by (rule build_bytes [OF assms])
  note sizes = build_sizes [OF assms(2) c]
  from load_written [where fs = fs' and path = "out_path a" and r = r,
      OF bytes assigned_rows(1) [OF c(2) sizes(1)] sizes(2,4,5)]
  obtain s where "load fs' (out_path a) r = Inr s" "views s (built_ivf centroids recs)"
    "probes s = (if r > 0 then r else ucast (ucast (default_probes a) :: u32))"
    unfolding built_ivf_def by blast
  with c show thesis by (rule that)
qed

text \<open>A build depends on the file system only through its input, and changes only its two files.\<close>

lemma build_input_cong:
  "fs' (in_path a) = fs (in_path a) \<Longrightarrow> build_input L fs' a recs = build_input L fs a recs"
  by (simp add: build_input_def read_sample_def open_gz_array_def)

lemma loaded_Inr: "(case r of Inl _ \<Rightarrow> Inl f | Inr x \<Rightarrow> Inr x) = Inr y \<longleftrightarrow> r = Inr y"
  by (cases r) simp_all

lemma build_keeps:
  assumes "build L dev a fs = Inr fs'" and "p \<noteq> out_path a" and "p \<noteq> raw_f32_path (out_path a)"
  shows "fs' p = fs p"
proof -
  from assms(1) obtain centroids clusters nv nc dp where
    "write_index dev (out_path a) centroids clusters nv nc dp fs = Inr fs'"
    by (auto simp: build_def Let_def and_then_eq_Inr loaded_Inr split: prod.splits)
  from write_index_Inr_aux [OF this] show ?thesis using assms(2,3) by simp
qed

section \<open>Searching the index of a build\<close>

text \<open>The usable records whose nearest centroid is among the clusters \<open>near\<close>.\<close>

definition probed :: "f32 list list \<Rightarrow> ref_line list \<Rightarrow> nat list \<Rightarrow> ref_line list" where
  "probed centroids recs near =
     filter (\<lambda>r. \<exists>ci\<in>set near. first_nearest (take DIMS (rl_vector r)) centroids ci) (usable recs)"

lemma probed_eq: "probed centroids recs near = filter (\<lambda>r. cluster_of centroids r \<in> set near) (usable recs)"
  unfolding probed_def by (rule filter_cong [OF refl]) (auto simp: cluster_of_def nearest_centroid_iff [symmetric])

lemma nearest_clusters_built:
  "nearest_clusters (built_ivf centroids recs) query p near \<Longrightarrow>
   distinct near \<and> length near = p \<and> set near \<subseteq> {..<length centroids}"
  by (simp add: nearest_clusters_def built_ivf_def ivf_of_def Let_def)

lemma probed_all:
  assumes "centroids \<noteq> []" and "nearest_clusters (built_ivf centroids recs) query p near" and "length centroids \<le> p"
  shows "probed centroids recs near = usable recs"
proof -
  note near = nearest_clusters_built [OF assms(2)]
  then have "card (set near) = p" using distinct_card by blast
  then have "set near = {..<length centroids}"
    using near assms(3) by (intro card_seteq) auto
  then show ?thesis
    by (simp add: probed_eq filter_id_conv cluster_of_def nearest_centroid_less [OF assms(1)])
qed

lemma mset_scanned_built:
  assumes "unit_rows centroids" and "centroids \<noteq> []"
    and "sizes_sum (map (assigned centroids recs) [0..<length centroids]) < 2 ^ 64"
    and "nearest_clusters (built_ivf centroids recs) query p near"
  shows "mset (scanned (built_ivf centroids recs) query near)
    = mset (map (record_candidate query) (probed centroids recs near))"
proof -
  note near = nearest_clusters_built [OF assms(4)]
  let ?cl = "map (assigned centroids recs) [0..<length centroids]"
  have "scanned (built_ivf centroids recs) query near
      = concat (map (\<lambda>ci. map (entry_candidate query) (?cl ! ci)) near)"
    unfolding built_ivf_def using near by (intro scanned_ivf_of assigned_rows(1) assms(1-3)) auto
  also have "\<dots> = concat (map (\<lambda>ci. map (record_candidate query)
      (filter (\<lambda>r. cluster_of centroids r = ci) (usable recs))) near)"
    using near by (intro arg_cong [of _ _ concat] map_cong) (auto simp: assigned_def entry_candidate_of)
  finally show ?thesis
    using mset_filter_split [of near "record_candidate query" "cluster_of centroids" "usable recs"] near
    by (simp add: probed_eq)
qed

text \<open>The index is well-formed, so what the searcher promises holds over the records.\<close>

lemma built_ivf_ok:
  assumes "build_input L fs a recs" and "length centroids = unat (num_centroids a)" and "unit_rows centroids"
  shows "ivf_ok (built_ivf centroids recs)" "i_cents (built_ivf centroids recs) = centroids" "centroids \<noteq> []"
proof -
  note sizes = build_sizes [OF assms]
  show "ivf_ok (built_ivf centroids recs)"
    unfolding built_ivf_def using sizes(5)
    by (intro ivf_of_ok assigned_rows(1,2) assms(3) sizes(1)) (simp add: layout_size_def)
qed (simp_all add: built_ivf_def ivf_of_def build_sizes(1) [OF assms])

lemma build_search_probed:
  assumes "build_input L fs a recs" and "length centroids = unat (num_centroids a)" and "unit_rows centroids"
    and "nearest_clusters (built_ivf centroids recs) query p near"
  shows "mset (scanned (built_ivf centroids recs) query near)
      = mset (map (record_candidate query) (probed centroids recs near))"
    and "unat (num_centroids a) \<le> p \<Longrightarrow> probed centroids recs near = usable recs"
proof -
  note sizes = build_sizes [OF assms(1-3)]
  have "sizes_sum (map (assigned centroids recs) [0..<length centroids]) < 2 ^ 64"
    using sizes(5) by (simp add: layout_size_def)
  from mset_scanned_built [OF assms(3) sizes(1) this assms(4)]
  show "mset (scanned (built_ivf centroids recs) query near)
    = mset (map (record_candidate query) (probed centroids recs near))" .
  show "unat (num_centroids a) \<le> p \<Longrightarrow> probed centroids recs near = usable recs"
    using probed_all [OF sizes(1) assms(4)] assms(2) by simp
qed

lemma build_search:
  assumes "select_contract sel" and "sort_contract srt" and "build_input L fs a recs"
    and "length centroids = unat (num_centroids a)" and "unit_rows centroids"
    and "views s (built_ivf centroids recs)" and "0 < k" and "unat (num_centroids a) \<le> unat (probes s)"
  shows "\<exists>cands buf'.
    search sel srt s query k buf = Inr (map (\<lambda>c. \<lparr>n_fraud = c_fraud c\<rparr>) cands, buf') \<and>
    k_smallest cand_key k (mset (map (record_candidate query) (usable recs))) (mset cands)"
proof -
  note ok = built_ivf_ok [OF assms(3-5)]
  have "0 < unat (probes s) \<or> i_cents (built_ivf centroids recs) = []"
    using ok(3) assms(4,8) by (cases centroids) auto
  from search_spec [OF assms(1,2,6) ok(1) assms(7) this, of query buf] assms(4,8)
  obtain near cands buf' where
    s: "search sel srt s query k buf = Inr (map (\<lambda>c. \<lparr>n_fraud = c_fraud c\<rparr>) cands, buf')"
    and near: "nearest_clusters (built_ivf centroids recs) query (unat (num_centroids a)) near"
    and k: "k_smallest cand_key k (mset (scanned (built_ivf centroids recs) query near)) (mset cands)"
    by (auto simp: ok(2) min_absorb2)
  from build_search_probed [OF assms(3-5) near] k
  have "k_smallest cand_key k (mset (map (record_candidate query) (usable recs))) (mset cands)" by simp
  with s show ?thesis by blast
qed

end
