(* ===== verification/Classify_Main.thy ===== *)
theory Classify_Main
  imports Classify Pipeline
begin

text \<open>
  \<open>main\<close> of classify_mismatches.rs: the mismatches read from a file of JSON lines, the loop that
  writes one line per classified mismatch, and the summary with its histograms. Serialization and
  the JSON parsers are functions of a record; reading text as UTF-8 lines and trimming blanks is
  modelled. The facts: lines that were written are read back; the histograms of the summary are
  complete; and the output file holds one line per record, in order.
\<close>

section \<open>Text\<close>

definition newline :: u8 where "newline = 0x0A"

text \<open>\<open>BufRead::lines\<close>: split at line feeds, a carriage return before one dropped, no empty last line.\<close>

definition drop_cr :: "u8 list \<Rightarrow> u8 list" where
  "drop_cr l = (if l \<noteq> [] \<and> last l = 0x0D then butlast l else l)"

fun split_lines :: "u8 list \<Rightarrow> u8 list \<Rightarrow> u8 list list" where
  "split_lines acc [] = (if acc = [] then [] else [acc])"
| "split_lines acc (b # bs) =
     (if b = newline then drop_cr acc # split_lines [] bs else split_lines (acc @ [b]) bs)"

text \<open>\<open>str::from_utf8\<close>: no overlong forms, no surrogates, nothing beyond U+10FFFF.\<close>

definition utf8_cont :: "u8 \<Rightarrow> bool" where
  "utf8_cont b \<longleftrightarrow> 0x80 \<le> b \<and> b \<le> 0xBF"

definition utf8_second :: "u8 \<Rightarrow> u8 \<Rightarrow> bool" where
  "utf8_second a b \<longleftrightarrow> utf8_cont b \<and> (a = 0xE0 \<longrightarrow> 0xA0 \<le> b) \<and> (a = 0xED \<longrightarrow> b \<le> 0x9F) \<and>
     (a = 0xF0 \<longrightarrow> 0x90 \<le> b) \<and> (a = 0xF4 \<longrightarrow> b \<le> 0x8F)"

fun utf8_ok :: "u8 list \<Rightarrow> bool" where
  "utf8_ok [] = True"
| "utf8_ok (a # bs) =
     (if a < 0x80 then utf8_ok bs
      else if 0xC2 \<le> a \<and> a \<le> 0xDF then (case bs of b # bs \<Rightarrow> utf8_cont b \<and> utf8_ok bs | _ \<Rightarrow> False)
      else if 0xE0 \<le> a \<and> a \<le> 0xEF then
        (case bs of b # c # bs \<Rightarrow> utf8_second a b \<and> utf8_cont c \<and> utf8_ok bs | _ \<Rightarrow> False)
      else if 0xF0 \<le> a \<and> a \<le> 0xF4 then
        (case bs of b # c # d # bs \<Rightarrow> utf8_second a b \<and> utf8_cont c \<and> utf8_cont d \<and> utf8_ok bs | _ \<Rightarrow> False)
      else False)"

text \<open>\<open>str::trim\<close>: the 25 characters with the property \<open>White_Space\<close>, as they are encoded.\<close>

definition WHITE_SPACE :: "u8 list list" where
  "WHITE_SPACE = [[0x09], [0x0A], [0x0B], [0x0C], [0x0D], [0x20], [0xC2, 0x85], [0xC2, 0xA0], [0xE1, 0x9A, 0x80],
     [0xE2, 0x80, 0x80], [0xE2, 0x80, 0x81], [0xE2, 0x80, 0x82], [0xE2, 0x80, 0x83], [0xE2, 0x80, 0x84],
     [0xE2, 0x80, 0x85], [0xE2, 0x80, 0x86], [0xE2, 0x80, 0x87], [0xE2, 0x80, 0x88], [0xE2, 0x80, 0x89],
     [0xE2, 0x80, 0x8A], [0xE2, 0x80, 0xA8], [0xE2, 0x80, 0xA9], [0xE2, 0x80, 0xAF], [0xE2, 0x81, 0x9F],
     [0xE3, 0x80, 0x80]]"

function strip :: "u8 list list \<Rightarrow> u8 list \<Rightarrow> u8 list" where
  "strip ws s =
     (case List.find (\<lambda>w. w \<noteq> [] \<and> s \<noteq> [] \<and> take (length w) s = w) ws of
        Some w \<Rightarrow> strip ws (drop (length w) s) | None \<Rightarrow> s)"
  by pat_completeness auto
termination
  by (relation "measure (\<lambda>(ws, s). length s)") (auto simp: find_Some_iff)

declare strip.simps [simp del]

definition trim :: "u8 list \<Rightarrow> u8 list" where
  "trim s = rev (strip (map rev WHITE_SPACE) (rev (strip WHITE_SPACE s)))"

section \<open>The code\<close>

record 'j diag_libs =
  dl_select :: "cent_dist select_fn"
  dl_sort :: "cent_dist sort_fn"
  dl_sort_nn :: "true_nn sort_fn"
  dl_parse_time :: rfc3339
  dl_norm_from_str :: "u8 list \<Rightarrow> normalization option"
  dl_mcc_from_str :: "u8 list \<Rightarrow> mcc_risk option"
  dl_mismatch_from_str :: "u8 list \<Rightarrow> 'j mismatch option"
  dl_from_value :: "'j \<Rightarrow> request option"
  dl_to_string :: "classified \<Rightarrow> u8 list"

text \<open>A line that is not UTF-8 stops the program; a blank one and one that does not parse are skipped.\<close>

definition read_mismatches :: "(u8 list \<Rightarrow> 'j mismatch option) \<Rightarrow> u8 list \<Rightarrow> 'j mismatch list outcome" where
  "read_mismatches from_str file =
     try_fold (\<lambda>ms line.
       if \<not> utf8_ok line then Inl UnwrapPanic
       else (let line = trim line
             in if line = [] then Inr ms
                else case from_str line of Some m \<Rightarrow> Inr (ms @ [m]) | None \<Rightarrow> Inr ms))
       [] (split_lines [] file)"

text \<open>An I/O error of the output ends the program with a panic.\<close>

definition io_panic :: "io_error + 'a \<Rightarrow> 'a outcome" where
  "io_panic r = (case r of Inl _ \<Rightarrow> Inl UnwrapPanic | Inr x \<Rightarrow> Inr x)"

definition classify_loop ::
  "'j diag_env \<Rightarrow> (classified \<Rightarrow> u8 list) \<Rightarrow> device \<Rightarrow> string \<Rightarrow> file_system \<Rightarrow> 'j mismatch list \<Rightarrow>
   (tally \<times> file_system) outcome" where
  "classify_loop E to_string dev path fs ms =
     try_fold (\<lambda>(t, fs) m.
       and_then (classify_one E m) (\<lambda>r.
       and_then (io_panic (write_all dev path fs (to_string r @ [newline]))) (\<lambda>fs.
         Inr (tally_record r t, fs)))) (tally_new, fs) ms"

text \<open>The printed summary as data: each class with its percentage, the histograms by ascending key.\<close>

record summary =
  sm_total :: nat
  sm_classes :: "(classification \<times> nat \<times> f64) list"
  sm_ranks :: "(nat \<times> nat) list"
  sm_gaps :: "(i32 \<times> nat) list"
  sm_advice :: advice

definition percentage :: "nat \<Rightarrow> nat \<Rightarrow> f64" where
  "percentage n n_total = f64_of_int 100 * f64_of_int (int n) / f64_of_int (int n_total)"

definition rank_rows :: "(nat \<rightharpoonup> nat) \<Rightarrow> (nat \<times> nat) list" where
  "rank_rows h = map (\<lambda>rank. (rank, the (h rank))) (sorted_list_of_set (dom h))"

definition gap_rows :: "(i32 \<rightharpoonup> nat) \<Rightarrow> (i32 \<times> nat) list" where
  "gap_rows h = map (\<lambda>g. (word_of_int g, the (h (word_of_int g)))) (sorted_list_of_set (sint ` dom h))"

definition summarize :: "nat \<Rightarrow> tally \<Rightarrow> summary" where
  "summarize n_total t =
     \<lparr>sm_total = n_total,
      sm_classes = [(TieFlip, count_tie_flip t, percentage (count_tie_flip t) n_total),
        (ProbeMiss, count_probe_miss t, percentage (count_probe_miss t) n_total),
        (Vectorize, count_vectorize t, percentage (count_vectorize t) n_total),
        (Other, count_other t, percentage (count_other t) n_total)],
      sm_ranks = rank_rows (probe_miss_rank_hist t), sm_gaps = gap_rows (tie_flip_gap_hist t),
      sm_advice = recommendation t\<rparr>"

definition classify_mismatches ::
  "'j diag_libs \<Rightarrow> ('r, 'e) libs \<Rightarrow> device \<Rightarrow> string list \<Rightarrow> file_system \<Rightarrow> (summary \<times> file_system) outcome" where
  "classify_mismatches D L dev raw fs =
     and_then (diag_parse_args raw) (\<lambda>a.
     and_then (expect (fs (norm_path a))) (\<lambda>norm_str.
     and_then (expect (dl_norm_from_str D norm_str)) (\<lambda>nrm.
     and_then (expect (fs (mcc_path a))) (\<lambda>mcc_str.
     and_then (expect (dl_mcc_from_str D mcc_str)) (\<lambda>mcc.
     and_then (diag_load fs (index_path a)) (\<lambda>loaded.
     and_then (case loaded of Inl _ \<Rightarrow> Inl UnwrapPanic | Inr x \<Rightarrow> Inr x) (\<lambda>index.
     and_then (or_panic (load_references L fs (refs_path a))) (\<lambda>refs.
     and_then (expect (fs (mismatches_path a))) (\<lambda>mismatches_file.
     and_then (read_mismatches (dl_mismatch_from_str D) mismatches_file) (\<lambda>ms.
     and_then (io_panic (file_create dev (output_path a) fs)) (\<lambda>fs.
     and_then (classify_loop
       \<lparr>d_select = dl_select D, d_sort = dl_sort D, d_sort_nn = dl_sort_nn D, d_parse_time = dl_parse_time D,
        d_from_value = dl_from_value D, d_norm = nrm, d_mcc = mcc, d_index = index, d_refs = refs\<rparr>
       (dl_to_string D) dev (output_path a) fs ms) (\<lambda>(t, fs).
     Inr (summarize (length ms) t, fs)))))))))))))"

section \<open>Lines\<close>

lemma split_lines_line:
  "newline \<notin> set d \<Longrightarrow> split_lines acc (d @ newline # bs) = drop_cr (acc @ d) # split_lines [] bs"
  by (induction d arbitrary: acc) auto

definition unlines :: "u8 list list \<Rightarrow> u8 list" where
  "unlines ds = concat (map (\<lambda>d. d @ [newline]) ds)"

definition text_line :: "u8 list \<Rightarrow> bool" where
  "text_line d \<longleftrightarrow> newline \<notin> set d \<and> drop_cr d = d"

lemma split_unlines: "\<forall>d\<in>set ds. text_line d \<Longrightarrow> split_lines [] (unlines ds) = ds"
  by (induction ds) (auto simp: unlines_def text_line_def split_lines_line)

lemma strip_none:
  assumes "s \<noteq> []" and "hd s \<notin> hd ` (set ws - {[]})" shows "strip ws s = s"
proof -
  have "take (length w) s \<noteq> w" if "w \<in> set ws" "w \<noteq> []" for w
  proof
    assume "take (length w) s = w"
    moreover have "hd (take (length w) s) = hd s" using that(2) by simp
    ultimately have "hd s = hd w" by simp
    moreover have "hd w \<in> hd ` (set ws - {[]})" using that by (intro imageI) simp
    ultimately show False using assms(2) by simp
  qed
  then have "List.find (\<lambda>w. w \<noteq> [] \<and> s \<noteq> [] \<and> take (length w) s = w) ws = None" by (auto simp: find_None_iff)
  then show ?thesis by (subst strip.simps) simp
qed

text \<open>What the serializer writes: an object on a line of its own.\<close>

definition json_line :: "u8 list \<Rightarrow> bool" where
  "json_line d \<longleftrightarrow> d \<noteq> [] \<and> hd d = open_brace \<and> last d = close_brace \<and> newline \<notin> set d \<and> utf8_ok d"

lemma json_line_text: "json_line d \<Longrightarrow> text_line d"
  by (simp add: json_line_def text_line_def drop_cr_def byte_consts)

lemma json_line_trim: "json_line d \<Longrightarrow> trim d = d"
proof -
  assume d: "json_line d"
  then have "strip WHITE_SPACE d = d"
    by (intro strip_none) (simp_all add: json_line_def WHITE_SPACE_def byte_consts)
  moreover have "strip (map rev WHITE_SPACE) (rev d) = rev d"
    using d by (intro strip_none) (simp_all add: json_line_def WHITE_SPACE_def byte_consts hd_rev)
  ultimately show ?thesis by (simp add: trim_def)
qed

text \<open>What the reader makes of a text: the parsed lines, or the panic of a line that is not UTF-8.\<close>

lemma read_mismatches_fold:
  "read_mismatches from_str file =
    (if list_all utf8_ok (split_lines [] file)
     then Inr (List.map_filter from_str (filter (\<lambda>l. l \<noteq> []) (map trim (split_lines [] file))))
     else Inl UnwrapPanic)"
proof -
  let ?step = "\<lambda>ms line. if \<not> utf8_ok line then Inl UnwrapPanic
    else (let line = trim line in if line = [] then Inr ms
      else case from_str line of Some m \<Rightarrow> Inr (ms @ [m]) | None \<Rightarrow> Inr ms)"
  have "try_fold ?step ms ls = (if list_all utf8_ok ls
      then Inr (ms @ List.map_filter from_str (filter (\<lambda>l. l \<noteq> []) (map trim ls))) else Inl UnwrapPanic)" for ms ls
    by (induction ls arbitrary: ms) (simp_all add: Let_def map_filter_simps split: option.split)
  from this [of "[]"] show ?thesis by (simp add: read_mismatches_def)
qed

section \<open>The histograms\<close>

lemma dom_hist_of: "dom (hist_of f c out) = {k. \<exists>r\<in>set out. cr_classification r = c \<and> f r = Some k}"
  by (auto simp: hist_of_def dom_def filter_empty_conv Let_def)

lemma finite_dom_hist_of: "finite (dom (hist_of f c out))"
proof (rule finite_subset)
  show "dom (hist_of f c out) \<subseteq> the ` f ` set out" unfolding dom_hist_of by force
qed simp

lemma hist_of_Some:
  "hist_of f c out k = Some n \<longleftrightarrow> 0 < n \<and> n = length (filter (\<lambda>r. cr_classification r = c \<and> f r = Some k) out)"
  by (auto simp: hist_of_def Let_def)

text \<open>The counts of a histogram add up to the records that have a key.\<close>

lemma hist_of_total:
  "(\<Sum>k\<in>dom (hist_of f c out). the (hist_of f c out k))
    = length (filter (\<lambda>r. cr_classification r = c \<and> f r \<noteq> None) out)"
proof -
  let ?n = "\<lambda>k out. length (filter (\<lambda>r. cr_classification r = c \<and> f r = Some k) out)"
  have "(\<Sum>k\<in>K. ?n k out) = length (filter (\<lambda>r. cr_classification r = c \<and> f r \<in> Some ` K) out)"
    if "finite K" for K
    using that
  proof (induction K)
    case (insert k K)
    have "length (filter (\<lambda>r. cr_classification r = c \<and> f r \<in> Some ` insert k K) out)
        = ?n k out + length (filter (\<lambda>r. cr_classification r = c \<and> f r \<in> Some ` K) out)"
      using insert.hyps(2) by (induction out) auto
    with insert show ?case by simp
  qed simp
  from this [OF finite_dom_hist_of] have
    "(\<Sum>k\<in>dom (hist_of f c out). ?n k out) = length (filter (\<lambda>r. cr_classification r = c \<and> f r \<in> Some ` dom (hist_of f c out)) out)" .
  moreover have "the (hist_of f c out k) = ?n k out" if "k \<in> dom (hist_of f c out)" for k
    using that by (auto simp: hist_of_def Let_def split: if_splits)
  moreover have "filter (\<lambda>r. cr_classification r = c \<and> f r \<in> Some ` dom (hist_of f c out)) out
      = filter (\<lambda>r. cr_classification r = c \<and> f r \<noteq> None) out"
    by (rule filter_cong) (auto simp: dom_hist_of)
  ultimately show ?thesis by simp
qed

lemma classify_keys:
  assumes "classify x query diag nn ranks expected = Inr (c, missed, gap)"
  shows "c = ProbeMiss \<Longrightarrow> missed \<noteq> None" and "c = TieFlip \<Longrightarrow> gap \<noteq> None"
  using assms by (auto simp: classify_def Let_def and_then_eq_Inr split: if_splits)

lemma classify_one_keys:
  assumes "classify_one E m = Inr r"
  shows "cr_classification r = ProbeMiss \<Longrightarrow> cr_probe_miss_rank r \<noteq> None"
    and "cr_classification r = TieFlip \<Longrightarrow> cr_tie_flip_gap r \<noteq> None"
proof -
  from assms obtain x query diag nn ranks expected where
    "classify x query diag nn ranks expected = Inr (cr_classification r, cr_probe_miss_rank r, cr_tie_flip_gap r)"
    by (fastforce simp: classify_one_def and_then_eq_Inr)
  from classify_keys [OF this] show "cr_classification r = ProbeMiss \<Longrightarrow> cr_probe_miss_rank r \<noteq> None"
    "cr_classification r = TieFlip \<Longrightarrow> cr_tie_flip_gap r \<noteq> None" by blast+
qed

lemma sum_rank_rows: "finite (dom h) \<Longrightarrow> sum_list (map snd (rank_rows h)) = (\<Sum>k\<in>dom h. the (h k))"
  by (simp add: rank_rows_def comp_def sum_list_distinct_conv_sum_set)

lemma sum_gap_rows:
  assumes "finite (dom h)" shows "sum_list (map snd (gap_rows h)) = (\<Sum>k\<in>dom h. the (h k))"
proof -
  have "inj_on sint (dom h)" by (rule inj_on_inverseI [of _ word_of_int]) simp
  then show ?thesis
    using assms by (simp add: gap_rows_def comp_def sum_list_distinct_conv_sum_set sum.reindex)
qed

section \<open>The output file\<close>

definition classified_lines :: "(classified \<Rightarrow> u8 list) \<Rightarrow> classified list \<Rightarrow> u8 list" where
  "classified_lines to_string out = unlines (map to_string out)"

text \<open>The loop of the program is the loop without output, its records written line by line.\<close>

lemma classify_loop_eq:
  assumes "accepts_upto dev path (length old + length (classified_lines to_string rs))"
    and "try_map (classify_one E) ms = Inr rs"
  shows "try_fold (\<lambda>(t, fs) m. and_then (classify_one E m) (\<lambda>r.
      and_then (io_panic (write_all dev path fs (to_string r @ [newline]))) (\<lambda>fs. Inr (tally_record r t, fs))))
      (tally_of done, fs(path \<mapsto> old)) ms
    = Inr (tally_of (done @ rs), fs(path \<mapsto> old @ classified_lines to_string rs))"
  using assms
proof (induction ms arbitrary: old rs "done")
  case (Cons m ms)
  from Cons.prems(2) obtain r rs' where r: "classify_one E m = Inr r" "try_map (classify_one E) ms = Inr rs'" "rs = r # rs'"
    by (auto simp: and_then_eq_Inr)
  let ?l = "to_string r @ [newline]"
  have "accepts dev path (length old + length ?l)"
    using Cons.prems(1) by (simp add: accepts_upto_def r(3) classified_lines_def unlines_def)
  then have w: "write_all dev path (fs(path \<mapsto> old)) ?l = Inr (fs(path \<mapsto> old @ ?l))"
    by (simp add: write_all_def)
  have "accepts_upto dev path (length (old @ ?l) + length (classified_lines to_string rs'))"
    using Cons.prems(1) by (simp add: r(3) classified_lines_def unlines_def add.assoc)
  from Cons.IH [OF this r(2), of "done @ [r]"] w r(1,3) show ?case
    by (simp add: io_panic_def tally_of_snoc classified_lines_def unlines_def del: fun_upd_apply)
qed (simp add: classified_lines_def unlines_def)

section \<open>The classifier over a built index\<close>

text \<open>
  The inputs of a run: the arguments, the two constant files with sane contents, the mismatches,
  and an output file the device takes.
\<close>

definition libs_ok :: "'j diag_libs \<Rightarrow> bool" where
  "libs_ok D \<longleftrightarrow> select_contract (dl_select D) \<and> sort_contract (dl_sort D) \<and> sort_contract (dl_sort_nn D) \<and>
     rfc3339_contract (dl_parse_time D)"

definition constants_ok :: "'j diag_libs \<Rightarrow> file_system \<Rightarrow> diag_args \<Rightarrow> bool" where
  "constants_ok D fs a \<longleftrightarrow>
     (\<exists>b nrm. fs (norm_path a) = Some b \<and> dl_norm_from_str D b = Some nrm \<and> norm_ok nrm) \<and>
     (\<exists>b mcc. fs (mcc_path a) = Some b \<and> dl_mcc_from_str D b = Some mcc \<and> risk_ok mcc)"

definition mismatches_ok :: "'j diag_libs \<Rightarrow> file_system \<Rightarrow> diag_args \<Rightarrow> 'j mismatch list \<Rightarrow> bool" where
  "mismatches_ok D fs a ms \<longleftrightarrow>
     (\<exists>b. fs (mismatches_path a) = Some b \<and> read_mismatches (dl_mismatch_from_str D) b = Inr ms) \<and>
     (\<forall>m\<in>set ms. \<exists>req. dl_from_value D (m_transaction m) = Some req \<and> request_finite req)"

definition output_ok :: "device \<Rightarrow> diag_args \<Rightarrow> bool" where
  "output_ok dev a \<longleftrightarrow> can_create dev (output_path a) \<and> (\<forall>n. accepts dev (output_path a) n)"

lemma built_refs:
  fixes recs :: "ref_line list"
  defines "refs \<equiv> map (\<lambda>r. (take DIMS (rl_vector r), rl_label r = ''fraud'')) (usable recs)"
  assumes "open_gz_array L fs path = Inr reader" and "records L reader = map Inr recs" and "unit_records recs"
  shows "load_references L fs path = Inr refs" and "finite_refs refs"
proof -
  show "load_references L fs path = Inr refs"
    using assms add_references [of "[]" recs] by (simp add: load_references_def)
  show "finite_refs refs"
    using assms unit32_finite by (auto simp: finite_refs_def unit_records_def unit_rows_def usable_def)
qed

lemma built_diag_index:
  assumes "shuffle_contract (shuffle L)" and "build_input L fs b recs" and "build L dev b fs = Inr fs'"
  obtains centroids x where
    "diag_load fs' (out_path b) = Inr (Inr x)" "diag_views x (built_ivf centroids recs)"
    "ivf_ok (built_ivf centroids recs)" "sizes_sum (map (assigned centroids recs) [0..<length centroids]) = length (usable recs)"
    "length (usable recs) < 2 ^ 64"
proof -
  obtain centroids where c: "length centroids = unat (num_centroids b)" "unit_rows centroids"
    and bytes: "fs' (out_path b) = Some (index_bytes centroids (map (assigned centroids recs) [0..<length centroids])
      (word_of_nat (length (usable recs))) (ucast (num_centroids b)) (ucast (default_probes b)))"
    by (rule build_bytes [OF assms])
  note sizes = build_sizes [OF assms(2) c]
  note rows = assigned_rows(1,2) [OF c(2) sizes(1)]
  obtain x where x: "diag_load fs' (out_path b) = Inr (Inr x)" "diag_views x (built_ivf centroids recs)"
    unfolding built_ivf_def
    by (rule diag_load_written [where fs = fs' and path = "out_path b", OF bytes rows sizes(2,4,5)])
  have small: "sizes_sum (map (assigned centroids recs) [0..<length centroids]) < 2 ^ 64"
    using sizes(5) by (simp add: layout_size_def)
  then have "ivf_ok (built_ivf centroids recs)" unfolding built_ivf_def by (intro ivf_of_ok rows)
  with x small show thesis by (intro that [of x centroids]) (simp_all add: sizes(3))
qed

lemma try_fold_classify:
  assumes "try_map (classify_one E) ms = Inr rs" and "\<forall>n. accepts dev path n"
  shows "classify_loop E to_string dev path (fs(path \<mapsto> [])) ms
    = Inr (tally_of rs, fs(path \<mapsto> classified_lines to_string rs))"
  using classify_loop_eq [of dev path "[]" to_string rs E ms "[]" fs] assms
  by (simp add: classify_loop_def tally_of_Nil accepts_upto_def del: fun_upd_apply)

text \<open>Over the index of a build and the references it was built from the whole program gets through.\<close>

lemma classify_mismatches_built:
  assumes L: "shuffle_contract (shuffle L)" "build_input L fs b recs" "build L dev b fs = Inr fs'"
    and a: "diag_parse_args raw = Inr a" "index_path a = out_path b" "fs' (refs_path a) = fs (in_path b)"
    and D: "libs_ok D" "constants_ok D fs' a" "mismatches_ok D fs' a ms" "output_ok dev' a"
  obtains E out centroids clusters where "diag_env_ok E centroids clusters" "\<forall>m\<in>set ms. readable E m" "d_refs E = map (\<lambda>r. (take DIMS (rl_vector r), rl_label r = ''fraud'')) (usable recs)"
    "diag_load fs' (out_path b) = Inr (Inr (d_index E))" "classify_all E ms = Inr (tally_of out, out)"
    "classify_mismatches D L dev' raw fs'
      = Inr (summarize (length ms) (tally_of out), fs'(output_path a \<mapsto> classified_lines (dl_to_string D) out))"
proof -
  obtain reader where reader: "open_gz_array L fs (in_path b) = Inr reader" "records L reader = map Inr recs" "unit_records recs"
    using L(2) by (auto simp: build_input_def)
  let ?refs = "map (\<lambda>r. (take DIMS (rl_vector r), rl_label r = ''fraud'')) (usable recs)"
  note refs = built_refs [OF reader]
  have "open_gz_array L fs' (refs_path a) = open_gz_array L fs (in_path b)"
    by (simp add: open_gz_array_def a(3))
  then have load_refs: "load_references L fs' (refs_path a) = Inr ?refs"
    using refs(1) by (simp add: load_references_def)
  obtain x centroids where x: "diag_load fs' (out_path b) = Inr (Inr x)" "diag_views x (built_ivf centroids recs)"
    "ivf_ok (built_ivf centroids recs)" "sizes_sum (map (assigned centroids recs) [0..<length centroids]) = length (usable recs)"
    "length (usable recs) < 2 ^ 64"
    by (rule built_diag_index [OF L])
  obtain nb nrm where nrm: "fs' (norm_path a) = Some nb" "dl_norm_from_str D nb = Some nrm" "norm_ok nrm"
    using D(2) by (auto simp: constants_ok_def)
  obtain mb mcc where mcc: "fs' (mcc_path a) = Some mb" "dl_mcc_from_str D mb = Some mcc" "risk_ok mcc"
    using D(2) by (auto simp: constants_ok_def)
  obtain fb where content: "fs' (mismatches_path a) = Some fb" "read_mismatches (dl_mismatch_from_str D) fb = Inr ms"
    using D(3) by (auto simp: mismatches_ok_def)
  let ?E = "\<lparr>d_select = dl_select D, d_sort = dl_sort D, d_sort_nn = dl_sort_nn D, d_parse_time = dl_parse_time D,
        d_from_value = dl_from_value D, d_norm = nrm, d_mcc = mcc, d_index = x, d_refs = ?refs\<rparr>"
  have E: "diag_env_ok ?E centroids (map (assigned centroids recs) [0..<length centroids])"
    using D(1) nrm(3) mcc(3) x(2-5) refs(2) by (simp add: diag_env_ok_def libs_ok_def built_ivf_def)
  have m: "\<forall>m\<in>set ms. readable ?E m" using D(3) by (auto simp: mismatches_ok_def readable_def)
  obtain out where out: "try_map (classify_one ?E) ms = Inr out"
    using try_map_exists [of ms "classify_one ?E"] classify_one_total [OF E] m by blast
  have create: "file_create dev' (output_path a) fs' = Inr (fs'(output_path a \<mapsto> []))"
    using D(4) by (simp add: output_ok_def file_create_def)
  have loop: "classify_loop ?E (dl_to_string D) dev' (output_path a) (fs'(output_path a \<mapsto> [])) ms
      = Inr (tally_of out, fs'(output_path a \<mapsto> classified_lines (dl_to_string D) out))"
    using D(4) by (intro try_fold_classify [OF out]) (simp add: output_ok_def)
  have "classify_mismatches D L dev' raw fs'
      = Inr (summarize (length ms) (tally_of out), fs'(output_path a \<mapsto> classified_lines (dl_to_string D) out))"
    unfolding classify_mismatches_def a(1,2) nrm(1,2) mcc(1,2) x(1) load_refs content create expect_def
      option.case and_then_simps sum.case or_panic_def io_panic_def loop prod.case ..
  moreover have "classify_all ?E ms = Inr (tally_of out, out)" by (simp add: classify_all_eq out)
  ultimately show thesis using x(1) by (intro that [OF E m]) simp_all
qed

section \<open>Properties\<close>

text \<open>C27: Mismatches written one per line, each as an object that parses back to it, are read back,
  all of them and in order; blank lines between them do not matter.\<close>

theorem mismatches_read_back:
  assumes "\<forall>m\<in>set ms. json_line (enc m) \<and> from_str (enc m) = Some m"
    and "\<forall>(m, gap)\<in>set (zip ms gaps). \<forall>l\<in>set gap. text_line l \<and> utf8_ok l \<and> trim l = []"
    and "length gaps = length ms"
  shows "read_mismatches from_str (unlines (concat (map (\<lambda>(m, gap). enc m # gap) (zip ms gaps)))) = Inr ms"
proof -
  let ?ls = "concat (map (\<lambda>(m, gap). enc m # gap) (zip ms gaps))"
  have lines: "text_line l \<and> utf8_ok l" if "l \<in> set ?ls" for l
    using that assms(1,2) by (fastforce simp: json_line_text json_line_def dest: set_zip_leftD)
  then have "split_lines [] (unlines ?ls) = ?ls" by (intro split_unlines) blast
  moreover have "List.map_filter from_str (filter (\<lambda>l. l \<noteq> []) (map trim ?ls)) = ms"
    using assms(3,1,2)
  proof (induction gaps ms rule: list_induct2)
    case (Cons gap gaps m ms)
    have "filter (\<lambda>l. l \<noteq> []) (map trim gap) = []" using Cons.prems(2) by (auto simp: filter_empty_conv)
    moreover have "enc m \<noteq> []" "trim (enc m) = enc m" "from_str (enc m) = Some m"
      using Cons.prems(1) by (auto simp: json_line_def json_line_trim)
    ultimately show ?case using Cons by (simp add: map_filter_simps)
  qed (simp add: map_filter_simps)
  ultimately show ?thesis using lines by (simp add: read_mismatches_fold list_all_iff)
qed

text \<open>C16: The printed histograms are complete: their keys ascend, every row counts the records of its
  class with that key and none is empty, the rows add up to the printed count of the class, and the
  recommendation compares the two counts.\<close>

theorem summary_histograms:
  assumes "classify_all E ms = Inr (t, out)"
  shows "sorted_wrt (<) (map fst (sm_ranks (summarize (length ms) t))) \<and>
    sorted_wrt (<) (map (sint \<circ> fst) (sm_gaps (summarize (length ms) t))) \<and>
    set (sm_ranks (summarize (length ms) t)) = {(k, n). 0 < n \<and>
      n = length (filter (\<lambda>r. cr_classification r = ProbeMiss \<and> cr_probe_miss_rank r = Some k) out)} \<and>
    set (sm_gaps (summarize (length ms) t)) = {(g, n). 0 < n \<and>
      n = length (filter (\<lambda>r. cr_classification r = TieFlip \<and> cr_tie_flip_gap r = Some g) out)} \<and>
    sum_list (map snd (sm_ranks (summarize (length ms) t))) = class_count ProbeMiss out \<and>
    sum_list (map snd (sm_gaps (summarize (length ms) t))) = class_count TieFlip out \<and>
    (sm_advice (summarize (length ms) t) = RaiseProbes \<longleftrightarrow> class_count TieFlip out < class_count ProbeMiss out)"
proof -
  from assms have rs: "try_map (classify_one E) ms = Inr out" and t: "t = tally_of out"
    unfolding classify_all_eq and_then_eq_Inr by auto
  have "\<exists>m. classify_one E m = Inr r" if "r \<in> set out" for r
    using try_map_nth [OF rs] that by (metis in_set_conv_nth)
  then have keys: "cr_classification r = ProbeMiss \<Longrightarrow> cr_probe_miss_rank r \<noteq> None"
    "cr_classification r = TieFlip \<Longrightarrow> cr_tie_flip_gap r \<noteq> None" if "r \<in> set out" for r
    using that classify_one_keys by blast+
  let ?R = "hist_of cr_probe_miss_rank ProbeMiss out" and ?G = "hist_of cr_tie_flip_gap TieFlip out"
  note fin = finite_dom_hist_of [of cr_probe_miss_rank ProbeMiss out] finite_dom_hist_of [of cr_tie_flip_gap TieFlip out]
  have ranks: "set (rank_rows ?R) = {(k, n). ?R k = Some n}" using fin(1) by (auto simp: rank_rows_def)
  have gaps: "set (gap_rows ?G) = {(g, n). ?G g = Some n}" using fin(2) by (force simp: gap_rows_def)
  have total: "sum_list (map snd (rank_rows ?R)) = class_count ProbeMiss out"
    "sum_list (map snd (gap_rows ?G)) = class_count TieFlip out"
    unfolding sum_rank_rows [OF fin(1)] sum_gap_rows [OF fin(2)] hist_of_total class_count_def
    using keys by (auto intro!: arg_cong [of _ _ length] filter_cong)
  have "map fst (rank_rows ?R) = sorted_list_of_set (dom ?R)"
    "map (sint \<circ> fst) (gap_rows ?G) = sorted_list_of_set (sint ` dom ?G)"
    using fin(2) by (auto simp: rank_rows_def gap_rows_def comp_def intro!: map_idI)
  then have "sorted_wrt (<) (map fst (rank_rows ?R))" "sorted_wrt (<) (map (sint \<circ> fst) (gap_rows ?G))"
    by (simp_all only: strict_sorted_list_of_set)
  then show ?thesis using ranks gaps total
    by (simp add: summarize_def t tally_of_def recommendation_def hist_of_Some)
qed

text \<open>Two mismatches on lines of their own, with a blank line between.\<close>

definition demo_line :: "u8 \<Rightarrow> u8 list" where
  "demo_line b = [open_brace, b, close_brace]"

definition demo_parse_line :: "u8 list \<Rightarrow> unit mismatch option" where
  "demo_parse_line l =
     (if l = demo_line 0x30 then Some demo_mismatch
      else if l = demo_line 0x31 then Some (demo_mismatch\<lparr>m_idx := 1\<rparr>) else None)"

lemma demo_line_json: "json_line (demo_line 0x30)" "json_line (demo_line 0x31)"
  by (simp_all add: json_line_def demo_line_def byte_consts newline_def)

lemma demo_line_inj: "demo_line a = demo_line b \<longleftrightarrow> a = b"
  by (simp add: demo_line_def)

lemma trim_blank: "trim [0x20, 0x09] = []"
  by (simp add: trim_def WHITE_SPACE_def strip.simps)

theorem mismatches_read_back_witness:
  "read_mismatches demo_parse_line (unlines [demo_line 0x30, [0x20, 0x09], demo_line 0x31])
    = Inr [demo_mismatch, demo_mismatch\<lparr>m_idx := 1\<rparr>]"
  using mismatches_read_back [of "[demo_mismatch, demo_mismatch\<lparr>m_idx := 1\<rparr>]"
      "\<lambda>m. demo_line (if m_idx m = 0 then 0x30 else 0x31)" demo_parse_line "[[[0x20, 0x09]], []]"]
  by (simp add: demo_line_json trim_blank demo_parse_line_def demo_mismatch_def demo_line_inj
      text_line_def newline_def drop_cr_def)

lemma mismatches_read_demo:
  "read_mismatches demo_parse_line (unlines [demo_line 0x30, [0x20, 0x09], demo_line 0x31])
    = Inr [demo_mismatch, demo_mismatch\<lparr>m_idx := 1\<rparr>]"
proof -
  have lines: "\<forall>l\<in>set [demo_line 0x30, [0x20, 0x09], demo_line 0x31]. text_line l \<and> utf8_ok l"
    using demo_line_json by (auto simp: json_line_text) (auto simp: json_line_def text_line_def newline_def drop_cr_def)
  then have "split_lines [] (unlines [demo_line 0x30, [0x20, 0x09], demo_line 0x31]) = [demo_line 0x30, [0x20, 0x09], demo_line 0x31]"
    by (intro split_unlines) blast
  moreover have "demo_line b \<noteq> []" for b by (simp add: demo_line_def)
  ultimately show ?thesis using lines
    by (simp add: read_mismatches_fold json_line_trim demo_line_json trim_blank demo_parse_line_def demo_line_inj map_filter_simps)
qed

theorem summary_histograms_witness:
  "\<exists>x t out. diag_load (demo_files 1) ''i'' = Inr (Inr x) \<and>
    classify_all (demo_diag_env x) [demo_mismatch] = Inr (t, out) \<and>
    sum_list (map snd (sm_ranks (summarize 1 t))) = class_count ProbeMiss out"
proof (rule demo_env)
  fix x assume x: "diag_load (demo_files 1) ''i'' = Inr (Inr x)"
    "diag_env_ok (demo_diag_env x) demo_cents demo_clusters" "readable (demo_diag_env x) demo_mismatch"
  from classify_one_total [OF x(2,3)] obtain r where "classify_one (demo_diag_env x) demo_mismatch = Inr r" by blast
  then have r: "classify_all (demo_diag_env x) [demo_mismatch] = Inr (tally_of [r], [r])" by (simp add: classify_all_eq)
  from summary_histograms [OF r] x(1) r show ?thesis by auto
qed

end
