(* ===== verification/Calibrate.thy ===== *)
theory Calibrate
  imports Handler
begin

text \<open>
  The probe calibration, calibrate_probes.rs: all test requests are turned into features first,
  then every query is searched and its decision compared with the expected one. The counters are
  \<open>i32\<close>. The facts: the run gets through on a well-formed index, and its three counters are the
  numbers of wrong, wrongly denied and wrongly approved queries.
\<close>

section \<open>The code\<close>

record 'j test_entry =
  te_expected_approved :: bool
  te_request :: 'j

record calibration =
  mismatches :: i32
  false_positives :: i32
  false_negatives :: i32

text \<open>The features of every entry, before any search; the parses are unwrapped.\<close>

definition pre_vectorize ::
  "rfc3339 \<Rightarrow> ('j \<Rightarrow> request option) \<Rightarrow> normalization \<Rightarrow> mcc_risk \<Rightarrow> 'j test_entry list \<Rightarrow>
   (bool \<times> f32 list) list outcome" where
  "pre_vectorize parse_time from_value nrm mcc entries =
     try_map (\<lambda>entry. and_then (expect (from_value (te_request entry))) (\<lambda>req.
       and_then (vectorize parse_time req nrm mcc) (\<lambda>query_vec.
         Inr (te_expected_approved entry, query_vec)))) entries"

text \<open>One query; the buffer is the one of the thread.\<close>

definition calibrate_query ::
  "cent_dist select_fn \<Rightarrow> cent_dist sort_fn \<Rightarrow> searcher \<Rightarrow> calibration \<times> search_buffer \<Rightarrow>
   bool \<times> f32 list \<Rightarrow> (calibration \<times> search_buffer) outcome" where
  "calibrate_query sel srt s = (\<lambda>(c, buf) (expected_approved, query).
     and_then (search sel srt s query 5 buf) (\<lambda>(neighbors, buf').
       let fraud_count = length (filter n_fraud neighbors);
           approved = (fraud_count < 3)
       in Inr (if approved \<noteq> expected_approved
               then (let c = c\<lparr>mismatches := mismatches c + 1\<rparr>
                     in if expected_approved then c\<lparr>false_positives := false_positives c + 1\<rparr>
                        else c\<lparr>false_negatives := false_negatives c + 1\<rparr>)
               else c, buf')))"

definition calibrate_loop ::
  "cent_dist select_fn \<Rightarrow> cent_dist sort_fn \<Rightarrow> searcher \<Rightarrow> search_buffer \<Rightarrow> (bool \<times> f32 list) list \<Rightarrow>
   (calibration \<times> search_buffer) outcome" where
  "calibrate_loop sel srt s buf queries =
     try_fold (calibrate_query sel srt s)
       (\<lparr>mismatches = 0, false_positives = 0, false_negatives = 0\<rparr>, buf) queries"

definition error_rate :: "calibration \<Rightarrow> nat \<Rightarrow> f64" where
  "error_rate c n = f64_of_int (sint (mismatches c)) / f64_of_int (int n) * f64_of_int 100"

text \<open>\<open>main\<close> with its fixed paths and its one probe value, the page printed for it as data.\<close>

definition CAL_NORM :: string where
  "CAL_NORM = ''/Users/silveira.nic/dev/personal/rinha-2026-rust/data/normalization.json''"
definition CAL_MCC :: string where
  "CAL_MCC = ''/Users/silveira.nic/dev/personal/rinha-2026-rust/data/mcc_risk.json''"
definition CAL_INDEX :: string where
  "CAL_INDEX = ''/Users/silveira.nic/dev/personal/rinha-2026-rust/data/index.ivf.bin''"
definition CAL_TEST :: string where
  "CAL_TEST = ''/Users/silveira.nic/dev/personal/rinha-2026-rust/test/test-data.json''"

record 'j calib_libs =
  cl_select :: "cent_dist select_fn"
  cl_sort :: "cent_dist sort_fn"
  cl_parse_time :: rfc3339
  cl_norm_from_reader :: "u8 list \<Rightarrow> normalization option"
  cl_mcc_from_reader :: "u8 list \<Rightarrow> mcc_risk option"
  cl_test_from_reader :: "u8 list \<Rightarrow> 'j test_entry list option"
  cl_from_value :: "'j \<Rightarrow> request option"

definition calibrate ::
  "'j calib_libs \<Rightarrow> file_system \<Rightarrow> search_buffer \<Rightarrow> (calibration \<times> f64 \<times> bool) outcome" where
  "calibrate C fs buf =
     and_then (expect (fs CAL_NORM)) (\<lambda>data.
     and_then (expect (cl_norm_from_reader C data)) (\<lambda>nrm.
     and_then (expect (fs CAL_MCC)) (\<lambda>data.
     and_then (expect (cl_mcc_from_reader C data)) (\<lambda>mcc_risk.
     and_then (expect (fs CAL_TEST)) (\<lambda>data.
     and_then (expect (cl_test_from_reader C data)) (\<lambda>entries.
     and_then (pre_vectorize (cl_parse_time C) (cl_from_value C) nrm mcc_risk entries) (\<lambda>queries.
     and_then (case load fs CAL_INDEX 75 of Inl _ \<Rightarrow> Inl UnwrapPanic | Inr s \<Rightarrow> Inr s) (\<lambda>s.
     and_then (calibrate_loop (cl_select C) (cl_sort C) s buf queries) (\<lambda>(c, _).
       Inr (c, error_rate c (length queries), mismatches c = 0))))))))))"

section \<open>Counting\<close>

text \<open>The decision of a query, which does not depend on the buffer.\<close>

definition approves :: "cent_dist select_fn \<Rightarrow> cent_dist sort_fn \<Rightarrow> searcher \<Rightarrow> f32 list \<Rightarrow> bool" where
  "approves sel srt s query \<longleftrightarrow>
     (case search sel srt s query 5 \<lparr>buf_cent_dists = [], buf_cands = []\<rparr> of
        Inr (ns, _) \<Rightarrow> length (filter n_fraud ns) < 3 | Inl _ \<Rightarrow> False)"

definition wrong :: "cent_dist select_fn \<Rightarrow> cent_dist sort_fn \<Rightarrow> searcher \<Rightarrow> bool \<Rightarrow> (bool \<times> f32 list) list \<Rightarrow> nat" where
  "wrong sel srt s expected queries =
     length (filter (\<lambda>(e, q). e = expected \<and> approves sel srt s q \<noteq> e) queries)"

lemma calibrate_query_eq:
  assumes "search sel srt s query 5 buf = Inr (ns, buf')"
  shows "calibrate_query sel srt s (c, buf) (e, query) =
    Inr (\<lparr>mismatches = mismatches c + of_bool (approves sel srt s query \<noteq> e),
          false_positives = false_positives c + of_bool (e \<and> approves sel srt s query \<noteq> e),
          false_negatives = false_negatives c + of_bool (\<not> e \<and> approves sel srt s query \<noteq> e)\<rparr>, buf')"
proof -
  have "search sel srt s query 5 \<lparr>buf_cent_dists = [], buf_cands = []\<rparr> = Inr (ns, buf')"
    using assms by (simp add: search_def vec_clear_def)
  then have "approves sel srt s query \<longleftrightarrow> length (filter n_fraud ns) < 3" by (simp add: approves_def)
  then show ?thesis using assms by (cases c) (simp add: calibrate_query_def Let_def)
qed

lemma calibrate_fold:
  assumes search: "\<And>query buf. \<exists>ns buf'. search sel srt s query 5 buf = Inr (ns, buf')"
  shows "\<exists>buf'. try_fold (calibrate_query sel srt s) (c, buf) queries =
    Inr (\<lparr>mismatches = mismatches c + word_of_nat (wrong sel srt s True queries + wrong sel srt s False queries),
          false_positives = false_positives c + word_of_nat (wrong sel srt s True queries),
          false_negatives = false_negatives c + word_of_nat (wrong sel srt s False queries)\<rparr>, buf')"
proof (induction queries arbitrary: c buf)
  case Nil
  then show ?case by (simp add: wrong_def)
next
  case (Cons q queries)
  obtain e query where q: "q = (e, query)" by (rule prod.exhaust)
  obtain ns buf' where s: "search sel srt s query 5 buf = Inr (ns, buf')" using search by blast
  let ?w = "approves sel srt s query \<noteq> e"
  have w: "wrong sel srt s True (q # queries) = of_bool (e \<and> ?w) + wrong sel srt s True queries"
    "wrong sel srt s False (q # queries) = of_bool (\<not> e \<and> ?w) + wrong sel srt s False queries"
    by (simp_all add: wrong_def q)
  let ?c = "\<lparr>mismatches = mismatches c + of_bool ?w, false_positives = false_positives c + of_bool (e \<and> ?w),
    false_negatives = false_negatives c + of_bool (\<not> e \<and> ?w)\<rparr>"
  obtain buf'' where "try_fold (calibrate_query sel srt s) (?c, buf') queries =
    Inr (\<lparr>mismatches = mismatches ?c + word_of_nat (wrong sel srt s True queries + wrong sel srt s False queries),
          false_positives = false_positives ?c + word_of_nat (wrong sel srt s True queries),
          false_negatives = false_negatives ?c + word_of_nat (wrong sel srt s False queries)\<rparr>, buf'')"
    using Cons.IH [of ?c buf'] by blast
  moreover have "try_fold (calibrate_query sel srt s) (c, buf) (q # queries) =
    try_fold (calibrate_query sel srt s) (?c, buf') queries"
    using calibrate_query_eq [OF s, of c e] by (simp add: q)
  ultimately show ?case by (simp add: w ac_simps)
qed

lemma pre_vectorize_total:
  assumes "rfc3339_contract parse_time" and "\<forall>e\<in>set entries. from_value (te_request e) \<noteq> None"
  obtains queries where "pre_vectorize parse_time from_value nrm mcc entries = Inr queries"
    "map fst queries = map te_expected_approved entries"
proof -
  let ?f = "\<lambda>entry. and_then (expect (from_value (te_request entry))) (\<lambda>req.
    and_then (vectorize parse_time req nrm mcc) (\<lambda>query_vec. Inr (te_expected_approved entry, query_vec)))"
  have "\<exists>q. ?f e = Inr (te_expected_approved e, q)" if e: "e \<in> set entries" for e
  proof -
    obtain req where req: "from_value (te_request e) = Some req" using assms(2) e by blast
    obtain t where "tx_time_of parse_time (t_requested_at (r_transaction req)) = Inr t"
      by (rule tx_time_of_ok [OF assms(1)])
    from vectorize_eq [OF this] req show ?thesis by (auto simp: expect_def)
  qed
  then have "\<exists>queries. try_map ?f entries = Inr queries \<and> map fst queries = map te_expected_approved entries"
  proof (induction entries)
    case (Cons e entries)
    obtain q where "?f e = Inr (te_expected_approved e, q)" using Cons.prems by force
    moreover obtain queries where "try_map ?f entries = Inr queries" "map fst queries = map te_expected_approved entries"
      using Cons by auto
    ultimately show ?case by auto
  qed simp
  then show thesis using that by (auto simp: pre_vectorize_def)
qed

section \<open>Properties\<close>

text \<open>On a well-formed index with a probe count the calibration gets through, whatever the
  queries, NaN included: its mismatches are the false positives plus the false negatives, and
  these are the numbers of queries that were expected to be approved and denied and are not, as
  long as the queries are fewer than \<open>2^31\<close>; whatever an earlier search left in the buffer.\<close>

theorem calibrate_counts:
  assumes "select_contract sel" and "sort_contract srt" and "views s v" and "ivf_ok v"
    and "0 < unat (probes s)" and "length queries < 2 ^ 31"
  shows "\<exists>c buf'. calibrate_loop sel srt s buf queries = Inr (c, buf') \<and>
    sint (mismatches c) = sint (false_positives c) + sint (false_negatives c) \<and>
    sint (false_positives c) = int (wrong sel srt s True queries) \<and>
    sint (false_negatives c) = int (wrong sel srt s False queries)"
proof -
  have "\<exists>ns buf'. search sel srt s query 5 buf = Inr (ns, buf')" for query buf
    using search_spec [OF assms(1-4), of 5 query buf] assms(5) by auto
  from calibrate_fold [OF this, of "\<lparr>mismatches = 0, false_positives = 0, false_negatives = 0\<rparr>" buf queries]
  obtain buf' where c: "calibrate_loop sel srt s buf queries = Inr (\<lparr>mismatches = word_of_nat (wrong sel srt s True queries + wrong sel srt s False queries),
      false_positives = word_of_nat (wrong sel srt s True queries), false_negatives = word_of_nat (wrong sel srt s False queries)\<rparr>, buf')"
    by (auto simp: calibrate_loop_def)
  have "wrong sel srt s True queries + wrong sel srt s False queries \<le> length queries"
    unfolding wrong_def by (induction queries) auto
  then have n: "sint (word_of_nat n :: i32) = int n" if "n \<le> wrong sel srt s True queries + wrong sel srt s False queries" for n
    using that assms(6) by (simp add: signed_of_nat signed_take_bit_int_eq_self)
  show ?thesis unfolding c
    using n [OF order_refl] n [of "wrong sel srt s True queries"] n [of "wrong sel srt s False queries"]
    by (simp del: of_nat_add add: of_nat_add [where 'a = int])
qed

theorem calibrate_counts_witness:
  "\<exists>s c buf'. load (demo_files 1) ''i'' 75 = Inr s \<and>
    calibrate_loop insertion_select insertion_sort s \<lparr>buf_cent_dists = [], buf_cands = []\<rparr>
      [(True, replicate DIMS 1), (False, replicate DIMS 0)] = Inr (c, buf') \<and>
    sint (mismatches c) = sint (false_positives c) + sint (false_negatives c)"
proof (rule demo_load [of 1 75])
  fix s assume s: "load (demo_files 1) ''i'' 75 = Inr s" "views s (ivf_of demo_cents demo_clusters)"
    "probes s = (if 0 < (75::usize) then 75 else ucast (1::u32))" "ivf_ok (ivf_of demo_cents demo_clusters)"
  from calibrate_counts [OF insertion_contracts s(2,4), of "[(True, replicate DIMS 1), (False, replicate DIMS 0)]"
      "\<lparr>buf_cent_dists = [], buf_cands = []\<rparr>"] s(1,3) show ?thesis by auto
qed

text \<open>C26: The whole calibration: with readable files, test requests that parse and a well-formed index
  it gets through, prints counters that are the numbers of wrong, wrongly denied and wrongly
  approved entries, the error rate computed from them, and SUCCESS exactly when every entry is
  decided as expected.\<close>

theorem calibrate_run:
  assumes "select_contract (cl_select C)" and "sort_contract (cl_sort C)" and "rfc3339_contract (cl_parse_time C)"
    and "fs CAL_NORM = Some nb" and "cl_norm_from_reader C nb = Some nrm"
    and "fs CAL_MCC = Some mb" and "cl_mcc_from_reader C mb = Some mcc_risk"
    and "fs CAL_TEST = Some tb" and "cl_test_from_reader C tb = Some entries"
    and "\<forall>e\<in>set entries. cl_from_value C (te_request e) \<noteq> None" and "length entries < 2 ^ 31"
    and "load fs CAL_INDEX 75 = Inr s" and "views s v" and "ivf_ok v"
  shows "\<exists>queries c. pre_vectorize (cl_parse_time C) (cl_from_value C) nrm mcc_risk entries = Inr queries \<and>
    map fst queries = map te_expected_approved entries \<and>
    calibrate C fs buf = Inr (c, error_rate c (length entries), mismatches c = 0) \<and>
    sint (mismatches c) = sint (false_positives c) + sint (false_negatives c) \<and>
    sint (false_positives c) = int (wrong (cl_select C) (cl_sort C) s True queries) \<and>
    sint (false_negatives c) = int (wrong (cl_select C) (cl_sort C) s False queries) \<and>
    (mismatches c = 0 \<longleftrightarrow> (\<forall>(e, q)\<in>set queries. approves (cl_select C) (cl_sort C) s q = e))"
proof -
  obtain queries where q: "pre_vectorize (cl_parse_time C) (cl_from_value C) nrm mcc_risk entries = Inr queries"
    "map fst queries = map te_expected_approved entries"
    by (rule pre_vectorize_total [OF assms(3,10)])
  then have n: "length queries = length entries" by (metis length_map)
  have "0 < unat (probes s)" using load_Inr(5) [OF assms(12)] by simp
  from calibrate_counts [OF assms(1,2,13,14) this, of queries buf] n assms(11) obtain c buf' where
    c: "calibrate_loop (cl_select C) (cl_sort C) s buf queries = Inr (c, buf')"
    "sint (mismatches c) = sint (false_positives c) + sint (false_negatives c)"
    "sint (false_positives c) = int (wrong (cl_select C) (cl_sort C) s True queries)"
    "sint (false_negatives c) = int (wrong (cl_select C) (cl_sort C) s False queries)" by auto
  have "mismatches c = 0 \<longleftrightarrow> sint (mismatches c) = 0" by (rule signed_eq_0_iff [symmetric])
  also have "\<dots> \<longleftrightarrow> wrong (cl_select C) (cl_sort C) s True queries = 0 \<and> wrong (cl_select C) (cl_sort C) s False queries = 0"
    unfolding c(2-4) by linarith
  also have "\<dots> \<longleftrightarrow> (\<forall>(e, q)\<in>set queries. approves (cl_select C) (cl_sort C) s q = e)"
    by (auto simp: wrong_def filter_empty_conv)
  finally have success: "mismatches c = 0 \<longleftrightarrow> (\<forall>(e, q)\<in>set queries. approves (cl_select C) (cl_sort C) s q = e)" .
  have "calibrate C fs buf = Inr (c, error_rate c (length entries), mismatches c = 0)"
    unfolding calibrate_def assms(4-9,12) expect_def option.case and_then_simps sum.case q(1) c(1) prod.case n ..
  with q c(2-4) success show ?thesis by blast
qed

definition demo_calib :: "bool calib_libs" where
  "demo_calib = \<lparr>cl_select = insertion_select, cl_sort = insertion_sort, cl_parse_time = demo_parse,
     cl_norm_from_reader = (\<lambda>_. Some demo_norm), cl_mcc_from_reader = (\<lambda>_. Some Map.empty),
     cl_test_from_reader = (\<lambda>_. Some [\<lparr>te_expected_approved = True, te_request = True\<rparr>,
       \<lparr>te_expected_approved = False, te_request = False\<rparr>]),
     cl_from_value = (\<lambda>_. Some (demo_request ''yesterday'' None))\<rparr>"

theorem calibrate_run_witness:
  "\<exists>bs c rate success. demo_files 1 ''i'' = Some bs \<and>
    calibrate demo_calib [CAL_NORM \<mapsto> [], CAL_MCC \<mapsto> [], CAL_TEST \<mapsto> [], CAL_INDEX \<mapsto> bs]
      \<lparr>buf_cent_dists = [], buf_cands = []\<rparr> = Inr (c, rate, success) \<and>
    sint (mismatches c) = sint (false_positives c) + sint (false_negatives c)"
proof (rule demo_load [of 1 75])
  fix s assume s: "load (demo_files 1) ''i'' 75 = Inr s" "views s (ivf_of demo_cents demo_clusters)"
    "ivf_ok (ivf_of demo_cents demo_clusters)"
  obtain bs where bs: "demo_files 1 ''i'' = Some bs" using load_Inr(1) [OF s(1)] by blast
  let ?fs = "[CAL_NORM \<mapsto> [], CAL_MCC \<mapsto> [], CAL_TEST \<mapsto> [], CAL_INDEX \<mapsto> bs]"
  have fs: "?fs CAL_NORM = Some []" "?fs CAL_MCC = Some []" "?fs CAL_TEST = Some []" "?fs CAL_INDEX = Some bs"
    by (simp_all add: CAL_NORM_def CAL_MCC_def CAL_TEST_def CAL_INDEX_def)
  then have load: "load ?fs CAL_INDEX 75 = Inr s" using s(1) bs by (simp add: load_def del: fun_upd_apply)
  have C: "select_contract (cl_select demo_calib)" "sort_contract (cl_sort demo_calib)"
    "rfc3339_contract (cl_parse_time demo_calib)" "cl_norm_from_reader demo_calib [] = Some demo_norm"
    "cl_mcc_from_reader demo_calib [] = Some Map.empty" "cl_test_from_reader demo_calib [] = Some
      [\<lparr>te_expected_approved = True, te_request = True\<rparr>, \<lparr>te_expected_approved = False, te_request = False\<rparr>]"
    "\<forall>e\<in>set es. cl_from_value demo_calib (te_request e) \<noteq> None" for es
    using insertion_contracts demo_request_ok(1) by (simp_all add: demo_calib_def)
  from calibrate_run [OF C(1-3) fs(1) C(4) fs(2) C(5) fs(3) C(6) C(7) _ load s(2,3)] bs
  show ?thesis by fastforce
qed

end
