(* ===== verification/Server.thy ===== *)
theory Server
  imports Handler
begin

text \<open>
  The running service, main.rs: the routes, the sockets it opens and its accept loop. A state holds
  the connections with the requests answered on each, the buffers of the worker threads and the
  metrics; a step accepts a connection, answers a request on some thread, ends a connection or
  fails to accept. A handler has no suspension point after its body has arrived, so a request is one
  step; the additions to the metrics inside it may interleave with those of other threads, which
  the theory Timing shows to lose nothing. The facts: in every reachable state every answer is the
  right one, whatever came before it and on whatever thread, and the metrics count the answers.
\<close>

section \<open>The routes\<close>

datatype http_method = GET | HEAD | POST | OtherMethod

datatype reply = Answer http_response | Page metrics_page

record app =
  ap_select :: "cent_dist select_fn"
  ap_sort :: "cent_dist sort_fn"
  ap_parse_time :: rfc3339
  ap_from_slice :: "u8 list \<Rightarrow> request option"
  ap_cfs :: "string \<rightharpoonup> string"
  ap_state :: app_state

text \<open>The library refuses a body of more than 2 MB, a route with another method, and other paths.\<close>

definition BODY_LIMIT :: nat where "BODY_LIMIT = 2097152"

definition app_route ::
  "app \<Rightarrow> http_method \<Rightarrow> string \<Rightarrow> u8 list \<Rightarrow> elapsed \<Rightarrow> worker \<Rightarrow> (reply \<times> worker) outcome" where
  "app_route A meth path body el w =
     (if path = ''/ready'' then Inr (Answer (if meth = GET \<or> meth = HEAD then ready else Status 405), w)
      else if path = ''/fraud-score'' then
        (if meth \<noteq> POST then Inr (Answer (Status 405), w)
         else if BODY_LIMIT < length body then Inr (Answer (Status 413), w)
         else and_then (fraud_score (ap_select A) (ap_sort A) (ap_parse_time A) (ap_from_slice A) (ap_state A) el body w)
                (\<lambda>(r, w). Inr (Answer r, w)))
      else if path = ''/metrics'' then
        (if meth = GET then Inr (Page (metrics_endpoint (ap_cfs A) w), w)
         else Inr (Answer (Status (if meth = HEAD then 200 else 405)), w))
      else Inr (Answer (Status 404), w))"

text \<open>The router of the health port.\<close>

definition health_route :: "http_method \<Rightarrow> string \<Rightarrow> reply" where
  "health_route meth path =
     Answer (if path = ''/ready'' then (if meth = GET \<or> meth = HEAD then ready else Status 405) else Status 404)"

section \<open>The sockets\<close>

text \<open>What the system allows; socket files have a mode.\<close>

record socket_env =
  can_remove :: "string \<Rightarrow> bool"
  can_bind :: "string \<Rightarrow> bool"
  can_chmod :: "string \<Rightarrow> bool"
  can_listen :: "string \<Rightarrow> bool"
  bound_mode :: nat

definition uds_listen :: "socket_env \<Rightarrow> string \<Rightarrow> (string \<rightharpoonup> nat) \<Rightarrow> (string \<rightharpoonup> nat) outcome" where
  "uds_listen E path files =
     (let files = (if can_remove E path then files(path := None) else files)
      in if files path \<noteq> None \<or> \<not> can_bind E path then Inl UnwrapPanic
         else let files = files(path \<mapsto> bound_mode E)
         in if can_chmod E path then Inr (files(path \<mapsto> 438)) else Inl UnwrapPanic)" \<comment> \<open>0o666\<close>

definition listen_on :: "socket_env \<Rightarrow> listener \<Rightarrow> (string \<rightharpoonup> nat) \<Rightarrow> (string \<rightharpoonup> nat) outcome" where
  "listen_on E l files =
     (case l of
        Uds path addr \<Rightarrow> if can_listen E addr then uds_listen E path files else Inl UnwrapPanic
      | Tcp addr \<Rightarrow> if can_listen E addr then Inr files else Inl UnwrapPanic)"

section \<open>The accept loop\<close>

type_synonym exchange = "http_method \<times> string \<times> u8 list \<times> reply"

record connection =
  cn_health :: bool
  cn_open :: bool
  cn_log :: "exchange list"

record server =
  sv_running :: bool
  sv_conns :: "connection list"
  sv_threads :: "search_buffer list"
  sv_metrics :: metrics

definition server_start :: "metrics \<Rightarrow> nat \<Rightarrow> server" where
  "server_start m n =
     \<lparr>sv_running = True, sv_conns = [], sv_threads = replicate n \<lparr>buf_cent_dists = [], buf_cands = []\<rparr>,
      sv_metrics = m\<rparr>"

definition logged :: "nat \<Rightarrow> exchange \<Rightarrow> server \<Rightarrow> server" where
  "logged i x s = s\<lparr>sv_conns := (sv_conns s)[i := (sv_conns s ! i)\<lparr>cn_log := cn_log (sv_conns s ! i) @ [x]\<rparr>]\<rparr>"

definition hung_up :: "nat \<Rightarrow> server \<Rightarrow> server" where
  "hung_up i s = s\<lparr>sv_conns := (sv_conns s)[i := (sv_conns s ! i)\<lparr>cn_open := False\<rparr>]\<rparr>"

text \<open>
  A panic of a handler ends the task of its connection and nothing else; what it had recorded and
  what it leaves in its buffer are left open. A failed accept ends the loop of the Unix socket, and
  with it the program; the library's TCP loop goes on. The health port exists beside the Unix socket.
\<close>

inductive serve_step :: "app \<Rightarrow> bool \<Rightarrow> server \<Rightarrow> server \<Rightarrow> bool" for A :: app and uds :: bool where
  accept: "sv_running s \<Longrightarrow> health \<longrightarrow> uds \<Longrightarrow>
    serve_step A uds s (s\<lparr>sv_conns := sv_conns s @ [\<lparr>cn_health = health, cn_open = True, cn_log = []\<rparr>]\<rparr>)"
| accept_fails: "sv_running s \<Longrightarrow> uds \<Longrightarrow> serve_step A uds s (s\<lparr>sv_running := False\<rparr>)"
| request: "sv_running s \<Longrightarrow> i < length (sv_conns s) \<Longrightarrow> cn_open (sv_conns s ! i) \<Longrightarrow> \<not> cn_health (sv_conns s ! i) \<Longrightarrow>
    t < length (sv_threads s) \<Longrightarrow>
    app_route A meth path body el \<lparr>w_metrics = sv_metrics s, w_buf = sv_threads s ! t\<rparr> = Inr (r, w) \<Longrightarrow>
    serve_step A uds s ((logged i (meth, path, body, r) s)
      \<lparr>sv_threads := (sv_threads s)[t := w_buf w], sv_metrics := w_metrics w\<rparr>)"
| request_panics: "sv_running s \<Longrightarrow> i < length (sv_conns s) \<Longrightarrow> cn_open (sv_conns s ! i) \<Longrightarrow> \<not> cn_health (sv_conns s ! i) \<Longrightarrow>
    t < length (sv_threads s) \<Longrightarrow>
    app_route A meth path body el \<lparr>w_metrics = sv_metrics s, w_buf = sv_threads s ! t\<rparr> = Inl f \<Longrightarrow>
    serve_step A uds s ((hung_up i s)\<lparr>sv_threads := (sv_threads s)[t := buf], sv_metrics := m\<rparr>)"
| health_request: "sv_running s \<Longrightarrow> i < length (sv_conns s) \<Longrightarrow> cn_open (sv_conns s ! i) \<Longrightarrow> cn_health (sv_conns s ! i) \<Longrightarrow>
    serve_step A uds s (logged i (meth, path, body, health_route meth path) s)"
| close: "sv_running s \<Longrightarrow> i < length (sv_conns s) \<Longrightarrow> serve_step A uds s (hung_up i s)"

section \<open>What has been answered\<close>

definition exchanges :: "server \<Rightarrow> (bool \<times> exchange) list" where
  "exchanges s = concat (map (\<lambda>c. map (Pair (cn_health c)) (cn_log c)) (sv_conns s))"

lemma mset_concat_update:
  assumes "i < length xs"
  shows "mset (concat (map f (xs[i := y]))) + mset (f (xs ! i)) = mset (concat (map f xs)) + mset (f y)"
proof -
  have "concat (map f xs) = concat (map f (take i xs)) @ f (xs ! i) @ concat (map f (drop (Suc i) xs))"
    by (subst id_take_nth_drop [OF assms]) simp
  moreover have "concat (map f (xs[i := y])) = concat (map f (take i xs)) @ f y @ concat (map f (drop (Suc i) xs))"
    by (simp add: upd_conv_take_nth_drop [OF assms])
  ultimately show ?thesis by simp
qed

lemma exchanges_simps [simp]:
  "exchanges (server_start m n) = []"
  "exchanges (s\<lparr>sv_running := b\<rparr>) = exchanges s"
  "exchanges (s\<lparr>sv_threads := ts, sv_metrics := m\<rparr>) = exchanges s"
  "exchanges (s\<lparr>sv_conns := sv_conns s @ [\<lparr>cn_health = health, cn_open = True, cn_log = []\<rparr>]\<rparr>) = exchanges s"
  by (simp_all add: exchanges_def server_start_def)

lemma metrics_simps [simp]:
  "sv_metrics (logged i x s) = sv_metrics s" "sv_metrics (hung_up i s) = sv_metrics s"
  by (simp_all add: logged_def hung_up_def)

lemma exchanges_logged:
  "i < length (sv_conns s) \<Longrightarrow>
   mset (exchanges (logged i x s)) = add_mset (cn_health (sv_conns s ! i), x) (mset (exchanges s))"
  using mset_concat_update [of i "sv_conns s" "\<lambda>c. map (Pair (cn_health c)) (cn_log c)"
      "(sv_conns s ! i)\<lparr>cn_log := cn_log (sv_conns s ! i) @ [x]\<rparr>"]
  by (simp add: exchanges_def logged_def)

lemma exchanges_hung_up: "i < length (sv_conns s) \<Longrightarrow> mset (exchanges (hung_up i s)) = mset (exchanges s)"
  using mset_concat_update [of i "sv_conns s" "\<lambda>c. map (Pair (cn_health c)) (cn_log c)"
      "(sv_conns s ! i)\<lparr>cn_open := False\<rparr>"]
  by (simp add: exchanges_def hung_up_def)

text \<open>Every exchange came from the router of its port, in some state of the worker.\<close>

definition from_router :: "app \<Rightarrow> bool \<times> exchange \<Rightarrow> bool" where
  "from_router A = (\<lambda>(health, meth, path, body, r).
     if health then r = health_route meth path
     else \<exists>el w w'. app_route A meth path body el w = Inr (r, w'))"

lemma serve_step_exchanges:
  assumes "serve_step A uds s s'" and "\<forall>x\<in>set (exchanges s). from_router A x"
  shows "\<forall>x\<in>set (exchanges s'). from_router A x"
proof -
  have set: "set (exchanges s) = set_mset (mset (exchanges s))" for s by simp
  show ?thesis using assms
    by cases (auto simp: set exchanges_logged exchanges_hung_up from_router_def simp del: set_mset_mset)
qed

lemma reachable_exchanges:
  assumes "(serve_step A uds)\<^sup>*\<^sup>* (server_start m n) s"
  shows "\<forall>x\<in>set (exchanges s). from_router A x"
  using assms
proof induction
  case (step s s')
  then show ?case using serve_step_exchanges by blast
qed simp

section \<open>The answers\<close>

text \<open>A service whose index is well-formed, whose libraries keep their contracts.\<close>

definition app_ok :: "app \<Rightarrow> ivf \<Rightarrow> bool" where
  "app_ok A v \<longleftrightarrow>
     select_contract (ap_select A) \<and> sort_contract (ap_sort A) \<and> rfc3339_contract (ap_parse_time A) \<and>
     views (a_searcher (ap_state A)) v \<and> ivf_ok v \<and> 0 < unat (probes (a_searcher (ap_state A)))"

lemma app_route_score:
  assumes "app_ok A v" and "length body \<le> BODY_LIMIT" and "ap_from_slice A body = Some req"
  shows "\<exists>query near cands w'.
    vectorize (ap_parse_time A) req (a_norm (ap_state A)) (a_mcc_risk (ap_state A)) = Inr query \<and>
    nearest_clusters v query (min (unat (probes (a_searcher (ap_state A)))) (length (i_cents v))) near \<and>
    k_smallest cand_key 5 (mset (scanned v query near)) (mset cands) \<and>
    app_route A POST ''/fraud-score'' body el w = Inr (Answer (Json (RESPONSES ! length (filter c_fraud cands))), w')"
proof -
  have lim: "\<not> BODY_LIMIT < length body" using assms(2) by simp
  have ok: "select_contract (ap_select A)" "sort_contract (ap_sort A)" "rfc3339_contract (ap_parse_time A)"
    "views (a_searcher (ap_state A)) v" "ivf_ok v" "0 < unat (probes (a_searcher (ap_state A)))"
    using assms(1) by (simp_all add: app_ok_def)
  from fraud_score_answers_aux [OF ok, where from_slice = "ap_from_slice A" and body = body, OF assms(3), of el w]
  show ?thesis by (fastforce simp: app_route_def lim)
qed

lemma app_route_total:
  assumes "app_ok A v" shows "\<exists>r w'. app_route A meth path body el w = Inr (r, w')"
proof (cases "path = ''/fraud-score'' \<and> meth = POST \<and> length body \<le> BODY_LIMIT")
  case True
  show ?thesis
  proof (cases "ap_from_slice A body")
    case None
    then show ?thesis using True by (simp add: app_route_def fraud_score_def)
  next
    case (Some req)
    with app_route_score [OF assms, of body req el w] True show ?thesis by blast
  qed
qed (auto simp: app_route_def)

text \<open>The reply does not depend on the thread, its buffer, the metrics or the clock.\<close>

lemma app_route_reply:
  assumes "app_route A meth path body el w = Inr (r, w')" and "app_route A meth path body el2 w2 = Inr (r2, w2')"
    and "\<not> (meth = GET \<and> path = ''/metrics'')"
  shows "r = r2"
proof -
  have buf: "search sel srt s query 5 b = search sel srt s query 5 \<lparr>buf_cent_dists = [], buf_cands = []\<rparr>"
    for sel srt s query b by (simp add: search_def vec_clear_def)
  have "fraud_score sel srt pt fsl st el body w = Inr (x, y) \<Longrightarrow> fraud_score sel srt pt fsl st el2 body w2 = Inr (x2, y2)
      \<Longrightarrow> x = x2" for sel srt pt fsl st x y x2 y2
    by (auto simp: fraud_score_def and_then_eq_Inr Let_def buf [of _ _ _ _ "w_buf _"] split: option.splits)
  with assms show ?thesis
    by (auto simp: app_route_def and_then_eq_Inr split: if_splits)
qed

section \<open>The metrics\<close>

fun scored :: "bool \<times> exchange \<Rightarrow> bool" where
  "scored (_, _, _, _, Answer (Json _)) = True"
| "scored _ = False"

definition phase_counts :: "metrics \<Rightarrow> u64 list" where
  "phase_counts m = map ps_count [mt_parse m, mt_vectorize m, mt_search m, mt_total m]"

definition scores :: "server \<Rightarrow> nat" where
  "scores s = size (filter_mset scored (mset (exchanges s)))"

lemma fraud_score_status:
  "fraud_score sel srt parse_time from_slice state el body w = Inr (Status c, w') \<Longrightarrow> w' = w"
  by (auto simp: fraud_score_def and_then_eq_Inr Let_def split: option.splits)

lemma app_route_metrics:
  assumes "app_route A meth path body el w = Inr (r, w')"
  shows "mt_enabled (w_metrics w') = mt_enabled (w_metrics w)"
    and "phase_counts (w_metrics w') = (if mt_enabled (w_metrics w) \<and> scored (h, meth, path, body, r)
      then map (\<lambda>c. c + 1) (phase_counts (w_metrics w)) else phase_counts (w_metrics w))"
proof -
  have "mt_enabled (w_metrics w') = mt_enabled (w_metrics w) \<and> phase_counts (w_metrics w') =
    (if mt_enabled (w_metrics w) \<and> scored (h, meth, path, body, r)
      then map (\<lambda>c. c + 1) (phase_counts (w_metrics w)) else phase_counts (w_metrics w))"
  proof (cases "path = ''/fraud-score'' \<and> meth = POST \<and> \<not> BODY_LIMIT < length body")
    case True
    then obtain x where x: "r = Answer x"
      "fraud_score (ap_select A) (ap_sort A) (ap_parse_time A) (ap_from_slice A) (ap_state A) el body w = Inr (x, w')"
      using assms by (auto simp: app_route_def and_then_eq_Inr)
    show ?thesis
    proof (cases x)
      case (Status c)
      have "w' = w" by (rule fraud_score_status [OF x(2) [unfolded Status]])
      then show ?thesis by (simp add: x(1) Status)
    next
      case (Json b)
      have "w_metrics w' = (if mt_enabled (w_metrics w)
         then (w_metrics w)\<lparr>mt_parse := record_us (el_parse el) (mt_parse (w_metrics w)),
            mt_vectorize := record_us (el_vectorize el) (mt_vectorize (w_metrics w)),
            mt_search := record_us (el_search el) (mt_search (w_metrics w)),
            mt_total := record_us (el_total el) (mt_total (w_metrics w))\<rparr>
         else w_metrics w)"
        by (rule fraud_score_metrics [OF x(2) [unfolded Json]])
      then show ?thesis
        by (simp add: x(1) Json phase_counts_def record_us_def add_sum_def add_count_def add_bucket_def)
    qed
  next
    case False
    then have "w' = w \<and> \<not> scored (h, meth, path, body, r)"
      using assms by (auto simp: app_route_def ready_def split: if_splits)
    then show ?thesis by simp
  qed
  then show "mt_enabled (w_metrics w') = mt_enabled (w_metrics w)"
    "phase_counts (w_metrics w') = (if mt_enabled (w_metrics w) \<and> scored (h, meth, path, body, r)
      then map (\<lambda>c. c + 1) (phase_counts (w_metrics w)) else phase_counts (w_metrics w))" by blast+
qed

lemma not_scored_health: "\<not> scored (h, meth, path, body, health_route m p)"
  by (simp add: health_route_def ready_def)

text \<open>What the four phases should have counted: the scores, and nothing with metrics off.\<close>

definition expected_count :: "bool \<Rightarrow> nat \<Rightarrow> u64" where
  "expected_count on k = (if on then word_of_nat k else 0)"

lemma serve_step_counts:
  assumes "serve_step A uds s s'" and "app_ok A v"
    and "mt_enabled (sv_metrics s) = on" and "phase_counts (sv_metrics s) = replicate 4 (expected_count on (scores s))"
  shows "mt_enabled (sv_metrics s') = on \<and> phase_counts (sv_metrics s') = replicate 4 (expected_count on (scores s'))"
  using assms(1)
proof cases
  case (request i t meth path body el r w)
  note m = app_route_metrics(1) [OF request(7)] app_route_metrics(2) [OF request(7), where h = False]
  have "scores s' = scores s + of_bool (scored (False, meth, path, body, r))"
    using request(3,5) by (simp add: request(1) scores_def exchanges_logged)
  then show ?thesis using m assms(3,4) by (simp add: request(1) map_replicate expected_count_def)
next
  case (request_panics i t meth path body el f)
  with app_route_total [OF assms(2)] show ?thesis by (metis Inl_Inr_False)
qed (use assms(3,4) in \<open>simp_all add: scores_def exchanges_logged exchanges_hung_up not_scored_health\<close>)

section \<open>Properties\<close>

text \<open>C6: On a well-formed index, with at least one probe and libraries that keep their contracts, in
  every state the service can reach, whatever connections, threads, interleavings and closed
  connections led to it, no request panics, and every score request it has answered got the right
  answer: 413 for a body of more than 2 MB, 400 for one that does not parse, otherwise the table
  entry of the number of frauds among five nearest vectors of the clusters probed.\<close>

theorem service_answers_right:
  assumes "app_ok A v" and "(serve_step A uds)\<^sup>*\<^sup>* (server_start m n) s"
    and "(False, (POST, ''/fraud-score'', body, r)) \<in> set (exchanges s)"
  shows "(if BODY_LIMIT < length body then r = Answer (Status 413)
     else case ap_from_slice A body of
      None \<Rightarrow> r = Answer (Status 400)
    | Some req \<Rightarrow> \<exists>query near cands.
        vectorize (ap_parse_time A) req (a_norm (ap_state A)) (a_mcc_risk (ap_state A)) = Inr query \<and>
        nearest_clusters v query (min (unat (probes (a_searcher (ap_state A)))) (length (i_cents v))) near \<and>
        k_smallest cand_key 5 (mset (scanned v query near)) (mset cands) \<and>
        r = Answer (Json (RESPONSES ! length (filter c_fraud cands)))) \<and>
    (\<forall>meth path body el w f. app_route A meth path body el w \<noteq> Inl f)"
proof -
  have "from_router A (False, (POST, ''/fraud-score'', body, r))"
    using reachable_exchanges [OF assms(2)] assms(3) by blast
  then obtain el w w' where r: "app_route A POST ''/fraud-score'' body el w = Inr (r, w')"
    by (auto simp: from_router_def)
  have total: "\<forall>meth path body el w f. app_route A meth path body el w \<noteq> Inl f"
    using app_route_total [OF assms(1)] by (metis Inl_Inr_False)
  show ?thesis
  proof (cases "BODY_LIMIT < length body")
    case True
    then show ?thesis using r total by (simp add: app_route_def)
  next
    case fits: False
    show ?thesis
    proof (cases "ap_from_slice A body")
      case None
      then show ?thesis using r fits total by (simp add: app_route_def fraud_score_def)
    next
      case (Some req)
      with app_route_score [OF assms(1) _ Some, of el w] r fits total show ?thesis by auto
    qed
  qed
qed

text \<open>C24: The answer to a request is a function of the request: two requests with the same method,
  path and body get the same reply, on any two connections and in any two runs of the service over
  the same state, the page of metrics excepted.\<close>

theorem same_request_same_reply:
  assumes "(serve_step A uds)\<^sup>*\<^sup>* (server_start m n) s" and "(serve_step A uds')\<^sup>*\<^sup>* (server_start m' n') s'"
    and "(False, (meth, path, body, r)) \<in> set (exchanges s)" and "(False, (meth, path, body, r')) \<in> set (exchanges s')"
    and "meth \<noteq> GET \<or> path \<noteq> ''/metrics''"
  shows "r = r'"
proof -
  have "from_router A (False, (meth, path, body, r))" "from_router A (False, (meth, path, body, r'))"
    using reachable_exchanges [OF assms(1)] reachable_exchanges [OF assms(2)] assms(3,4) by blast+
  then obtain el w w2 el' w' w2' where
    "app_route A meth path body el w = Inr (r, w2)" "app_route A meth path body el' w' = Inr (r', w2')"
    by (auto simp: from_router_def)
  then show ?thesis using assms(5) by (intro app_route_reply) auto
qed

text \<open>C23: On a well-formed index with at least one probe, in every reachable state each of the four
  phases has counted, modulo \<open>2^64\<close>, exactly the requests answered with a score, over all
  connections, closed ones included, when metrics are on: bad requests, refused bodies, other routes
  and the health port are not counted. When they are off, as they are by default, nothing is.\<close>

theorem metrics_count_scores:
  assumes "app_ok A v" and "(serve_step A uds)\<^sup>*\<^sup>* (server_start (metrics_new on) n) s"
  shows "phase_counts (sv_metrics s) =
    replicate 4 (if on then word_of_nat (length (filter scored (exchanges s))) else 0)"
proof -
  have "mt_enabled (sv_metrics s) = on \<and> phase_counts (sv_metrics s) = replicate 4 (expected_count on (scores s))"
    using assms(2)
  proof induction
    case base
    then show ?case by (simp add: server_start_def metrics_new_def phase_counts_def phase_stats_new_def scores_def exchanges_def
        numeral_eq_Suc expected_count_def)
  next
    case (step s s')
    then show ?case using serve_step_counts [OF step(2) assms(1)] by blast
  qed
  moreover have "scores s = length (filter scored (exchanges s))"
    unfolding scores_def mset_filter [symmetric] by (rule size_mset)
  ultimately show ?thesis by (simp add: expected_count_def)
qed

text \<open>A stale socket file does not keep the service from starting: where the system lets it remove
  the old file, listen, bind and change the mode, the service has the socket with mode 0666, and its
  health port, and no other socket file changed; where it does not, the start panics.\<close>

theorem sockets_opened:
  "listen_on E l files =
    (case l of
       Tcp addr \<Rightarrow> if can_listen E addr then Inr files else Inl UnwrapPanic
     | Uds path addr \<Rightarrow>
         if can_listen E addr \<and> (can_remove E path \<or> files path = None) \<and> can_bind E path \<and> can_chmod E path
         then Inr (files(path \<mapsto> 438)) else Inl UnwrapPanic)"
  by (auto simp: listen_on_def uds_listen_def Let_def split: listener.split)

section \<open>A concrete run\<close>

definition demo_app :: "searcher \<Rightarrow> app" where
  "demo_app s = \<lparr>ap_select = insertion_select, ap_sort = insertion_sort, ap_parse_time = demo_parse,
     ap_from_slice = (\<lambda>b. if b = [1] then Some (demo_request ''yesterday'' None) else None), ap_cfs = Map.empty,
     ap_state = \<lparr>a_searcher = s, a_norm = demo_norm, a_mcc_risk = Map.empty\<rparr>\<rparr>"

lemma first_request:
  assumes "app_route A meth path body el \<lparr>w_metrics = m, w_buf = \<lparr>buf_cent_dists = [], buf_cands = []\<rparr>\<rparr> = Inr (r, w)"
  obtains s where "(serve_step A uds)\<^sup>*\<^sup>* (server_start m 1) s" "sv_running s"
    "sv_conns s = [\<lparr>cn_health = False, cn_open = True, cn_log = [(meth, path, body, r)]\<rparr>]" "length (sv_threads s) = 1"
proof -
  let ?start = "server_start m 1"
  let ?s1 = "?start\<lparr>sv_conns := sv_conns ?start @ [\<lparr>cn_health = False, cn_open = True, cn_log = []\<rparr>]\<rparr>"
  let ?s2 = "(logged 0 (meth, path, body, r) ?s1)\<lparr>sv_threads := (sv_threads ?s1)[0 := w_buf w], sv_metrics := w_metrics w\<rparr>"
  have 1: "serve_step A uds ?start ?s1" by (rule accept) (simp_all add: server_start_def)
  have 2: "serve_step A uds ?s1 ?s2"
    by (rule request [where el = el]) (use assms in \<open>simp_all add: server_start_def\<close>)
  note step = rtranclp.rtrancl_into_rtrancl [where r = "serve_step A uds"]
  have "(serve_step A uds)\<^sup>*\<^sup>* ?start ?s2" by (rule step [OF step [OF rtranclp.rtrancl_refl 1] 2])
  then show thesis by (rule that) (simp_all add: server_start_def logged_def)
qed

text \<open>One connection on one thread: a score request, then a body that does not parse.\<close>

lemma demo_run:
  obtains s v s' r where "load (demo_files 1) ''i'' 0 = Inr s" "app_ok (demo_app s) v"
    "(serve_step (demo_app s) False)\<^sup>*\<^sup>* (server_start (metrics_new True) 1) s'"
    "exchanges s' = [(False, POST, ''/fraud-score'', [1], r), (False, POST, ''/fraud-score'', [], Answer (Status 400))]"
proof (rule demo_load [of 1 0])
  fix s assume s: "load (demo_files 1) ''i'' 0 = Inr s" "views s (ivf_of demo_cents demo_clusters)"
    "probes s = (if 0 < (0::usize) then 0 else ucast (1::u32))" "ivf_ok (ivf_of demo_cents demo_clusters)"
  let ?A = "demo_app s" and ?x = "(POST, ''/fraud-score'', [] :: u8 list, Answer (Status 400))"
  let ?el = "\<lparr>el_parse = 1, el_vectorize = 1, el_search = 1, el_total = 3\<rparr>"
  have ok: "app_ok ?A (ivf_of demo_cents demo_clusters)"
    using s(2-4) insertion_contracts demo_request_ok(1) by (simp add: app_ok_def demo_app_def)
  obtain r w where "app_route ?A POST ''/fraud-score'' [1] ?el
      \<lparr>w_metrics = metrics_new True, w_buf = \<lparr>buf_cent_dists = [], buf_cands = []\<rparr>\<rparr> = Inr (r, w)"
    using app_route_total [OF ok] by blast
  then obtain t where t: "(serve_step ?A False)\<^sup>*\<^sup>* (server_start (metrics_new True) 1) t" "sv_running t"
    "sv_conns t = [\<lparr>cn_health = False, cn_open = True, cn_log = [(POST, ''/fraud-score'', [1], r)]\<rparr>]" "length (sv_threads t) = 1"
    by (rule first_request)
  let ?w = "\<lparr>w_metrics = sv_metrics t, w_buf = sv_threads t ! 0\<rparr>"
  let ?t = "(logged 0 ?x t)\<lparr>sv_threads := (sv_threads t)[0 := w_buf ?w], sv_metrics := w_metrics ?w\<rparr>"
  have "app_route ?A POST ''/fraud-score'' [] ?el ?w = Inr (Answer (Status 400), ?w)"
    by (simp add: app_route_def fraud_score_def demo_app_def)
  then have "serve_step ?A False t ?t" by (rule request [rotated 5]) (simp_all add: t)
  with t(1) have "(serve_step ?A False)\<^sup>*\<^sup>* (server_start (metrics_new True) 1) ?t" by (rule rtranclp.rtrancl_into_rtrancl)
  moreover have "exchanges ?t = [(False, POST, ''/fraud-score'', [1], r), (False, ?x)]"
    by (simp add: exchanges_def logged_def t(3))
  ultimately show thesis by (rule that [OF s(1) ok])
qed

theorem service_answers_right_witness:
  "\<exists>s s' r query. load (demo_files 1) ''i'' 0 = Inr s \<and>
    (serve_step (demo_app s) False)\<^sup>*\<^sup>* (server_start (metrics_new True) 1) s' \<and>
    (False, POST, ''/fraud-score'', [1], r) \<in> set (exchanges s') \<and>
    vectorize demo_parse (demo_request ''yesterday'' None) demo_norm Map.empty = Inr query"
proof (rule demo_run)
  fix s v s' r assume s: "load (demo_files 1) ''i'' 0 = Inr s" "app_ok (demo_app s) v"
    "(serve_step (demo_app s) False)\<^sup>*\<^sup>* (server_start (metrics_new True) 1) s'"
    "exchanges s' = [(False, POST, ''/fraud-score'', [1], r), (False, POST, ''/fraud-score'', [], Answer (Status 400))]"
  have "\<exists>query. vectorize demo_parse (demo_request ''yesterday'' None) demo_norm Map.empty = Inr query"
    using service_answers_right [OF s(2,3), of "[1]" r] s(4) by (auto simp: demo_app_def BODY_LIMIT_def)
  with s show ?thesis by auto
qed

theorem same_request_same_reply_witness:
  "\<exists>s s' r. load (demo_files 1) ''i'' 0 = Inr s \<and>
    (serve_step (demo_app s) False)\<^sup>*\<^sup>* (server_start (metrics_new True) 1) s' \<and>
    (False, POST, ''/fraud-score'', [], r) \<in> set (exchanges s') \<and> r = Answer (Status 400)"
proof (rule demo_run)
  fix s v s' r assume s: "load (demo_files 1) ''i'' 0 = Inr s"
    "(serve_step (demo_app s) False)\<^sup>*\<^sup>* (server_start (metrics_new True) 1) s'"
    "exchanges s' = [(False, POST, ''/fraud-score'', [1], r), (False, POST, ''/fraud-score'', [], Answer (Status 400))]"
  have "r' = Answer (Status 400)" if "(False, POST, ''/fraud-score'', [], r') \<in> set (exchanges s')" for r'
    by (rule same_request_same_reply [OF s(2,2) that]) (simp_all add: s(3))
  with s show ?thesis by auto
qed

theorem metrics_count_scores_witness:
  "\<exists>s s'. load (demo_files 1) ''i'' 0 = Inr s \<and>
    (serve_step (demo_app s) False)\<^sup>*\<^sup>* (server_start (metrics_new True) 1) s' \<and> length (exchanges s') = 2 \<and>
    phase_counts (sv_metrics s') = replicate 4 (word_of_nat (length (filter scored (exchanges s'))))"
proof (rule demo_run)
  fix s v s' r assume s: "load (demo_files 1) ''i'' 0 = Inr s" "app_ok (demo_app s) v"
    "(serve_step (demo_app s) False)\<^sup>*\<^sup>* (server_start (metrics_new True) 1) s'"
    "exchanges s' = [(False, POST, ''/fraud-score'', [1], r), (False, POST, ''/fraud-score'', [], Answer (Status 400))]"
  from metrics_count_scores [OF s(2,3)] s(1,3,4) show ?thesis by (intro exI conjI) (assumption | simp)+
qed

end
