(* ===== verification/Accuracy.thy ===== *)
theory Accuracy
  imports Pipeline
begin

text \<open>
  What quantization costs. The searcher compares integer distances between quantized vectors; here
  they are compared with the Euclidean distance of the features themselves, in exact arithmetic:
  the two differ by a fixed amount, so a record the searcher leaves out is nearer than one it
  returns by at most twice that amount.
\<close>

section \<open>The Euclidean norm of the first coordinates\<close>

definition norm_upto :: "nat \<Rightarrow> (nat \<Rightarrow> real) \<Rightarrow> real" where
  "norm_upto n f = sqrt (\<Sum>j<n. (f j)\<^sup>2)"

lemma norm_upto_Suc: "norm_upto (Suc n) f = sqrt ((norm_upto n f)\<^sup>2 + (f n)\<^sup>2)"
  by (simp add: norm_upto_def sum_nonneg)

lemma norm_upto_triangle: "norm_upto n (\<lambda>j. f j + g j) \<le> norm_upto n f + norm_upto n g"
proof (induction n)
  case (Suc n)
  have "norm_upto (Suc n) (\<lambda>j. f j + g j) \<le> sqrt ((norm_upto n f + norm_upto n g)\<^sup>2 + (f n + g n)\<^sup>2)"
    unfolding norm_upto_Suc using Suc
    by (intro real_sqrt_le_mono add_right_mono power_mono) (simp_all add: norm_upto_def sum_nonneg)
  also have "\<dots> \<le> norm_upto (Suc n) f + norm_upto (Suc n) g"
    unfolding norm_upto_Suc by (rule real_sqrt_sum_squares_triangle_ineq)
  finally show ?case .
qed (simp add: norm_upto_def)

lemma norm_upto_bound:
  assumes "\<And>j. j < n \<Longrightarrow> \<bar>f j\<bar> \<le> c" and "0 \<le> c" shows "norm_upto n f \<le> sqrt (real n) * c"
proof -
  have "(f j)\<^sup>2 \<le> c\<^sup>2" if "j < n" for j
    using assms(1) [OF that] assms(2) by (simp add: abs_le_square_iff [symmetric])
  then have "(\<Sum>j<n. (f j)\<^sup>2) \<le> (\<Sum>j<n. c\<^sup>2)" by (intro sum_mono) simp
  then have "norm_upto n f \<le> sqrt (real n * c\<^sup>2)" by (simp add: norm_upto_def)
  then show ?thesis using assms(2) by (simp add: real_sqrt_mult)
qed

lemma norm_upto_scale: "0 \<le> c \<Longrightarrow> norm_upto n (\<lambda>j. c * f j) = c * norm_upto n f"
  by (simp add: norm_upto_def power_mult_distrib sum_distrib_left [symmetric] real_sqrt_mult)

lemma norm_upto_near:
  assumes "\<And>j. j < n \<Longrightarrow> \<bar>f j - g j\<bar> \<le> c" and "0 \<le> c"
  shows "\<bar>norm_upto n f - norm_upto n g\<bar> \<le> sqrt (real n) * c"
proof -
  have "norm_upto n f \<le> norm_upto n g + norm_upto n (\<lambda>j. f j - g j)"
    using norm_upto_triangle [of n g "\<lambda>j. f j - g j"] by simp
  moreover have "norm_upto n g \<le> norm_upto n f + norm_upto n (\<lambda>j. g j - f j)"
    using norm_upto_triangle [of n f "\<lambda>j. g j - f j"] by simp
  moreover have "norm_upto n (\<lambda>j. f j - g j) \<le> sqrt (real n) * c" "norm_upto n (\<lambda>j. g j - f j) \<le> sqrt (real n) * c"
    using assms by (auto intro!: norm_upto_bound simp: abs_minus_commute)
  ultimately show ?thesis by linarith
qed

section \<open>Integer and exact distance\<close>

text \<open>The exact distance of two vectors of features.\<close>

definition real_dist :: "f32 list \<Rightarrow> f32 list \<Rightarrow> real" where
  "real_dist x y = sqrt (\<Sum>j<DIMS. (f32_val (x ! j) - f32_val (y ! j))\<^sup>2)"

definition unit_vector :: "f32 list \<Rightarrow> bool" where
  "unit_vector x \<longleftrightarrow> (\<forall>j<DIMS. unit32 (x ! j))"

lemma unit32_val: "unit32 x \<Longrightarrow> \<not> is_nan32 x \<and> \<bar>f32_val x\<bar> \<le> 1"
proof
  assume u: "unit32 x"
  then show "\<not> is_nan32 x" using unit32_finite f32_finite_not_nan by blast
  have "mag_units binary32 1065353216 = 2 ^ 149" by (simp add: mag_units_def)
  moreover have "\<not> mag_units binary32 1065353216 < mag_units binary32 (mag (unpack32 x))"
    using u mag_units_less_iff [of 1065353216 binary32 "mag (unpack32 x)"] by (simp add: unit32_def)
  ultimately have "mag_units binary32 (mag (unpack32 x)) \<le> 2 ^ 149" by simp
  then have "real (mag_units binary32 (mag (unpack32 x))) \<le> real (2 ^ 149)" by (simp only: of_nat_le_iff)
  then show "\<bar>f32_val x\<bar> \<le> 1" by (simp add: f32_val_def f32_units_def fl_units_def divide_le_eq)
qed

lemma unit32_between: "0 \<le> x \<Longrightarrow> x \<le> 1 \<Longrightarrow> unit32 x" "unit32 (- 1)"
  by (auto simp: unit32_def f32_less_eq_iff f32_key_def fl_key_def is_nan32_iff split: if_splits)
    (simp_all add: uminus_f32_def unpack_pack32 fl_neg_def)

lemma level_dist_near:
  assumes "unit_vector x" and "unit_vector y"
    and "\<And>j. j < DIMS \<Longrightarrow> s ! j = quantize (x ! j)" and "\<And>j. j < DIMS \<Longrightarrow> q ! j = quantize (y ! j)"
  shows "\<bar>sqrt (real_of_int (sint (dist_int8 s q))) - 127 * real_dist x y\<bar> \<le> sqrt 14 * (1 + 1 / 2 ^ 17)"
proof -
  let ?lev = "\<lambda>j. real_of_int (sint (s ! j)) - real_of_int (sint (q ! j))"
  let ?val = "\<lambda>j. 127 * (f32_val (x ! j) - f32_val (y ! j))"
  have near: "\<bar>?lev j - ?val j\<bar> \<le> 1 + 1 / 2 ^ 17" if "j < DIMS" for j
  proof -
    have "\<bar>127 * f32_val a - real_of_int (sint (quantize a))\<bar> \<le> 1 / 2 + 1 / 2 ^ 18" if "unit32 a" for a
      using unit32_val [OF that] by (intro quantize_error_aux) simp_all
    then have "\<bar>127 * f32_val (x ! j) - real_of_int (sint (s ! j))\<bar> \<le> 1 / 2 + 1 / 2 ^ 18"
      "\<bar>127 * f32_val (y ! j) - real_of_int (sint (q ! j))\<bar> \<le> 1 / 2 + 1 / 2 ^ 18"
      using assms that by (simp_all add: unit_vector_def)
    moreover have "\<bar>(A - B) - 127 * (a - b)\<bar> \<le> 2 * e" if "\<bar>127 * a - A\<bar> \<le> e" "\<bar>127 * b - B\<bar> \<le> e"
      for a b A B e :: real using that by (simp add: abs_le_iff algebra_simps)
    ultimately show ?thesis by fastforce
  qed
  have "\<bar>norm_upto DIMS ?lev - norm_upto DIMS ?val\<bar> \<le> sqrt (real DIMS) * (1 + 1 / 2 ^ 17)"
    by (rule norm_upto_near [OF near]) simp_all
  moreover have "norm_upto DIMS ?lev = sqrt (real_of_int (sint (dist_int8 s q)))"
    by (simp add: norm_upto_def sint_dist_int8 sq_diff_sum_def)
  moreover have "norm_upto DIMS ?val = 127 * real_dist x y"
    by (subst norm_upto_scale) (simp_all add: norm_upto_def real_dist_def)
  moreover have "real DIMS = 14" by (simp add: DIMS_def)
  ultimately show ?thesis by simp
qed

text \<open>The bound in units of the features: a little under three hundredths.\<close>

lemma error_bound: "sqrt 14 * (1 + 1 / 2 ^ 17) / 127 \<le> (59 / 2000 :: real)"
proof -
  have "sqrt 14 \<le> sqrt ((3742 / 1000)\<^sup>2 :: real)" by (intro real_sqrt_le_mono) (simp add: power2_eq_square)
  then have "sqrt 14 \<le> (3742 / 1000 :: real)" by simp
  then have "sqrt 14 * (1 + 1 / 2 ^ 17) \<le> (3742 / 1000) * (1 + 1 / 2 ^ 17 :: real)" by (rule mult_right_mono) simp
  also have "\<dots> \<le> 59 / 2000 * 127" by simp
  finally show ?thesis by simp
qed

lemma level_dist_error:
  assumes "unit_vector x" and "unit_vector y"
    and "\<And>j. j < DIMS \<Longrightarrow> s ! j = quantize (x ! j)" and "\<And>j. j < DIMS \<Longrightarrow> q ! j = quantize (y ! j)"
  shows "\<bar>sqrt (real_of_int (sint (dist_int8 s q))) / 127 - real_dist x y\<bar> \<le> 59 / 2000"
proof -
  have "\<bar>sqrt (real_of_int (sint (dist_int8 s q))) / 127 - real_dist x y\<bar>
      = \<bar>sqrt (real_of_int (sint (dist_int8 s q))) - 127 * real_dist x y\<bar> / 127"
    by (simp add: abs_if field_simps)
  also have "\<dots> \<le> sqrt 14 * (1 + 1 / 2 ^ 17) / 127"
    by (rule divide_right_mono [OF level_dist_near [OF assms]]) simp_all
  finally show ?thesis using error_bound by linarith
qed

section \<open>Records\<close>

text \<open>The exact distance of a record to a query.\<close>

definition record_dist :: "f32 list \<Rightarrow> ref_line \<Rightarrow> real" where
  "record_dist query r = real_dist (take DIMS (rl_vector r)) query"

lemma record_dist_near:
  assumes "unit_records recs" and "r \<in> set (usable recs)" and "unit_vector query"
  shows "\<bar>sqrt (real_of_int (cand_key (record_candidate query r))) / 127 - record_dist query r\<bar> \<le> 59 / 2000"
proof -
  have "length (take DIMS (rl_vector r)) = DIMS \<and> (\<forall>x\<in>set (take DIMS (rl_vector r)). unit32 x)"
    using assms(1,2) by (auto simp: unit_records_def unit_rows_def)
  then have "unit_vector (take DIMS (rl_vector r))" by (metis nth_mem unit_vector_def)
  from level_dist_error [OF this assms(3), of "quantize_vec (take DIMS (rl_vector r))" "quantized_query query"]
  show ?thesis
    by (simp add: record_dist_def record_candidate_def quantize_vec_def quantize_scalar_eq quantized_query_def)
qed

text \<open>The records split into some that are near, in the number asked for or all, and the others.\<close>

definition near_records :: "f32 list \<Rightarrow> nat \<Rightarrow> ref_line list \<Rightarrow> ref_line multiset \<Rightarrow> bool" where
  "near_records query k rs near \<longleftrightarrow>
     near \<subseteq># mset rs \<and> size near = min k (length rs) \<and>
     (\<forall>r\<in>#near. \<forall>t\<in>#mset rs - near. record_dist query r \<le> record_dist query t + 59 / 1000)"

lemma k_smallest_near_records:
  assumes "unit_records recs" and "unit_vector query" and "set rs \<subseteq> set (usable recs)"
    and "k_smallest cand_key k (mset (map (record_candidate query) rs)) (mset cands)"
  obtains near where "near_records query k rs near"
    "length (filter c_fraud cands) = size {#r \<in># near. rl_label r = ''fraud''#}"
proof -
  obtain Y where Y: "image_mset (record_candidate query) (mset rs) = mset cands + Y"
    "\<forall>x\<in>#mset cands. \<forall>y\<in>#Y. cand_key x \<le> cand_key y"
    using assms(4) by (auto simp: k_smallest_split)
  then obtain near far where split: "mset rs = near + far"
    and near: "image_mset (record_candidate query) near = mset cands"
    and far: "image_mset (record_candidate query) far = Y" by (metis image_mset_eq_plusD)
  have le: "record_dist query r \<le> record_dist query t + 59 / 1000" if r: "r \<in># near" and t: "t \<in># far" for r t
  proof -
    have "record_candidate query r \<in># mset cands" "record_candidate query t \<in># Y"
      unfolding near [symmetric] far [symmetric] using r t by simp_all
    then have "cand_key (record_candidate query r) \<le> cand_key (record_candidate query t)" using Y(2) by blast
    then have "real_of_int (cand_key (record_candidate query r)) \<le> real_of_int (cand_key (record_candidate query t))"
      by (simp only: of_int_le_iff)
    then have "sqrt (real_of_int (cand_key (record_candidate query r))) / 127
        \<le> sqrt (real_of_int (cand_key (record_candidate query t))) / 127"
      by - (rule divide_right_mono, rule real_sqrt_le_mono, assumption, simp)
    moreover have "r \<in># mset rs" "t \<in># mset rs" using r t by (simp_all add: split)
    then have "r \<in> set (usable recs)" "t \<in> set (usable recs)" using assms(3) by auto
    from this [THEN record_dist_near [OF assms(1) _ assms(2)]]
    have "\<bar>sqrt (real_of_int (cand_key (record_candidate query r))) / 127 - record_dist query r\<bar> \<le> 59 / 2000"
      "\<bar>sqrt (real_of_int (cand_key (record_candidate query t))) / 127 - record_dist query t\<bar> \<le> 59 / 2000" .
    ultimately show ?thesis by linarith
  qed
  have "size near = length cands" using arg_cong [OF near, of size] by simp
  moreover have "length cands = min k (length rs)" using assms(4) by (simp add: k_smallest_def)
  ultimately have "near_records query k rs near"
    using le by (simp add: near_records_def split)
  moreover have "length (filter c_fraud cands) = size (filter_mset c_fraud (image_mset (record_candidate query) near))"
    by (simp add: near flip: size_mset)
  then have "length (filter c_fraud cands) = size {#r \<in># near. rl_label r = ''fraud''#}"
    by (simp add: filter_mset_image_mset record_candidate_def)
  ultimately show thesis by (rule that)
qed

text \<open>The features of a finite request are in the range where all this applies.\<close>

lemma vectorize_unit:
  assumes "rfc3339_contract parse" and "norm_ok nrm" and "request_finite req" and "risk_ok mcc"
    and "vectorize parse req nrm mcc = Inr v"
  shows "unit_vector v"
  unfolding unit_vector_def using vectorize_range_aux [OF assms] unit32_between by metis

section \<open>Properties\<close>

text \<open>C11: For features in \<open>[-1, 1]\<close> the integer distance of \<open>dist_int8\<close> between a stored vector and
  a query, scaled back, is within 0.0295 of their Euclidean distance.\<close>

theorem distance_accuracy:
  assumes "unit_vector x" and "unit_vector query"
  shows "\<bar>sqrt (real_of_int (sint (dist_int8 (quantize_vec x) (map (\<lambda>j. quantize (query ! j)) [0..<DIMS])))) / 127
    - sqrt (\<Sum>j<DIMS. (f32_val (x ! j) - f32_val (query ! j))\<^sup>2)\<bar> \<le> 59 / 2000"
  unfolding real_dist_def [symmetric]
  by (rule level_dist_error [OF assms]) (simp_all add: quantize_vec_def quantize_scalar_eq)

lemma unit_vector_replicate: "unit32 a \<Longrightarrow> unit_vector (replicate DIMS a)"
  by (simp add: unit_vector_def)

theorem distance_accuracy_witness:
  "\<bar>sqrt (real_of_int (sint (dist_int8 (quantize_vec (replicate DIMS 1)) (map (\<lambda>j. quantize (replicate DIMS (- 1) ! j)) [0..<DIMS])))) / 127
    - sqrt (\<Sum>j<DIMS. (f32_val (replicate DIMS 1 ! j) - f32_val (replicate DIMS (- 1) ! j))\<^sup>2)\<bar> \<le> 59 / 2000"
  by (rule distance_accuracy; rule unit_vector_replicate) (simp_all add: unit32_def uminus_f32_def unpack_pack32 fl_neg_def)

end
