(* ===== verification/Diag_Equiv.thy ===== *)
theory Diag_Equiv
  imports Diag_Spec
begin

text \<open>
  The search of the classifier against the one it replays: on the same index, for a query that both
  copies of \<open>quantize\<close> map alike, they go through the same states, so they return the same neighbours
  in the same order. The simulation is between the heaps: the classifier's holds triples, the
  searcher's what is left of them without the index.
\<close>

section \<open>Two sift-down loops that see the same keys\<close>

locale heap_projection =
  fine: max_heap key sift + coarse: max_heap key' sift'
  for key :: "'a \<Rightarrow> 'k::linorder" and sift and key' :: "'b \<Rightarrow> 'k" and sift' +
  fixes proj :: "'a \<Rightarrow> 'b"
  assumes key_proj: "key' (proj x) = key x"
begin

lemma map_sift: "map proj (sift h i) = sift' (map proj h) i"
proof (induction "length h - i" arbitrary: h i rule: less_induct)
  case less
  define l where "l = 2 * i + 1"
  define r where "r = 2 * i + 2"
  define g where "g = (if l < length h \<and> key (h ! i) < key (h ! l) then l else i)"
  define m where "m = (if r < length h \<and> key (h ! g) < key (h ! r) then r else g)"
  have fine: "sift h i = (if m = i then h else sift (h[i := h ! m, m := h ! i]) m)"
    by (subst fine.sift_rec) (simp add: Let_def l_def r_def g_def m_def)
  show ?case
  proof (cases "i < length h")
    case False
    then have "m = i" by (simp add: m_def g_def l_def r_def)
    moreover have "sift' (map proj h) i = map proj h"
      by (subst coarse.sift_rec) (use False in \<open>simp add: Let_def\<close>)
    ultimately show ?thesis using fine by simp
  next
    case True
    have g: "g < length h" using True by (simp add: g_def)
    have left: "(if l < length h \<and> key' (map proj h ! i) < key' (map proj h ! l) then l else i) = g"
      using True by (simp add: g_def key_proj cong: conj_cong)
    have right: "(if r < length h \<and> key' (map proj h ! g) < key' (map proj h ! r) then r else g) = m"
      using g by (simp add: m_def key_proj cong: conj_cong)
    have coarse: "sift' (map proj h) i = (if m = i then map proj h
        else sift' ((map proj h)[i := map proj h ! m, m := map proj h ! i]) m)"
      by (subst coarse.sift_rec) (simp only: Let_def length_map l_def [symmetric] r_def [symmetric] left right)
    show ?thesis
    proof (cases "m = i")
      case False
      then have m: "i < m" "m < length h" using g by (auto simp: m_def g_def l_def r_def split: if_splits)
      then have "map proj (sift (h[i := h ! m, m := h ! i]) m) = sift' (map proj (h[i := h ! m, m := h ! i])) m"
        by (intro less) simp
      then show ?thesis using fine coarse m True by (simp add: map_update)
    qed (simp add: fine coarse)
  qed
qed

lemma map_heapify: "map proj (foldl sift h is) = foldl sift' (map proj h) is"
  by (induction "is" arbitrary: h) (simp_all add: map_sift)

end

definition cand_of :: "diag_cand \<Rightarrow> candidate" where
  "cand_of = (\<lambda>(_, d, fraud). \<lparr>c_dist = d, c_fraud = fraud\<rparr>)"

interpretation forget: heap_projection diag_key sift_down_max_cands cand_key sift_down_max cand_of
  by unfold_locales (simp add: cand_of_def split: prod.split)

section \<open>The scans\<close>

definition map_outcome :: "('a \<Rightarrow> 'b) \<Rightarrow> 'e + 'a \<Rightarrow> 'e + 'b" where
  "map_outcome f m = and_then m (\<lambda>x. Inr (f x))"

lemma map_outcome_simps [simp]: "map_outcome f (Inr x) = Inr (f x)" "map_outcome f (Inl e) = Inl e"
  by (simp_all add: map_outcome_def)

lemma diag_offer_cand_of: "map_outcome (map cand_of) (diag_offer h x) = offer 5 (map cand_of h) (cand_of x)"
proof -
  have key: "cand_key (cand_of y) = diag_key y" for y by (rule forget.key_proj)
  have "map cand_of (heapify_max_cands (h @ [x])) = heapify_max (map cand_of h @ [cand_of x])"
    by (simp add: heapify_max_cands_def heapify_max_def forget.map_heapify)
  moreover have "map cand_of (sift_down_max_cands (h[0 := x]) 0) = sift_down_max ((map cand_of h)[0 := cand_of x]) 0"
    by (simp only: forget.map_sift map_update)
  ultimately show ?thesis
    by (cases h) (simp_all add: diag_offer_def offer_def K_def Let_def key at_index_def)
qed

lemma try_fold_simulation:
  assumes "\<And>s x. map_outcome f (step s x) = step' (f s) (g x)"
  shows "map_outcome f (try_fold step s xs) = try_fold step' (f s) (map g xs)"
proof (induction xs arbitrary: s)
  case (Cons x xs)
  have "try_fold step' (f s) (map g (x # xs))
      = and_then (map_outcome f (step s x)) (\<lambda>s'. try_fold step' s' (map g xs))" by (simp add: assms)
  then show ?case by (cases "step s x") (simp_all add: Cons.IH)
qed simp

lemma diag_candidate_cand_of: "cand_of (diag_candidate v q i) = candidate_of v q i"
  by (simp add: cand_of_def diag_candidate_def candidate_of_def)

lemma diagnostic_search_simulates:
  assumes contracts: "select_contract sel" "sort_contract srt" and v: "diag_views x v" "views s v" "ivf_ok v"
    and probes: "probes s = PROBES" and levels: "\<forall>j<DIMS. quantize_diag (query ! j) = quantize (query ! j)"
  obtains r ds where "diagnostic_search sel srt x query = Inr r"
    "search sel srt s query 5 buf = Inr (map (\<lambda>(_, _, fraud). \<lparr>n_fraud = fraud\<rparr>) (returned_neighbors r),
       \<lparr>buf_cent_dists = ds, buf_cands = map cand_of (returned_neighbors r)\<rparr>)"
    "probed_cluster_indices r = map cd_idx (take (unat (min PROBES (num_cents s))) ds)"
    "ivf_fraud_count r = length (filter (\<lambda>(_, _, fraud). fraud) (returned_neighbors r))"
proof -
  let ?p = "min (unat (probes s)) (length (i_cents v))"
  have n: "x_num_cents x = num_cents s" "unat (num_cents s) = length (i_cents v)"
    using v(1,2) by (simp_all add: diag_views_def views_def word_unat_eq_iff)
  have pr: "unat (min PROBES (num_cents s)) = ?p"
    by (simp add: probes n(2) [symmetric] min_def word_le_nat_alt)
  have "0 < unat (probes s) \<or> i_cents v = []" by (simp add: probes PROBES_def)
  from nearest_first_clusters [OF contracts v(2,3) this refl] obtain ds where
    ds: "nearest_first sel srt cmp_cent_dist (min PROBES (num_cents s)) (cent_dist_list v query) = Inr ds"
    "length ds = length (i_cents v)" "\<forall>d\<in>set ds. cd_idx d < length (i_cents v)"
    unfolding probes by blast
  let ?near = "map cd_idx (take ?p ds)" and ?q = "quantized_query query"
  have q: "map (\<lambda>i. quantize_diag (query ! i)) [0..<DIMS] = ?q"
    using levels by (simp add: quantized_query_def)
  have near: "\<forall>ci\<in>set ?near. ci < length (i_cents v)" using ds(3) by (auto dest: in_set_takeD)
  let ?vis = "concat (map (cluster_range v) ?near)"
  obtain h where h: "try_fold diag_offer [] (map (diag_candidate v ?q) ?vis) = Inr h"
    using diag_best.scan_spec [of "map (diag_candidate v ?q) ?vis"] by (auto simp: list_all_iff)
  let ?r = "\<lparr>probed_cluster_indices = ?near, scanned_vector_indices = ?vis, returned_neighbors = h,
    ivf_fraud_count = length (filter (\<lambda>(_, _, fraud). fraud) h)\<rparr>"
  have "map cand_of (map (diag_candidate v ?q) ?vis) = scanned v query ?near"
    by (simp add: scanned_def map_concat diag_candidate_cand_of comp_def)
  with try_fold_simulation [of "map cand_of" diag_offer "offer 5" cand_of "[]" "map (diag_candidate v ?q) ?vis",
      OF diag_offer_cand_of] h
  have scan: "try_fold (offer 5) [] (scanned v query ?near) = Inr (map cand_of h)" by simp
  have frauds: "(\<lambda>c. \<lparr>n_fraud = c_fraud c\<rparr>) \<circ> cand_of = (\<lambda>(_, _, fraud). \<lparr>n_fraud = fraud\<rparr>)"
    by (auto simp: cand_of_def)
  have "search sel srt s query 5 buf = Inr (map (\<lambda>(_, _, fraud). \<lparr>n_fraud = fraud\<rparr>) h,
      \<lparr>buf_cent_dists = ds, buf_cands = map cand_of h\<rparr>)"
    using search_on_view [OF v(2,3) ds(1) [folded probes] ds(2) _ refl] ds(3) by (simp add: scan frauds)
  moreover have "try_fold (diag_scan_cluster x ?q) ([], []) ?near = Inr (?vis, h)"
    using diag_scan_all [OF v(1,3) near, of ?q "[]" "[]"] h by simp
  then have "diagnostic_search sel srt x query = Inr ?r"
    unfolding diagnostic_search_def Let_def all_cent_dists_eq [OF v(1)] and_then_simps n(1) ds(1) q pr by simp
  ultimately show thesis by (intro that [of ?r ds]) (simp_all add: pr)
qed

section \<open>The two copies of \<open>quantize\<close>\<close>

text \<open>Truncation of the product with 127, where \<open>quant_level\<close> rounds it.\<close>

definition trunc_level :: "nat \<Rightarrow> nat" where
  "trunc_level m = mag_units binary32 (round_mag binary32 (127 * mag_units binary32 m) 1) div 2 ^ 149"

lemma sint_quantize_diag:
  "sint (quantize_diag x) =
     (if is_nan32 x then 0
      else (if neg (unpack32 x) then -1 else 1) * int (min 127 (trunc_level (mag (unpack32 x)))))"
proof (cases "is_nan32 x")
  case True
  then have "unpack32 (x * QUANT_SCALE) = fl_nan binary32"
    by (simp add: unpack32_ops(3) fl_mul_def is_nan32_def)
  then show ?thesis using True
    by (simp add: quantize_diag_def Let_def f32_less_iff is_nan32_iff sint_f32_to_i8 fl_to_int_def fl_is_nan_def)
next
  case False
  let ?P = "round_mag binary32 (127 * mag_units binary32 (mag (unpack32 x))) 1"
  have P: "?P \<le> 2139095040" by (simp add: round_mag_eq)
  note v = unpack32_scaled [OF False]
  show ?thesis
  proof (cases "1123942400 < ?P")
    case True
    then have "mag_units binary32 1123942400 < mag_units binary32 ?P"
      using P by (subst mag_units_less_iff) simp_all
    then have "127 \<le> trunc_level (mag (unpack32 x))" by (simp add: trunc_level_def less_eq_div_iff_mult_less_eq)
    then show ?thesis using False v P True
      by (simp add: quantize_diag_def Let_def f32_less_iff is_nan32_iff f32_key_def fl_key_def min_def)
  next
    case small: False
    then have "\<not> mag_units binary32 1123942400 < mag_units binary32 ?P"
      using mag_units_less_iff [of 1123942400 binary32 ?P] by simp
    then have "mag_units binary32 ?P div 2 ^ 149 \<le> 127 * 2 ^ 149 div 2 ^ 149" by (intro div_le_mono) simp
    then have "trunc_level (mag (unpack32 x)) \<le> 127" by (simp add: trunc_level_def)
    then show ?thesis using False v small
      by (auto simp: quantize_diag_def Let_def f32_less_iff is_nan32_iff f32_key_def fl_key_def sint_f32_to_i8
          fl_to_int_def fl_is_nan_def fl_is_inf_def trunc_level_def min_def max_def)
  qed
qed

lemma level_cases: "quant_level m = trunc_level m \<or> quant_level m = trunc_level m + 1"
proof -
  define U where "U = mag_units binary32 (round_mag binary32 (127 * mag_units binary32 m) 1)"
  define d where "d = U div 2 ^ 149"
  have "d * 2 ^ 149 \<le> U" "U < Suc d * 2 ^ 149"
    using div_times_less_eq_dividend [of U "2 ^ 149"] dividend_less_div_times [of "2 ^ 149" U] by (simp_all add: d_def)
  then have "d * 2 ^ 150 \<le> 2 * U + 2 ^ 149" "2 * U + 2 ^ 149 < (d + 2) * 2 ^ 150" by simp_all
  then have "d \<le> (2 * U + 2 ^ 149) div 2 ^ 150" "(2 * U + 2 ^ 149) div 2 ^ 150 < d + 2"
    by (simp_all add: less_eq_div_iff_mult_less_eq div_less_iff_less_mult)
  then show ?thesis unfolding quant_level_def trunc_level_def U_def [symmetric] d_def [symmetric] by linarith
qed

section \<open>Properties\<close>

text \<open>C18: On an index that \<open>write_index\<close> wrote, the classifier's reader and search agree with the service
  probing three clusters, whenever both copies of \<open>quantize\<close> map the entries of the query alike: the same
  clusters in the same order, the same candidates at the same places of the heap, so the same neighbours
  in the same order and the same number of frauds.\<close>

theorem diagnostic_search_replays:
  assumes "select_contract sel" and "sort_contract srt"
    and "write_index dev path centroids clusters nv nc dp fs = Inr fs'"
    and "rows_ok centroids clusters" and "list_all (list_all f32_finite) centroids"
    and "unat nc = length centroids" and "unat nv = sizes_sum clusters"
    and "layout_size (length centroids) (sizes_sum clusters) < 2 ^ 64"
    and "\<forall>j<DIMS. quantize_diag (query ! j) = quantize (query ! j)"
  shows "\<exists>s x r ds. load fs' path 3 = Inr s \<and> diag_load fs' path = Inr (Inr x) \<and>
    diagnostic_search sel srt x query = Inr r \<and>
    probed_cluster_indices r = map cd_idx (take (min 3 (length centroids)) ds) \<and>
    search sel srt s query 5 buf = Inr (map (\<lambda>(_, _, fraud). \<lparr>n_fraud = fraud\<rparr>) (returned_neighbors r),
      \<lparr>buf_cent_dists = ds, buf_cands = map (\<lambda>(_, d, fraud). \<lparr>c_dist = d, c_fraud = fraud\<rparr>) (returned_neighbors r)\<rparr>) \<and>
    ivf_fraud_count r = length (filter (\<lambda>(_, _, fraud). fraud) (returned_neighbors r))"
proof -
  have bytes: "fs' path = Some (index_bytes centroids clusters nv nc dp)"
    using write_index_Inr_aux [OF assms(3)] by simp
  obtain x where x: "diag_load fs' path = Inr (Inr x)" "diag_views x (ivf_of centroids clusters)"
    by (rule diag_load_written [where fs = fs' and path = path, OF bytes assms(4-8)])
  obtain s where s: "load fs' path 3 = Inr s" "views s (ivf_of centroids clusters)" "probes s = PROBES"
    using load_written [where fs = fs' and path = path and r = 3, OF bytes assms(4,6,7,8)] by (auto simp: PROBES_def)
  have "sizes_sum clusters < 2 ^ 64" using assms(8) by (simp add: layout_size_def)
  then have ok: "ivf_ok (ivf_of centroids clusters)" by (rule ivf_of_ok [OF assms(4,5)])
  have "unat (num_cents s) = length centroids" using s(2) by (simp add: views_def ivf_of_def)
  then have pr: "unat (min PROBES (num_cents s)) = min 3 (length centroids)"
    by (simp add: PROBES_def min_def word_le_nat_alt)
  show ?thesis
    by (rule diagnostic_search_simulates [OF assms(1,2) x(2) s(2) ok s(3) assms(9), where buf = buf])
      (use s(1) x(1) in \<open>auto simp: pr cand_of_def\<close>)
qed

theorem diagnostic_search_replays_witness:
  "\<exists>fs' s x r buf'. write_index demo_device ''i'' demo_cents demo_clusters 2 2 1 Map.empty = Inr fs' \<and>
    load fs' ''i'' 3 = Inr s \<and> diag_load fs' ''i'' = Inr (Inr x) \<and>
    diagnostic_search insertion_select insertion_sort x (replicate DIMS 1) = Inr r \<and>
    search insertion_select insertion_sort s (replicate DIMS 1) 5 \<lparr>buf_cent_dists = [], buf_cands = []\<rparr>
      = Inr (map (\<lambda>(_, _, fraud). \<lparr>n_fraud = fraud\<rparr>) (returned_neighbors r), buf')"
proof -
  have "quantize_diag 1 = quantize 1"
    by (simp add: quantize_diag_def quantize_def QUANT_SCALE_def Let_def float_eval)
  then have "\<forall>j<DIMS. quantize_diag (replicate DIMS 1 ! j) = quantize (replicate DIMS 1 ! j)" by simp
  from diagnostic_search_replays [OF insertion_contracts demo_write demo_ok(1-5) this, of Map.empty]
    demo_write [of Map.empty] show ?thesis by blast
qed

text \<open>C38: The classifier's copy of \<open>quantize\<close>, said to replicate search.rs exactly, truncates where the searcher
  rounds: for every float its level is that of the searcher or the next one towards zero, and one half
  is level 63 there and level 64 in the index and the search.\<close>

theorem quantize_copies_differ:
  "quantize_diag (F32 0x3f000000) = 63 \<and> quantize (F32 0x3f000000) = 64 \<and>
   \<bar>sint (quantize x) - sint (quantize_diag x)\<bar> \<le> 1 \<and> \<bar>sint (quantize_diag x)\<bar> \<le> \<bar>sint (quantize x)\<bar>"
proof (intro conjI)
  show "quantize_diag (F32 0x3f000000) = 63" "quantize (F32 0x3f000000) = 64"
    by (simp_all add: quantize_diag_def quantize_def QUANT_SCALE_def Let_def float_eval)
  show "\<bar>sint (quantize x) - sint (quantize_diag x)\<bar> \<le> 1" "\<bar>sint (quantize_diag x)\<bar> \<le> \<bar>sint (quantize x)\<bar>"
    using level_cases [of "mag (unpack32 x)"] by (auto simp: sint_quantize sint_quantize_diag min_def)
qed

end
