(* ===== verification/Diag_Adapter.thy ===== *)
theory Diag_Adapter
  imports Unwrapper
begin

text \<open>
  The classifier's own copy of \<open>JsonArrayUnwrapper\<close> (classify_mismatches.rs), as it is written there,
  and that it reads as the builder's does: one step of the loop at a time, for every chunking of
  the input, every buffer and every failure of the inner reader.
\<close>

section \<open>The code\<close>

record 'e adapter =
  ad_inner :: "'e read_event list"
  ad_started :: bool
  ad_depth :: i32
  ad_done :: bool

definition adapter_new :: "'e read_event list \<Rightarrow> 'e adapter" where
  "adapter_new r = \<lparr>ad_inner = r, ad_started = False, ad_depth = 0, ad_done = False\<rparr>"

text \<open>One byte: \<open>None\<close> for \<open>continue\<close>, otherwise the byte to store; whether the loop breaks is in
  \<open>ad_done\<close>.\<close>

definition adapter_byte :: "u8 \<Rightarrow> 'e adapter \<Rightarrow> u8 option \<times> 'e adapter" where
  "adapter_byte b a =
     (if \<not> ad_started a then (None, if b = 0x5B then a\<lparr>ad_started := True\<rparr> else a)
      else if b = 0x7B \<or> b = 0x5B then (Some b, a\<lparr>ad_depth := ad_depth a + 1\<rparr>)
      else if (b = 0x7D \<or> b = 0x5D) \<and> sint (ad_depth a) > 0 then (Some b, a\<lparr>ad_depth := ad_depth a - 1\<rparr>)
      else if b = 0x5D then (None, a\<lparr>ad_done := True\<rparr>)
      else if b = 0x2C \<and> ad_depth a = 0 then (Some 0x20, a)
      else (Some b, a))"

fun adapter_loop :: "nat list \<Rightarrow> u8 list \<Rightarrow> nat \<Rightarrow> 'e adapter \<Rightarrow> u8 list \<times> nat \<times> 'e adapter" where
  "adapter_loop [] buf out_pos a = (buf, out_pos, a)"
| "adapter_loop (i # is) buf out_pos a =
     (case adapter_byte (buf ! i) a of
        (None, a') \<Rightarrow> if ad_done a' then (buf, out_pos, a') else adapter_loop is buf out_pos a'
      | (Some c, a') \<Rightarrow> adapter_loop is (buf[out_pos := c]) (out_pos + 1) a')"

lemma adapter_loop_inner: "ad_inner (snd (snd (adapter_loop is buf out_pos a))) = ad_inner a"
proof (induction "is" buf out_pos a rule: adapter_loop.induct)
  case (2 i "is" buf out_pos a)
  have "ad_inner (snd (adapter_byte (buf ! i) a)) = ad_inner a" by (simp add: adapter_byte_def)
  with 2 show ?case by (auto split: prod.split option.split)
qed simp

lemma adapter_loop_keeps: "(buf', out_pos', a') = adapter_loop is buf out_pos a \<Longrightarrow> ad_inner a' = ad_inner a"
  using adapter_loop_inner [of "is" buf out_pos a] by (metis snd_conv)

function adapter_read_loop :: "nat \<Rightarrow> 'e adapter \<Rightarrow> ('e + u8 list) \<times> 'e adapter" where
  "adapter_read_loop k a =
     (case inner_read k (ad_inner a) of
        (Inl e, es) \<Rightarrow> (Inl e, a\<lparr>ad_inner := es\<rparr>)
      | (Inr buf, es) \<Rightarrow>
          if buf = [] then (Inr [], a\<lparr>ad_inner := es, ad_done := True\<rparr>)
          else (case adapter_loop [0..<length buf] buf 0 (a\<lparr>ad_inner := es\<rparr>) of
            (buf', out_pos, a') \<Rightarrow>
              if 0 < out_pos \<or> ad_done a' then (Inr (take out_pos buf'), a')
              else adapter_read_loop k a'))"
  by pat_completeness auto
termination
  by (relation "measure (\<lambda>(k, a). events_size (ad_inner a))") (auto simp: adapter_loop_keeps intro: inner_read_size [OF sym])

declare adapter_read_loop.simps [simp del]

definition adapter_read :: "nat \<Rightarrow> 'e adapter \<Rightarrow> ('e + u8 list) \<times> 'e adapter" where
  "adapter_read k a = (if ad_done a \<or> k = 0 then (Inr [], a) else adapter_read_loop k a)"

text \<open>A caller that reads until it gets nothing, as in the builder.\<close>

fun adapter_read_to_end :: "nat list \<Rightarrow> 'e adapter \<Rightarrow> 'e + (u8 list \<times> bool)" where
  "adapter_read_to_end [] a = Inr ([], False)"
| "adapter_read_to_end (k # ks) a =
     (case adapter_read k a of
        (Inl e, a') \<Rightarrow> Inl e
      | (Inr bs, a') \<Rightarrow>
          if bs = [] then Inr ([], True)
          else and_then (adapter_read_to_end ks a') (\<lambda>(rest, at_end). Inr (bs @ rest, at_end)))"

section \<open>The simulation\<close>

definition scan_of :: "'e adapter \<Rightarrow> scan_state" where
  "scan_of a = \<lparr>started = ad_started a, depth = ad_depth a, finished = ad_done a\<rparr>"

definition unwrapper_of :: "'e adapter \<Rightarrow> 'e unwrapper" where
  "unwrapper_of a = \<lparr>inner = ad_inner a, scan = scan_of a\<rparr>"

lemma loop_simulation:
  assumes "\<not> ad_done a" and "i \<le> n" and "adapter_loop [i..<n] buf out_pos a = (buf', out_pos', a')"
  shows "rewrite_loop i n buf out_pos (scan_of a) = (buf', out_pos', scan_of a')"
  using assms
proof (induction "n - i" arbitrary: i buf out_pos a)
  case 0
  then show ?case by (simp add: rewrite_loop.simps)
next
  case (Suc m)
  then have i: "i < n" "m = n - (i + 1)" "[i..<n] = i # [i + 1..<n]" by (simp_all add: upt_conv_Cons)
  obtain c a1 where b: "adapter_byte (buf ! i) a = (c, a1)" by (cases "adapter_byte (buf ! i) a")
  have step: "scan_byte (scan_of a) (buf ! i) = ((case c of None \<Rightarrow> [] | Some x \<Rightarrow> [x]), scan_of a1)"
    using b Suc.prems(1) by (auto simp: adapter_byte_def scan_byte_def scan_of_def byte_consts split: if_splits)
  note loop = rewrite_loop_step [OF i(1) _ step, of out_pos]
  have "\<not> finished (scan_of a)" using Suc.prems(1) by (simp add: scan_of_def)
  note loop = loop [OF this]
  have some: "\<not> ad_done a1" if "c \<noteq> None"
    using b Suc.prems(1) that by (auto simp: adapter_byte_def split: if_splits)
  show ?case
  proof (cases "ad_done a1")
    case True
    then show ?thesis using Suc.prems(3) b loop some by (cases c) (auto simp: i(3) scan_of_def)
  next
    case False
    then show ?thesis
      using Suc.hyps(1) [OF i(2) False, of _ _] Suc.prems(3) b loop i by (cases c) (auto simp: scan_of_def)
  qed
qed

lemma read_loop_simulation:
  assumes "\<not> ad_done a" and "adapter_read_loop k a = (r, a')"
  shows "unwrapper_read_loop k (unwrapper_of a) = (r, unwrapper_of a')"
  using assms
proof (induction k a arbitrary: r a' rule: adapter_read_loop.induct)
  case (1 k a)
  obtain x es where x: "inner_read k (ad_inner a) = (x, es)" by (rule prod.exhaust)
  show ?case
  proof (cases x)
    case (Inl e)
    then show ?thesis using 1(3) x
      by (subst unwrapper_read_loop.simps, subst (asm) adapter_read_loop.simps) (auto simp: unwrapper_of_def scan_of_def)
  next
    case (Inr buf)
    show ?thesis
    proof (cases "buf = []")
      case True
      then show ?thesis using 1(3) x Inr
        by (subst unwrapper_read_loop.simps, subst (asm) adapter_read_loop.simps) (auto simp: unwrapper_of_def scan_of_def)
    next
      case False
      obtain buf' out_pos b where loop: "adapter_loop [0..<length buf] buf 0 (a\<lparr>ad_inner := es\<rparr>) = (buf', out_pos, b)"
        by (metis prod_cases3)
      have inner: "ad_inner b = es" using adapter_loop_keeps [OF loop [symmetric]] by simp
      have sim: "rewrite_loop 0 (length buf) buf 0 (scan_of a) = (buf', out_pos, scan_of b)"
        using loop_simulation [OF _ _ loop] 1(2) by (simp add: scan_of_def)
      have up: "unwrapper_of b = (unwrapper_of a)\<lparr>inner := es, scan := scan_of b\<rparr>"
        by (simp add: unwrapper_of_def inner)
      have old: "unwrapper_read_loop k (unwrapper_of a) = (if 0 < out_pos \<or> ad_done b
          then (Inr (take out_pos buf'), unwrapper_of b) else unwrapper_read_loop k (unwrapper_of b))"
        using x Inr False sim inner by (subst unwrapper_read_loop.simps) (simp add: up unwrapper_of_def scan_of_def)
      have new: "adapter_read_loop k a = (if 0 < out_pos \<or> ad_done b then (Inr (take out_pos buf'), b) else adapter_read_loop k b)"
        using x Inr False loop by (subst adapter_read_loop.simps) simp
      show ?thesis
        using 1(1) [OF x [symmetric] Inr False loop [symmetric] refl] 1(3) old new by (auto split: if_splits)
    qed
  qed
qed

lemma read_simulation:
  assumes "adapter_read k a = (r, a')"
  shows "unwrapper_read k (unwrapper_of a) = (r, unwrapper_of a')"
proof (cases "ad_done a \<or> k = 0")
  case True
  then show ?thesis using assms by (auto simp: adapter_read_def unwrapper_read_def unwrapper_of_def scan_of_def)
next
  case False
  then have "unwrapper_read k (unwrapper_of a) = unwrapper_read_loop k (unwrapper_of a)"
    by (simp add: unwrapper_read_def unwrapper_of_def scan_of_def)
  then show ?thesis using False read_loop_simulation [of a k r a'] assms by (simp add: adapter_read_def)
qed

lemma read_to_end_simulation: "adapter_read_to_end ks a = read_to_end ks (unwrapper_of a)"
proof (induction ks arbitrary: a)
  case (Cons k ks)
  obtain r a' where r: "adapter_read k a = (r, a')" by (rule prod.exhaust)
  show ?case using Cons read_simulation [OF r] by (simp add: r split: sum.split)
qed simp

section \<open>Properties\<close>

text \<open>C15: The classifier's copy of the adapter is the builder's: read with any buffers over any inner reader,
  in whatever chunks and with whatever failures, both deliver the same bytes or the same error.\<close>

theorem adapter_copies_agree:
  "adapter_read_to_end ks (adapter_new es) = read_to_end ks (unwrapper_new es)"
  by (simp add: read_to_end_simulation unwrapper_of_def scan_of_def adapter_new_def unwrapper_new_def)

end
