(* ===== verification/Spec2Isabelle.thy ===== *)
theory Spec2Isabelle
  imports Classify_Main Calibrate Server Accuracy Diag_Equiv Diag_Adapter
begin

text \<open>
  Verification of the fraud detection service of rinha-2026-rust: the HTTP service, the builder of
  its index and its two offline tools, all under src/rust-api/src.

  The parts and how they meet. The builder (bin/buildindex.rs) reads a compressed JSON array of
  labelled vectors twice: it samples and clusters them with k-means, then assigns every vector to
  its nearest centroid, and writes the clusters, quantized to 8 bits, into one index file. The
  service (main.rs) loads that file (search.rs), turns each request into 14 features (vectorize.rs),
  searches five nearest vectors in the clusters nearest to the query, and answers with one of six
  fixed bodies; timing.rs keeps histograms of the phases. The classifier
  (bin/classify_mismatches.rs) explains wrong answers by comparing an instrumented search with an
  exact one, and bin/calibrate_probes.rs counts wrong answers over a test set. The components share
  the index format and the searcher's state only.

  Theories. Prelude: outcomes of code that may panic, slices, fallible loops. Ieee: \<open>f32\<close> and \<open>f64\<close>
  with correctly rounded operations; Std_Text: parsing of numbers. Slice_Order: the contracts of the
  library's sort and selection. Quantize and Top_K: quantization, distance and the bounded heap of
  search.rs. Searcher: \<open>Searcher::load\<close> and \<open>search\<close>. Bytes, Index_Writer, Index_Format: the bytes
  of \<open>write_index\<close> and what \<open>load\<close> makes of them. Search_Properties: the properties of these.
  Vectorize: vectorize.rs. Timing: timing.rs, one call as well as its atomic steps in any
  interleaving, with the values recorded in it. Handler: the handlers and start-up of main.rs; Server: its routes, sockets and
  accept loop. Unwrapper: the adapter that turns a JSON array into a stream of values. Flag_Loop and
  Cli: loops over command lines, and that of the builder. KMeans: \<open>kmeans\<close>. Build: both passes and
  \<open>main\<close> of the builder. Pipeline: a build, what it leaves, and which records a search of it sees. Diag_Search, Diag_Spec: the searches
  of the classifier; Classify: its decision and its loop; Classify_Main: its \<open>main\<close>. Calibrate:
  calibrate_probes.rs. Accuracy: what quantization costs, in exact arithmetic. Diag_Equiv: the
  search of the classifier against that of the service; Diag_Adapter: its copy of the array adapter.
  Demo_Index and the last section of each theory hold concrete inputs.

  State and operations. A struct is a record with the fields of the code, a \<open>usize\<close> or \<open>u64\<close> a
  64-bit word, an \<open>i32\<close> a 32-bit word read by \<open>sint\<close>; a panic, a process exit and an undefined read
  are values of \<open>fault\<close>. The mapped file is its list of bytes, and \<open>slice::from_raw_parts\<close> is a
  slice that is \<open>RawOutOfBounds\<close> past the end. The thread-local buffer and the metrics are passed
  along. A state of the running service holds the connections with what was answered on each, the
  buffers of the threads and the metrics; its steps are those of the accept loop and of the
  handlers.

  What the lemmas show. The interfaces are locales, interpreted on the code's definitions:
  \<open>max_heap\<close> and \<open>k_best\<close> (offering candidates one by one keeps k smallest; the heap of search.rs,
  the heap of triples and the sorted list of the classifier), the little-endian codecs, the two flag
  loops, \<open>heap_projection\<close> (two sift-down loops that see the same keys). From them: search with
  at least one probe returns k nearest vectors of the probed clusters; a written index loads as it
  was written; the builder puts a record into the cluster of its nearest centroid, so that a search
  of a built index sees exactly the usable records whose nearest centroid is probed, all of them only
  when every cluster is (the service as shipped probes 50 of 1000); in every reachable state of the
  service each score answered is the entry of the number of frauds among five nearest of those, and,
  for sane constants and finite amounts, a record of the probed clusters left out is nearer than one
  counted by at most 0.059 in the exact distance of the features; the classifier over a built index
  gets through and lists true neighbours, and its classes follow from the clusters and counts it
  lists; where its \<open>quantize\<close> agrees with that of the service its search returns the same
  neighbours in the same order; the counters and histograms count what they say. Where the code does not do what it means to, the property states what it does: size checks
  that wrap around, probe counts of zero, braces in strings, corpus positions taken for index
  positions.

  Bounds. Counts of records are below \<open>2^53\<close>, where k-means still counts them exactly in \<open>f64\<close>;
  clusters below \<open>2^32\<close>, the width of the header field; file sizes below \<open>2^64\<close>; the bytes of an
  array below \<open>2^31\<close>, the range of the depth counter; calibration queries below \<open>2^31\<close>. Loops are
  recursive functions with measures. The adapter, read through a caller's buffers, is shown to
  deliver its whole output in finitely many reads.

  Parameters. The library's unstable sort and selection (by their contracts, met by an insertion
  sort), serde_json's parsers and serializer, the RFC 3339 parser of chrono, decompression, the
  random generator and shuffle, and a device that decides which files can be created and how long
  they get.

  Not modelled: the unit tests (the module of vectorize.rs does not compile: its helper builds a
  request without the field \<open>id\<close>); HTTP parsing and the scheduling of tokio, hyper and axum, beyond what the steps say
  (a request is one step, a panic ends its connection); progress messages, elapsed times and the
  padding of printed columns; the alignment of file buffers that are read as \<open>f32\<close> or \<open>u64\<close>;
  vendored crates.
\<close>

section \<open>From records to answers\<close>

text \<open>C4: A build over a readable array of records with features in \<open>[-1, 1]\<close>, on a device with room
  for its files, succeeds; and the index it writes, loaded and searched with as many probes as
  there are clusters, returns \<open>k\<close> nearest of all usable records, by the integer distance
  between the quantized query and the quantized record, as a scan of the records themselves would.\<close>

theorem build_then_search_exhaustive:
  assumes "select_contract sel" and "sort_contract srt" and "shuffle_contract (shuffle L)"
    and "build_input L fs a recs"
    and "device_takes dev (out_path a) (unat (num_centroids a)) (length (usable recs))"
    and "0 < k" and "unat (num_centroids a) \<le> unat (if r > 0 then r else ucast (ucast (default_probes a) :: u32) :: usize)"
  shows "\<exists>fs' s cands buf'. build L dev a fs = Inr fs' \<and> load fs' (out_path a) r = Inr s \<and>
    search sel srt s query k buf = Inr (map (\<lambda>c. \<lparr>n_fraud = c_fraud c\<rparr>) cands, buf') \<and>
    k_smallest cand_key k (mset (map (record_candidate query) (usable recs))) (mset cands)"
proof -
  obtain fs' where fs': "build L dev a fs = Inr fs'"
    by (rule build_succeeds [OF assms(3,4,5)])
  obtain centroids s where s: "length centroids = unat (num_centroids a)" "unit_rows centroids"
    "load fs' (out_path a) r = Inr s" "views s (built_ivf centroids recs)"
    "probes s = (if r > 0 then r else ucast (ucast (default_probes a) :: u32))"
    by (rule build_loads [OF assms(3,4) fs'])
  have "unat (num_centroids a) \<le> unat (probes s)" unfolding s(5) by (rule assms(7))
  from build_search [OF assms(1,2,4) s(1,2,4) assms(6) this] fs' s(3) show ?thesis by blast
qed

definition demo_args :: args where
  "demo_args = default_args\<lparr>in_path := ''g'', out_path := ''o'', num_centroids := 2, sample_rate := 1\<rparr>"

definition demo_disk :: file_system where
  "demo_disk = [''g'' \<mapsto> demo_gz]"

definition roomy_device :: device where
  "roomy_device = \<lparr>can_create = \<lambda>_. True, accepts = \<lambda>_ _. True\<rparr>"

lemma demo_build_ok:
  "shuffle_contract (shuffle demo_libs)" "build_input demo_libs demo_disk demo_args demo_recs"
  "device_takes roomy_device path n m"
proof -
  show "shuffle_contract (shuffle demo_libs)" by (simp add: shuffle_contract_def demo_libs_def)
  show "device_takes roomy_device path n m"
    by (simp add: device_takes_def roomy_device_def accepts_upto_def)
  obtain reader where r: "open_gz_array demo_libs demo_disk ''g'' = Inr reader" "records demo_libs reader = map Inr demo_recs"
    unfolding demo_disk_def by (rule demo_reader)
  have "\<forall>g. \<not> (1 :: f64) \<le> fst (random_f64 demo_libs g)" by (simp add: demo_libs_def float_eval)
  with sample_records [of demo_libs 1 "[]" "()" demo_recs] r
  have "\<exists>rng'. read_sample demo_libs demo_disk ''g'' 1 () = Inr ([replicate DIMS 1, replicate DIMS 0], rng')"
    by (auto simp: read_sample_def demo_recs_def)
  then show "build_input demo_libs demo_disk demo_args demo_recs"
    using r by (auto simp: build_input_def demo_args_def demo_recs_def demo_libs_def unit_records_def unit_rows_def unit32_def)
qed

theorem build_then_search_exhaustive_witness:
  "\<exists>fs' s cands buf'. build demo_libs roomy_device demo_args demo_disk = Inr fs' \<and>
    load fs' ''o'' 75 = Inr s \<and>
    search insertion_select insertion_sort s (replicate DIMS 1) 5 \<lparr>buf_cent_dists = [], buf_cands = []\<rparr>
      = Inr (map (\<lambda>c. \<lparr>n_fraud = c_fraud c\<rparr>) cands, buf') \<and>
    k_smallest cand_key 5 (mset (map (record_candidate (replicate DIMS 1)) demo_recs)) (mset cands)"
proof -
  have "unat (num_centroids demo_args) \<le> unat (if (75::usize) > 0 then 75 else ucast (ucast (default_probes demo_args) :: u32) :: usize)"
    by (simp add: demo_args_def)
  from build_then_search_exhaustive [OF insertion_contracts demo_build_ok _ this, of 5]
  show ?thesis by (simp add: demo_args_def demo_recs_def)
qed

text \<open>What a service started on the file of a build holds: the index of the build, and the number of
  probes of its environment or, where that is 0, the one of the header.\<close>

lemma started_on_build:
  assumes "shuffle_contract (shuffle L)" and "build_input L fs a recs" and "build L dev a fs = Inr fs'"
    and "env ''INDEX_PATH'' = Some (out_path a)"
    and "startup env fs' norm_from_str mcc_from_str = Inr (state, m, l)"
  obtains centroids n where "length centroids = unat (num_centroids a)" "unit_rows centroids"
    "views (a_searcher state) (built_ivf centroids recs)"
    "parse_usize (env_var env ''IVF_PROBES'' ''75'') = Some n"
    "probes (a_searcher state) = (if n > 0 then n else ucast (ucast (default_probes a) :: u32))"
proof -
  obtain n where n: "parse_usize (env_var env ''IVF_PROBES'' ''75'') = Some n"
    "load fs' (out_path a) n = Inr (a_searcher state)"
    using startup_serves_aux [OF assms(5)] assms(4) by (auto simp: env_var_def)
  obtain centroids s where "length centroids = unat (num_centroids a)" "unit_rows centroids"
    "load fs' (out_path a) n = Inr s" "views s (built_ivf centroids recs)"
    "probes s = (if n > 0 then n else ucast (ucast (default_probes a) :: u32))"
    by (rule build_loads [OF assms(1-3)])
  with n show thesis by (intro that [of centroids n]) simp_all
qed

text \<open>Without probes a score request panics; with them it is answered from the clusters probed.\<close>

lemma vectorize_answers:
  assumes "rfc3339_contract parse_time"
  obtains query where "vectorize parse_time req nrm mcc = Inr query"
proof -
  obtain t where "tx_time_of parse_time (t_requested_at (r_transaction req)) = Inr t"
    by (rule tx_time_of_ok [OF assms])
  from vectorize_eq [OF this] that show thesis by blast
qed

lemma score_without_probes:
  assumes "select_contract sel" and "rfc3339_contract parse_time" and "views (a_searcher state) v" and "ivf_ok v"
    and "i_cents v \<noteq> []" and "probes (a_searcher state) = 0" and "from_slice body = Some req"
  shows "fraud_score sel srt parse_time from_slice state el body w = Inl IndexPanic"
proof -
  obtain query where "vectorize parse_time req (a_norm state) (a_mcc_risk state) = Inr query"
    by (rule vectorize_answers [OF assms(2)])
  then show ?thesis
    using search_zero_probes_panics_aux [OF assms(1,3,4,6,5)] assms(7) by (simp add: fraud_score_def Let_def)
qed

lemma built_service_score:
  assumes "select_contract sel" and "sort_contract srt" and "rfc3339_contract parse_time"
    and "build_input L fs a recs" and "length centroids = unat (num_centroids a)" and "unit_rows centroids"
    and "views (a_searcher state) (built_ivf centroids recs)" and "from_slice body = Some req"
    and "fraud_score sel srt parse_time from_slice state el body w = Inr (x, w')"
  obtains query near cands where "vectorize parse_time req (a_norm state) (a_mcc_risk state) = Inr query"
    "nearest_clusters (built_ivf centroids recs) query
       (min (unat (probes (a_searcher state))) (unat (num_centroids a))) near"
    "k_smallest cand_key 5 (mset (map (record_candidate query) (probed centroids recs near))) (mset cands)"
    "unat (num_centroids a) \<le> unat (probes (a_searcher state)) \<longrightarrow> probed centroids recs near = usable recs"
    "x = Json (RESPONSES ! length (filter c_fraud cands))"
proof -
  note ok = built_ivf_ok [OF assms(4-6)]
  have "probes (a_searcher state) \<noteq> 0"
  proof
    assume "probes (a_searcher state) = 0"
    from score_without_probes [where from_slice = from_slice and body = body,
        OF assms(1,3,7) ok(1) _ this assms(8)] ok(2,3) assms(9) show False by simp
  qed
  then have "0 < unat (probes (a_searcher state))" by (simp add: unat_gt_0)
  from fraud_score_answers_aux [where from_slice = from_slice and body = body and el = el and w = w,
      OF assms(1-3,7) ok(1) this assms(8)] assms(9)
  obtain query near cands where q: "vectorize parse_time req (a_norm state) (a_mcc_risk state) = Inr query"
    and near: "nearest_clusters (built_ivf centroids recs) query
       (min (unat (probes (a_searcher state))) (unat (num_centroids a))) near"
    and k: "k_smallest cand_key 5 (mset (scanned (built_ivf centroids recs) query near)) (mset cands)"
    and x: "x = Json (RESPONSES ! length (filter c_fraud cands))"
    by (auto simp: ok(2) assms(5))
  note rs = build_search_probed [OF assms(4-6) near]
  show thesis by (rule that [OF q near _ _ x]) (use k rs in simp_all)
qed

lemma decimal_0: "decimal 0 = ''0''"
  by (simp add: decimal.simps char_of_def bit_0)

abbreviation demo_env_vars :: "nat \<Rightarrow> string \<rightharpoonup> string" where
  "demo_env_vars n \<equiv> [''INDEX_PATH'' \<mapsto> ''o'', ''NORM_PATH'' \<mapsto> ''g'', ''MCC_RISK_PATH'' \<mapsto> ''g'', ''IVF_PROBES'' \<mapsto> decimal n]"

lemma demo_start:
  assumes "build_input demo_libs demo_disk a demo_recs" and "out_path a = ''o''" and "n < 2 ^ 64"
  obtains fs' state m l where "build demo_libs roomy_device a demo_disk = Inr fs'"
    "startup (demo_env_vars n) fs' (\<lambda>_. Some demo_norm) (\<lambda>_. Some Map.empty) = Inr (state, m, l)"
    "probes (a_searcher state) = (if n > 0 then word_of_nat n else ucast (ucast (default_probes a) :: u32))"
    "\<nexists>p addr. l = Uds p addr" "a_norm state = demo_norm" "a_mcc_risk state = Map.empty"
proof -
  obtain fs' where fs': "build demo_libs roomy_device a demo_disk = Inr fs'"
    by (rule build_succeeds [OF demo_build_ok(1) assms(1) demo_build_ok(3)])
  let ?start = "startup (demo_env_vars n) fs' (\<lambda>_. Some demo_norm) (\<lambda>_. Some Map.empty)"
  have pos: "(0 :: usize) < word_of_nat n \<longleftrightarrow> 0 < n"
    using assms(3) by (simp add: word_less_nat_alt unat_of_nat)
  obtain s where s: "load fs' ''o'' (word_of_nat n) = Inr s"
    "probes s = (if n > 0 then word_of_nat n else ucast (ucast (default_probes a) :: u32))"
    using build_loads [OF demo_build_ok(1) assms(1) fs', of "word_of_nat n"] by (auto simp: assms(2) pos)
  have "fs' ''g'' = demo_disk ''g''"
    by (rule build_keeps [OF fs']) (simp_all add: assms(2) raw_f32_path_def ends_with_def)
  then obtain data where "fs' ''g'' = Some data" by (auto simp: demo_disk_def)
  have env: "parse_usize (env_var (demo_env_vars n) ''IVF_PROBES'' ''75'') = Some (word_of_nat n)"
    "env_var (demo_env_vars n) ''INDEX_PATH'' ''/data/index.ivf.bin'' = ''o''"
    "env_var (demo_env_vars n) ''NORM_PATH'' ''/data/normalization.json'' = ''g''"
    "env_var (demo_env_vars n) ''MCC_RISK_PATH'' ''/data/mcc_risk.json'' = ''g''"
    "env_var (demo_env_vars n) ''SOCKET_PATH'' [] = []"
    using parse_usize_decimal [of n] assms(3) by (simp_all add: env_var_def)
  from \<open>fs' ''g'' = Some data\<close> obtain m l where
    "?start = Inr (\<lparr>a_searcher = s, a_norm = demo_norm, a_mcc_risk = Map.empty\<rparr>, m, l)" "\<nexists>p addr. l = Uds p addr"
    unfolding startup_def env expect_def Let_def by (simp add: s(1))
  from that [OF fs' this(1) _ this(2)] show thesis by (simp add: s(2))
qed

text \<open>A score request answered in a reachable state was answered by the handler.\<close>

lemma reachable_score:
  assumes "(serve_step A uds)\<^sup>*\<^sup>* (server_start m n) s"
    and "(False, (POST, ''/fraud-score'', body, r)) \<in> set (exchanges s)" and "length body \<le> BODY_LIMIT"
  obtains el w w' x where "r = Answer x" "fraud_score (ap_select A) (ap_sort A) (ap_parse_time A) (ap_from_slice A)
    (ap_state A) el body w = Inr (x, w')"
proof -
  have "from_router A (False, (POST, ''/fraud-score'', body, r))"
    using reachable_exchanges [OF assms(1)] assms(2) by blast
  then obtain el w w' where "app_route A POST ''/fraud-score'' body el w = Inr (r, w')"
    by (auto simp: from_router_def)
  moreover have "\<not> BODY_LIMIT < length body" using assms(3) by simp
  ultimately show thesis using that by (auto simp: app_route_def and_then_eq_Inr)
qed

text \<open>C31: A service that never answers: an index built with a probe count that is a multiple of
  \<open>2^32\<close>, 0 included, has 0 in its header, because \<open>main\<close> cuts the number to 32 bits. A service told
  by \<open>IVF_PROBES=0\<close> to use the count of the header starts on it, but every search panics, and in no
  state it can reach has a request got a score, while \<open>/ready\<close> answers 200.\<close>

theorem built_index_without_probes:
  assumes "select_contract (ap_select A)" and "rfc3339_contract (ap_parse_time A)"
    and "shuffle_contract (shuffle L)" and "build_input L fs a recs" and "build L dev a fs = Inr fs'"
    and "(ucast (default_probes a) :: u32) = 0"
    and "env ''INDEX_PATH'' = Some (out_path a)" and "env ''IVF_PROBES'' = Some ''0''"
    and "startup env fs' norm_from_str mcc_from_str = Inr (ap_state A, m, l)"
    and "(serve_step A (\<exists>p addr. l = Uds p addr))\<^sup>*\<^sup>* (server_start m n) s"
  shows "(\<forall>query k buf. search (ap_select A) (ap_sort A) (a_searcher (ap_state A)) query k buf = Inl IndexPanic) \<and>
    (\<forall>health meth path body b. (health, (meth, path, body, Answer (Json b))) \<notin> set (exchanges s)) \<and>
    app_route A GET ''/ready'' body el w = Inr (Answer (Status 200), w)"
proof -
  obtain centroids p where c: "length centroids = unat (num_centroids a)" "unit_rows centroids"
    and v: "views (a_searcher (ap_state A)) (built_ivf centroids recs)"
    and p: "parse_usize (env_var env ''IVF_PROBES'' ''75'') = Some p"
    "probes (a_searcher (ap_state A)) = (if p > 0 then p else ucast (ucast (default_probes a) :: u32))"
    by (rule started_on_build [OF assms(3,4,5,7,9)])
  note ok = built_ivf_ok [OF assms(4) c]
  have "parse_usize ''0'' = Some 0" using parse_usize_decimal [of 0] by (simp add: decimal_0)
  then have "p = 0" using p(1) assms(8) by (simp add: env_var_def)
  then have z: "probes (a_searcher (ap_state A)) = 0" by (simp only: p(2) assms(6)) simp
  have ne: "i_cents (built_ivf centroids recs) \<noteq> []" using ok(2,3) by simp
  have "search (ap_select A) (ap_sort A) (a_searcher (ap_state A)) query k buf = Inl IndexPanic" for query k buf
    by (rule search_zero_probes_panics_aux [OF assms(1) v ok(1) z ne])
  moreover have "(health, (meth, path, body, Answer (Json b))) \<notin> set (exchanges s)" for health meth path body b
  proof
    assume "(health, (meth, path, body, Answer (Json b))) \<in> set (exchanges s)"
    then have r: "from_router A (health, (meth, path, body, Answer (Json b)))"
      using reachable_exchanges [OF assms(10)] by blast
    show False
    proof (cases health)
      case True
      then show False using r by (auto simp: from_router_def health_route_def ready_def split: if_splits)
    next
      case False
      then obtain el w w' where
        "fraud_score (ap_select A) (ap_sort A) (ap_parse_time A) (ap_from_slice A) (ap_state A) el body w = Inr (Json b, w')"
        using r by (auto simp: from_router_def app_route_def ready_def and_then_eq_Inr split: if_splits)
      moreover from this obtain req where "ap_from_slice A body = Some req"
        by (auto simp: fraud_score_def split: option.splits)
      from score_without_probes [where from_slice = "ap_from_slice A" and body = body, OF assms(1,2) v ok(1) ne z this]
      have "fraud_score (ap_select A) (ap_sort A) (ap_parse_time A) (ap_from_slice A) (ap_state A) el body w
        = Inl IndexPanic" .
      ultimately show False by simp
    qed
  qed
  ultimately show ?thesis by (simp add: app_route_def ready_def)
qed

theorem built_index_without_probes_witness:
  "\<exists>fs' state m l. build demo_libs roomy_device (demo_args\<lparr>default_probes := 4294967296\<rparr>) demo_disk = Inr fs' \<and>
    startup (demo_env_vars 0) fs' (\<lambda>_. Some demo_norm) (\<lambda>_. Some Map.empty) = Inr (state, m, l) \<and>
    search insertion_select insertion_sort (a_searcher state) (replicate DIMS 1) 5 \<lparr>buf_cent_dists = [], buf_cands = []\<rparr> = Inl IndexPanic"
proof -
  let ?a = "demo_args\<lparr>default_probes := 4294967296\<rparr>"
  have ok: "build_input demo_libs demo_disk ?a demo_recs" "out_path ?a = ''o''"
    using demo_build_ok(2) by (simp_all add: build_input_def demo_args_def)
  obtain fs' state m l where st: "build demo_libs roomy_device ?a demo_disk = Inr fs'"
    "startup (demo_env_vars 0) fs' (\<lambda>_. Some demo_norm) (\<lambda>_. Some Map.empty) = Inr (state, m, l)"
    using demo_start [OF ok, of 0] by (metis zero_less_numeral zero_less_power)
  let ?A = "\<lparr>ap_select = insertion_select, ap_sort = insertion_sort, ap_parse_time = demo_parse,
     ap_from_slice = (\<lambda>_. None), ap_cfs = Map.empty, ap_state = state\<rparr> :: app"
  have A: "select_contract (ap_select ?A)" "rfc3339_contract (ap_parse_time ?A)"
    "startup (demo_env_vars 0) fs' (\<lambda>_. Some demo_norm) (\<lambda>_. Some Map.empty) = Inr (ap_state ?A, m, l)"
    using insertion_contracts(1) demo_request_ok(1) st(2) by simp_all
  have "demo_env_vars 0 ''INDEX_PATH'' = Some (out_path ?a)" "demo_env_vars 0 ''IVF_PROBES'' = Some ''0''"
    "(ucast (default_probes ?a) :: u32) = 0" by (simp_all add: ok(2) decimal_0)
  from built_index_without_probes [OF A(1,2) demo_build_ok(1) ok(1) st(1) this(3,1,2) A(3) rtranclp.rtrancl_refl]
  have "search insertion_select insertion_sort (a_searcher state) (replicate DIMS 1) 5
      \<lparr>buf_cent_dists = [], buf_cands = []\<rparr> = Inl IndexPanic" by simp
  then show ?thesis using st by blast
qed

text \<open>C1: The whole service over a built index, as it runs. When it starts on the file a build left,
  it probes as many clusters as \<open>IVF_PROBES\<close> says, 75 if unset, or the header if that is 0. In every
  state it can reach, over any interleaving of connections on any threads, each score request of at
  most 2 MB that was answered and parses got the table entry of the number of frauds among five
  nearest of the usable records whose nearest centroid is one of the probed ones, nearest to the
  features of the request; these are all usable records when every cluster is probed.\<close>

theorem built_service_run:
  assumes "select_contract (ap_select A)" and "sort_contract (ap_sort A)" and "rfc3339_contract (ap_parse_time A)"
    and "shuffle_contract (shuffle L)" and "build_input L fs a recs" and "build L dev a fs = Inr fs'"
    and "env ''INDEX_PATH'' = Some (out_path a)"
    and "startup env fs' norm_from_str mcc_from_str = Inr (ap_state A, m, l)"
    and "(serve_step A (\<exists>p addr. l = Uds p addr))\<^sup>*\<^sup>* (server_start m n) s"
    and "(False, (POST, ''/fraud-score'', body, r)) \<in> set (exchanges s)"
    and "length body \<le> BODY_LIMIT" and "ap_from_slice A body = Some req"
  shows "\<exists>centroids p query near cands.
    views (a_searcher (ap_state A)) (built_ivf centroids recs) \<and> length centroids = unat (num_centroids a) \<and>
    parse_usize (env_var env ''IVF_PROBES'' ''75'') = Some p \<and>
    probes (a_searcher (ap_state A)) = (if p > 0 then p else ucast (ucast (default_probes a) :: u32)) \<and>
    vectorize (ap_parse_time A) req (a_norm (ap_state A)) (a_mcc_risk (ap_state A)) = Inr query \<and>
    nearest_clusters (built_ivf centroids recs) query
      (min (unat (probes (a_searcher (ap_state A)))) (unat (num_centroids a))) near \<and>
    k_smallest cand_key 5 (mset (map (record_candidate query) (probed centroids recs near))) (mset cands) \<and>
    (unat (num_centroids a) \<le> unat (probes (a_searcher (ap_state A))) \<longrightarrow> probed centroids recs near = usable recs) \<and>
    r = Answer (Json (RESPONSES ! length (filter c_fraud cands)))"
proof -
  obtain centroids p where c: "length centroids = unat (num_centroids a)" "unit_rows centroids"
    and v: "views (a_searcher (ap_state A)) (built_ivf centroids recs)"
    and p: "parse_usize (env_var env ''IVF_PROBES'' ''75'') = Some p"
    "probes (a_searcher (ap_state A)) = (if p > 0 then p else ucast (ucast (default_probes a) :: u32))"
    by (rule started_on_build [OF assms(4-8)])
  obtain el w w' x where x: "r = Answer x" "fraud_score (ap_select A) (ap_sort A) (ap_parse_time A) (ap_from_slice A)
      (ap_state A) el body w = Inr (x, w')" by (rule reachable_score [OF assms(9-11)])
  show ?thesis
    by (rule built_service_score [where from_slice = "ap_from_slice A" and body = body,
          OF assms(1-3,5) c v assms(12) x(2)])
      (use c(1) v p x(1) in blast)
qed

lemma demo_service:
  obtains fs' A m l s r where "build demo_libs roomy_device demo_args demo_disk = Inr fs'"
    "demo_env_vars 1 ''INDEX_PATH'' = Some (out_path demo_args)"
    "startup (demo_env_vars 1) fs' (\<lambda>_. Some demo_norm) (\<lambda>_. Some Map.empty) = Inr (ap_state A, m, l)"
    "probes (a_searcher (ap_state A)) = 1"
    "a_norm (ap_state A) = demo_norm" "a_mcc_risk (ap_state A) = Map.empty"
    "select_contract (ap_select A)" "sort_contract (ap_sort A)" "ap_parse_time A = demo_parse"
    "ap_from_slice A [1] = Some (demo_request ''yesterday'' None)"
    "(serve_step A (\<exists>p addr. l = Uds p addr))\<^sup>*\<^sup>* (server_start m 1) s"
    "(False, POST, ''/fraud-score'', [1], r) \<in> set (exchanges s)"
proof -
  have path: "out_path demo_args = ''o''" by (simp add: demo_args_def)
  obtain fs' state m l where st: "build demo_libs roomy_device demo_args demo_disk = Inr fs'"
    "startup (demo_env_vars 1) fs' (\<lambda>_. Some demo_norm) (\<lambda>_. Some Map.empty) = Inr (state, m, l)"
    "probes (a_searcher state) = 1" "\<nexists>p addr. l = Uds p addr"
    "a_norm state = demo_norm" "a_mcc_risk state = Map.empty"
    by (rule demo_start [OF demo_build_ok(2) path, of 1]) simp_all
  let ?A = "\<lparr>ap_select = insertion_select, ap_sort = insertion_sort, ap_parse_time = demo_parse,
     ap_from_slice = (\<lambda>_. Some (demo_request ''yesterday'' None)), ap_cfs = Map.empty, ap_state = state\<rparr> :: app"
  let ?el = "\<lparr>el_parse = 1, el_vectorize = 1, el_search = 1, el_total = 3\<rparr>"
  have env: "demo_env_vars 1 ''INDEX_PATH'' = Some (out_path demo_args)" by (simp add: path)
  obtain centroids p where c: "length centroids = unat (num_centroids demo_args)" "unit_rows centroids"
    "views (a_searcher state) (built_ivf centroids demo_recs)"
    by (rule started_on_build [OF demo_build_ok(1,2) st(1) env st(2)])
  have "app_ok ?A (built_ivf centroids demo_recs)"
    using insertion_contracts demo_request_ok(1) c(3) built_ivf_ok(1) [OF demo_build_ok(2) c(1,2)] st(3)
    by (simp add: app_ok_def)
  from app_route_total [OF this] obtain r w where
    "app_route ?A POST ''/fraud-score'' [1] ?el \<lparr>w_metrics = m, w_buf = \<lparr>buf_cent_dists = [], buf_cands = []\<rparr>\<rparr> = Inr (r, w)"
    by blast
  then obtain s where s: "(serve_step ?A False)\<^sup>*\<^sup>* (server_start m 1) s"
    "sv_conns s = [\<lparr>cn_health = False, cn_open = True, cn_log = [(POST, ''/fraud-score'', [1], r)]\<rparr>]"
    by (rule first_request)
  have "(\<exists>p addr. l = Uds p addr) = False" using st(4) by blast
  with that [of fs' ?A m l s r] st insertion_contracts env s show thesis by (simp add: exchanges_def)
qed

text \<open>One of two clusters probed.\<close>

theorem built_service_run_witness:
  "\<exists>fs' A m l s r query centroids near cands. build demo_libs roomy_device demo_args demo_disk = Inr fs' \<and>
    startup (demo_env_vars 1) fs' (\<lambda>_. Some demo_norm) (\<lambda>_. Some Map.empty) = Inr (ap_state A, m, l) \<and>
    (serve_step A (\<exists>p addr. l = Uds p addr))\<^sup>*\<^sup>* (server_start m 1) s \<and>
    (False, POST, ''/fraud-score'', [1], r) \<in> set (exchanges s) \<and>
    nearest_clusters (built_ivf centroids demo_recs) query 1 near \<and>
    k_smallest cand_key 5 (mset (map (record_candidate query) (probed centroids demo_recs near))) (mset cands) \<and>
    r = Answer (Json (RESPONSES ! length (filter c_fraud cands)))"
proof (rule demo_service)
  fix fs' and A :: app and m l s r assume st: "build demo_libs roomy_device demo_args demo_disk = Inr fs'"
    "demo_env_vars 1 ''INDEX_PATH'' = Some (out_path demo_args)"
    "startup (demo_env_vars 1) fs' (\<lambda>_. Some demo_norm) (\<lambda>_. Some Map.empty) = Inr (ap_state A, m, l)"
    and p: "probes (a_searcher (ap_state A)) = 1"
    and A: "select_contract (ap_select A)" "sort_contract (ap_sort A)" "ap_parse_time A = demo_parse"
    "ap_from_slice A [1] = Some (demo_request ''yesterday'' None)"
    and s: "(serve_step A (\<exists>p addr. l = Uds p addr))\<^sup>*\<^sup>* (server_start m 1) s"
    "(False, POST, ''/fraud-score'', [1], r) \<in> set (exchanges s)"
  have parse: "rfc3339_contract (ap_parse_time A)" by (simp only: A(3) demo_request_ok(1))
  have "length [1 :: u8] \<le> BODY_LIMIT" by (simp add: BODY_LIMIT_def)
  moreover have m: "min (unat (probes (a_searcher (ap_state A)))) (unat (num_centroids demo_args)) = 1"
    by (simp add: p demo_args_def)
  ultimately obtain centroids query near cands where "nearest_clusters (built_ivf centroids demo_recs) query 1 near"
    "k_smallest cand_key 5 (mset (map (record_candidate query) (probed centroids demo_recs near))) (mset cands)"
    "r = Answer (Json (RESPONSES ! length (filter c_fraud cands)))"
    using built_service_run [OF A(1,2) parse demo_build_ok(1,2) st s _ A(4)] unfolding m by blast
  with st(1,3) s show ?thesis by blast
qed

text \<open>C2: How right the answers are: when the service runs as above, with sane constants in its two
  configuration files, and a request carries finite amounts, its score counts the frauds among five
  of the records of the probed clusters such that none of these records left out is nearer by more
  than 0.059, in the Euclidean distance of the features computed exactly. Nothing is said of the
  clusters not probed; when every cluster is, the records are all usable ones.\<close>

theorem built_service_accurate:
  assumes "select_contract (ap_select A)" and "sort_contract (ap_sort A)" and "rfc3339_contract (ap_parse_time A)"
    and "shuffle_contract (shuffle L)" and "build_input L fs a recs" and "build L dev a fs = Inr fs'"
    and "env ''INDEX_PATH'' = Some (out_path a)"
    and "startup env fs' norm_from_str mcc_from_str = Inr (ap_state A, m, l)"
    and "(serve_step A (\<exists>p addr. l = Uds p addr))\<^sup>*\<^sup>* (server_start m n) s"
    and "(False, (POST, ''/fraud-score'', body, r)) \<in> set (exchanges s)"
    and "length body \<le> BODY_LIMIT" and "ap_from_slice A body = Some req"
    and "norm_ok (a_norm (ap_state A))" and "risk_ok (a_mcc_risk (ap_state A))" and "request_finite req"
  shows "\<exists>centroids query clusters near.
    views (a_searcher (ap_state A)) (built_ivf centroids recs) \<and> length centroids = unat (num_centroids a) \<and>
    vectorize (ap_parse_time A) req (a_norm (ap_state A)) (a_mcc_risk (ap_state A)) = Inr query \<and>
    nearest_clusters (built_ivf centroids recs) query
      (min (unat (probes (a_searcher (ap_state A)))) (unat (num_centroids a))) clusters \<and>
    (let rs = probed centroids recs clusters
     in near \<subseteq># mset rs \<and> size near = min 5 (length rs) \<and>
        (\<forall>x\<in>#near. \<forall>y\<in>#mset rs - near. record_dist query x \<le> record_dist query y + 59 / 1000) \<and>
        (unat (num_centroids a) \<le> unat (probes (a_searcher (ap_state A))) \<longrightarrow> rs = usable recs)) \<and>
    r = Answer (Json (RESPONSES ! size {#x \<in># near. rl_label x = ''fraud''#}))"
proof -
  obtain centroids p where c: "length centroids = unat (num_centroids a)" "unit_rows centroids"
    and v: "views (a_searcher (ap_state A)) (built_ivf centroids recs)"
    by (rule started_on_build [OF assms(4-8)])
  obtain el w w' x where x: "r = Answer x" "fraud_score (ap_select A) (ap_sort A) (ap_parse_time A) (ap_from_slice A)
      (ap_state A) el body w = Inr (x, w')" by (rule reachable_score [OF assms(9-11)])
  obtain query clusters cands where
    q: "vectorize (ap_parse_time A) req (a_norm (ap_state A)) (a_mcc_risk (ap_state A)) = Inr query"
    and near: "nearest_clusters (built_ivf centroids recs) query
      (min (unat (probes (a_searcher (ap_state A)))) (unat (num_centroids a))) clusters"
    and k: "k_smallest cand_key 5 (mset (map (record_candidate query) (probed centroids recs clusters))) (mset cands)"
    and all: "unat (num_centroids a) \<le> unat (probes (a_searcher (ap_state A))) \<longrightarrow> probed centroids recs clusters = usable recs"
    and r: "x = Json (RESPONSES ! length (filter c_fraud cands))"
    by (rule built_service_score [where from_slice = "ap_from_slice A" and body = body,
          OF assms(1-3,5) c v assms(12) x(2)])
  have "unit_vector query" by (rule vectorize_unit [OF assms(3,13,15,14) q])
  moreover have "unit_records recs" using assms(5) by (simp add: build_input_def)
  moreover have "set (probed centroids recs clusters) \<subseteq> set (usable recs)" by (auto simp: probed_def)
  ultimately obtain near where "near_records query 5 (probed centroids recs clusters) near"
    "length (filter c_fraud cands) = size {#r \<in># near. rl_label r = ''fraud''#}"
    using k_smallest_near_records [OF _ _ _ k] by blast
  with near c(1) v q all x(1) r show ?thesis
    unfolding near_records_def Let_def
    by (intro exI [of _ centroids] exI [of _ query] exI [of _ clusters] exI [of _ near] conjI impI) simp_all
qed

theorem built_service_accurate_witness:
  "\<exists>fs' A m l s r query rs near. build demo_libs roomy_device demo_args demo_disk = Inr fs' \<and>
    startup (demo_env_vars 1) fs' (\<lambda>_. Some demo_norm) (\<lambda>_. Some Map.empty) = Inr (ap_state A, m, l) \<and>
    (serve_step A (\<exists>p addr. l = Uds p addr))\<^sup>*\<^sup>* (server_start m 1) s \<and>
    (False, POST, ''/fraud-score'', [1], r) \<in> set (exchanges s) \<and> near \<subseteq># mset rs \<and> size near = min 5 (length rs) \<and>
    (\<forall>x\<in>#near. \<forall>y\<in>#mset rs - near. record_dist query x \<le> record_dist query y + 59 / 1000) \<and>
    r = Answer (Json (RESPONSES ! size {#x \<in># near. rl_label x = ''fraud''#}))"
proof (rule demo_service)
  fix fs' and A :: app and m l s r assume st: "build demo_libs roomy_device demo_args demo_disk = Inr fs'"
    "demo_env_vars 1 ''INDEX_PATH'' = Some (out_path demo_args)"
    "startup (demo_env_vars 1) fs' (\<lambda>_. Some demo_norm) (\<lambda>_. Some Map.empty) = Inr (ap_state A, m, l)"
    and n: "a_norm (ap_state A) = demo_norm" "a_mcc_risk (ap_state A) = Map.empty"
    and A: "select_contract (ap_select A)" "sort_contract (ap_sort A)" "ap_parse_time A = demo_parse"
    "ap_from_slice A [1] = Some (demo_request ''yesterday'' None)"
    and s: "(serve_step A (\<exists>p addr. l = Uds p addr))\<^sup>*\<^sup>* (server_start m 1) s"
    "(False, POST, ''/fraud-score'', [1], r) \<in> set (exchanges s)"
  have ok: "rfc3339_contract (ap_parse_time A)" "norm_ok (a_norm (ap_state A))" "risk_ok (a_mcc_risk (ap_state A))"
    by (simp_all only: A(3) n demo_request_ok)
  have "length [1 :: u8] \<le> BODY_LIMIT" by (simp add: BODY_LIMIT_def)
  from built_service_accurate [OF A(1,2) ok(1) demo_build_ok(1,2) st s this A(4) ok(2,3) demo_request_ok(4)] st(1,3) s
  show ?thesis unfolding Let_def by blast
qed

text \<open>C3: The service that starts on the file of a build is well-typed: the sections of the mapped index
  are as many rows of 14 finite numbers as there are clusters, as many vectors and labels as there
  are usable records, and offsets within them; and if it probes at all, no request whatever makes it
  panic.\<close>

theorem built_service_typed:
  assumes "select_contract (ap_select A)" and "sort_contract (ap_sort A)" and "rfc3339_contract (ap_parse_time A)"
    and "shuffle_contract (shuffle L)" and "build_input L fs a recs" and "build L dev a fs = Inr fs'"
    and "env ''INDEX_PATH'' = Some (out_path a)"
    and "startup env fs' norm_from_str mcc_from_str = Inr (ap_state A, m, l)"
  shows "(\<exists>v. views (a_searcher (ap_state A)) v \<and> ivf_ok v \<and> unit_rows (i_cents v) \<and>
      length (i_cents v) = unat (num_centroids a) \<and> length (i_vecs v) = length (usable recs)) \<and>
    (probes (a_searcher (ap_state A)) \<noteq> 0 \<longrightarrow>
      (\<forall>meth path body el w. \<exists>reply w'. app_route A meth path body el w = Inr (reply, w')))"
proof -
  obtain centroids n where c: "length centroids = unat (num_centroids a)" "unit_rows centroids"
    and v: "views (a_searcher (ap_state A)) (built_ivf centroids recs)"
    by (rule started_on_build [OF assms(4-8)])
  note sizes = build_sizes [OF assms(5) c] and ok = built_ivf_ok [OF assms(5) c]
  have "length (i_vecs (built_ivf centroids recs)) = length (usable recs)"
    using sizes(3) by (simp add: built_ivf_def ivf_of_def length_concat_clusters)
  moreover have "\<exists>reply w'. app_route A meth path body el w = Inr (reply, w')"
    if "probes (a_searcher (ap_state A)) \<noteq> 0" for meth path body el w
    using assms(1-3) v ok(1) that by (intro app_route_total [of A "built_ivf centroids recs"]) (simp add: app_ok_def unat_gt_0)
  ultimately show ?thesis using c v ok(1,2) by (intro conjI exI [of _ "built_ivf centroids recs"]) simp_all
qed

theorem built_service_typed_witness:
  "\<exists>fs' A m l v. build demo_libs roomy_device demo_args demo_disk = Inr fs' \<and>
    startup (demo_env_vars 1) fs' (\<lambda>_. Some demo_norm) (\<lambda>_. Some Map.empty) = Inr (ap_state A, m, l) \<and>
    views (a_searcher (ap_state A)) v \<and> ivf_ok v \<and> length (i_cents v) = 2 \<and> length (i_vecs v) = 2 \<and>
    (\<forall>meth path body el w. \<exists>reply w'. app_route A meth path body el w = Inr (reply, w'))"
proof (rule demo_service)
  fix fs' and A :: app and m l assume st: "build demo_libs roomy_device demo_args demo_disk = Inr fs'"
    "demo_env_vars 1 ''INDEX_PATH'' = Some (out_path demo_args)"
    "startup (demo_env_vars 1) fs' (\<lambda>_. Some demo_norm) (\<lambda>_. Some Map.empty) = Inr (ap_state A, m, l)"
    and p: "probes (a_searcher (ap_state A)) = 1"
    and A: "select_contract (ap_select A)" "sort_contract (ap_sort A)" "ap_parse_time A = demo_parse"
  have parse: "rfc3339_contract (ap_parse_time A)" by (simp only: A(3) demo_request_ok(1))
  have n: "probes (a_searcher (ap_state A)) \<noteq> 0" "unat (num_centroids demo_args) = 2" "length (usable demo_recs) = 2"
    using p by (simp_all add: demo_args_def demo_recs_def)
  from built_service_typed [OF A(1,2) parse demo_build_ok(1,2) st] n
  have "\<exists>v. views (a_searcher (ap_state A)) v \<and> ivf_ok v \<and> length (i_cents v) = 2 \<and> length (i_vecs v) = 2"
    "\<forall>meth path body el w. \<exists>reply w'. app_route A meth path body el w = Inr (reply, w')" by auto
  with st show ?thesis by blast
qed

section \<open>From records to explanations\<close>

text \<open>C5: The classifier, run over the index of a build and the array of records it was built from,
  with sane constants and mismatches that parse, gets through without a panic: it leaves the
  file system as it was but for its output file, which holds a line per mismatch in order, each
  listing five usable records nearest to the features of its transaction in single precision; and
  the printed counts add up to the number of mismatches.\<close>

theorem classifier_over_built_index:
  assumes "shuffle_contract (shuffle L)" and "build_input L fs b recs" and "build L dev b fs = Inr fs'"
    and "diag_parse_args raw = Inr a" and "index_path a = out_path b" and "fs' (refs_path a) = fs (in_path b)"
    and "libs_ok D" and "constants_ok D fs' a" and "mismatches_ok D fs' a ms" and "output_ok dev' a"
  shows "\<exists>s out. classify_mismatches D L dev' raw fs'
      = Inr (s, fs'(output_path a \<mapsto> classified_lines (dl_to_string D) out)) \<and>
    map cr_idx out = map m_idx ms \<and> sm_total s = length ms \<and>
    sum_list (map (fst \<circ> snd) (sm_classes s)) = length ms \<and>
    (\<forall>r\<in>set out. k_smallest nn_key 5
       (mset (true_candidates (map (\<lambda>r. (take DIMS (rl_vector r), rl_label r = ''fraud'')) (usable recs)) (cr_query_vec r)))
       (mset (map nn_of (cr_true_5nn r))))"
proof -
  obtain E out centroids clusters where E: "diag_env_ok E centroids clusters" "\<forall>m\<in>set ms. readable E m"
    "d_refs E = map (\<lambda>r. (take DIMS (rl_vector r), rl_label r = ''fraud'')) (usable recs)"
    "classify_all E ms = Inr (tally_of out, out)"
    "classify_mismatches D L dev' raw fs'
      = Inr (summarize (length ms) (tally_of out), fs'(output_path a \<mapsto> classified_lines (dl_to_string D) out))"
    by (rule classify_mismatches_built [OF assms])
  have rs: "try_map (classify_one E) ms = Inr out" using E(4) unfolding classify_all_eq and_then_eq_Inr by auto
  note each = try_map_nth [OF rs]
  have one: "classify_one E (ms ! i) = Inr (out ! i)" "readable E (ms ! i)" if "i < length ms" for i
    using each E(2) that by simp_all
  have "map cr_idx out = map m_idx ms"
    using each classify_one_true_5nn(2) [OF E(1) one(2,1)] by (intro nth_equalityI) simp_all
  moreover have "sum_list (map (fst \<circ> snd) (sm_classes (summarize (length ms) (tally_of out)))) = length ms"
    using class_count_total [of out] each by (simp add: summarize_def tally_of_def)
  moreover have "\<forall>r\<in>set out. k_smallest nn_key 5 (mset (true_candidates (d_refs E) (cr_query_vec r))) (mset (map nn_of (cr_true_5nn r)))"
    using each classify_one_true_5nn(1) [OF E(1) one(2,1)] by (metis in_set_conv_nth)
  ultimately show ?thesis using E(5) unfolding E(3) by (intro exI conjI) (assumption | simp add: summarize_def)+
qed

definition demo_disk_diag :: file_system where
  "demo_disk_diag = demo_disk(''n'' \<mapsto> [open_brace, close_brace],
     ''m'' \<mapsto> unlines [demo_line 0x30, [0x20, 0x09], demo_line 0x31])"

definition demo_diag_libs :: "unit diag_libs" where
  "demo_diag_libs = \<lparr>dl_select = insertion_select, dl_sort = insertion_sort, dl_sort_nn = insertion_sort,
     dl_parse_time = demo_parse, dl_norm_from_str = (\<lambda>_. Some demo_norm), dl_mcc_from_str = (\<lambda>_. Some Map.empty),
     dl_mismatch_from_str = demo_parse_line, dl_from_value = (\<lambda>_. Some (demo_request ''yesterday'' None)),
     dl_to_string = (\<lambda>r. demo_line (word_of_nat (cr_idx r)))\<rparr>"

definition demo_diag_args :: "string list" where
  "demo_diag_args = [''classify_mismatches'', ''--mismatches'', ''m'', ''--index'', ''o'', ''--refs'', ''g'',
     ''--norm'', ''n'', ''--mcc'', ''n'', ''--output'', ''c'']"

lemma demo_diag_inputs:
  assumes "build demo_libs roomy_device demo_args demo_disk_diag = Inr fs'"
  obtains a where "diag_parse_args demo_diag_args = Inr a" "index_path a = ''o''" "output_path a = ''c''"
    "fs' (refs_path a) = demo_disk_diag ''g''"
    "constants_ok demo_diag_libs fs' a" "mismatches_ok demo_diag_libs fs' a [demo_mismatch, demo_mismatch\<lparr>m_idx := 1\<rparr>]"
    "output_ok roomy_device a"
proof -
  let ?a = "\<lparr>mismatches_path = ''m'', index_path = ''o'', refs_path = ''g'', norm_path = ''n'', mcc_path = ''n'', output_path = ''c''\<rparr>"
  have keep: "fs' p = demo_disk_diag p" if "p \<in> {''g'', ''m'', ''n''}" for p
    using that by (intro build_keeps [OF assms]) (auto simp: demo_args_def raw_f32_path_def ends_with_def)
  show thesis
  proof (rule that [of ?a])
    show "diag_parse_args demo_diag_args = Inr ?a"
      by (simp add: diag_parse_args_def demo_diag_args_def diag_loop.simps diag_flag_def default_diag_args_def at_index_def Let_def)
    show "mismatches_ok demo_diag_libs fs' ?a [demo_mismatch, demo_mismatch\<lparr>m_idx := 1\<rparr>]"
      using mismatches_read_demo keep demo_request_ok(4) by (simp add: mismatches_ok_def demo_diag_libs_def demo_disk_diag_def)
    show "constants_ok demo_diag_libs fs' ?a"
      using keep demo_request_ok(2,3) by (simp add: constants_ok_def demo_diag_libs_def demo_disk_diag_def)
  qed (simp_all add: keep output_ok_def roomy_device_def)
qed

theorem classifier_over_built_index_witness:
  "\<exists>fs' s out. build demo_libs roomy_device demo_args demo_disk_diag = Inr fs' \<and>
    classify_mismatches demo_diag_libs demo_libs roomy_device demo_diag_args fs'
      = Inr (s, fs'(''c'' \<mapsto> classified_lines (\<lambda>r. demo_line (word_of_nat (cr_idx r))) out)) \<and>
    map cr_idx out = [0, 1] \<and> sm_total s = 2"
proof -
  have "demo_disk_diag (in_path demo_args) = demo_disk (in_path demo_args)"
    by (simp add: demo_disk_diag_def demo_args_def)
  then have input: "build_input demo_libs demo_disk_diag demo_args demo_recs"
    using demo_build_ok(2) build_input_cong by blast
  obtain fs' where fs': "build demo_libs roomy_device demo_args demo_disk_diag = Inr fs'"
    by (rule build_succeeds [OF demo_build_ok(1) input demo_build_ok(3)])
  obtain a where a: "diag_parse_args demo_diag_args = Inr a" "index_path a = ''o''" "output_path a = ''c''"
    "fs' (refs_path a) = demo_disk_diag ''g''" "constants_ok demo_diag_libs fs' a"
    "mismatches_ok demo_diag_libs fs' a [demo_mismatch, demo_mismatch\<lparr>m_idx := 1\<rparr>]" "output_ok roomy_device a"
    by (rule demo_diag_inputs [OF fs'])
  have o: "index_path a = out_path demo_args" "fs' (refs_path a) = demo_disk_diag (in_path demo_args)"
    by (simp_all add: a(2,4) demo_args_def)
  have "libs_ok demo_diag_libs"
    using insertion_contracts insertion.sort demo_request_ok(1) by (simp add: libs_ok_def demo_diag_libs_def)
  from classifier_over_built_index [OF demo_build_ok(1) input fs' a(1) o this a(5-7)] obtain s out where
    "classify_mismatches demo_diag_libs demo_libs roomy_device demo_diag_args fs'
      = Inr (s, fs'(''c'' \<mapsto> classified_lines (dl_to_string demo_diag_libs) out))"
    "map cr_idx out = [0, 1]" "sm_total s = 2"
    unfolding a(3) by (auto simp: demo_mismatch_def)
  moreover have "dl_to_string demo_diag_libs = (\<lambda>r. demo_line (word_of_nat (cr_idx r)))" by (simp add: demo_diag_libs_def)
  ultimately show ?thesis using fs' by metis
qed

end
